theory Spec2Isabelle
  imports Complex_Main "HOL-Library.Word" "HOL-Library.Log_Nat"
begin

unbundle bit_operations_syntax

section \<open>Research Planner: the task line codec, the identifier manager and the week store\<close>

text \<open>
  A shallow embedding of \<^verbatim>\<open>src/App.tsx\<close>. JavaScript strings are sequences of UTF-16
  code units, so a string is a list of 16-bit words; regular expressions without the
  \<^verbatim>\<open>u\<close> flag work on code units as well.
\<close>

subsection \<open>Strings\<close>

type_synonym jschar = "16 word"
type_synonym jsstring = "jschar list"

text \<open>ASCII literals of the source are written as Isabelle strings and converted.\<close>

definition js :: "string \<Rightarrow> jsstring" where
  "js s = map of_char s"

text \<open>
  Character classes of the regular expressions and of \<^verbatim>\<open>trim\<close>: \<^verbatim>\<open>\s\<close> is ECMAScript's
  WhiteSpace together with LineTerminator, \<^verbatim>\<open>.\<close> (no \<^verbatim>\<open>s\<close> flag) is everything but a
  LineTerminator.
\<close>

definition isLineTerminator :: "jschar \<Rightarrow> bool" where
  "isLineTerminator c = (c = 0x0A \<or> c = 0x0D \<or> c = 0x2028 \<or> c = 0x2029)"

definition isWhiteSpace :: "jschar \<Rightarrow> bool" where
  "isWhiteSpace c =
     (c = 0x09 \<or> c = 0x0B \<or> c = 0x0C \<or> c = 0x20 \<or> c = 0xA0 \<or> c = 0x1680
      \<or> (0x2000 \<le> c \<and> c \<le> 0x200A) \<or> c = 0x202F \<or> c = 0x205F \<or> c = 0x3000
      \<or> c = 0xFEFF)"

definition isSpace :: "jschar \<Rightarrow> bool" where
  \<comment> \<open>\<^verbatim>\<open>\s\<close>\<close>
  "isSpace c = (isWhiteSpace c \<or> isLineTerminator c)"

definition nonSpace :: "jschar \<Rightarrow> bool" where
  \<comment> \<open>\<^verbatim>\<open>\S\<close>\<close>
  "nonSpace c = (\<not> isSpace c)"

definition isDigit :: "jschar \<Rightarrow> bool" where
  \<comment> \<open>\<^verbatim>\<open>\d\<close>, \<^verbatim>\<open>[0-9]\<close>\<close>
  "isDigit c = (0x30 \<le> c \<and> c \<le> 0x39)"

definition isHexDigit :: "jschar \<Rightarrow> bool" where
  \<comment> \<open>\<^verbatim>\<open>[a-fA-F0-9]\<close>\<close>
  "isHexDigit c = ((0x61 \<le> c \<and> c \<le> 0x66) \<or> (0x41 \<le> c \<and> c \<le> 0x46) \<or> (0x30 \<le> c \<and> c \<le> 0x39))"

definition trimStart :: "jsstring \<Rightarrow> jsstring" where
  "trimStart s = dropWhile isSpace s"

definition trimEnd :: "jsstring \<Rightarrow> jsstring" where
  "trimEnd s = rev (dropWhile isSpace (rev s))"

definition trim :: "jsstring \<Rightarrow> jsstring" where
  "trim s = trimEnd (trimStart s)"

text \<open>
  \<^verbatim>\<open>md.split("\n")\<close> always returns at least one piece; \<^verbatim>\<open>parts.join(sep)\<close>.
\<close>

fun split_nl :: "jsstring \<Rightarrow> jsstring list" where
  "split_nl [] = [[]]"
| "split_nl (c # cs) =
     (if c = 0x0A then [] # split_nl cs
      else (case split_nl cs of [] \<Rightarrow> [[c]] | l # ls \<Rightarrow> (c # l) # ls))"

fun join :: "jsstring \<Rightarrow> jsstring list \<Rightarrow> jsstring" where
  "join sep [] = []"
| "join sep [p] = p"
| "join sep (p # q # ps) = p @ sep @ join sep (q # ps)"

definition join_nl :: "jsstring list \<Rightarrow> jsstring" where
  "join_nl ls = join [0x0A] ls"

text \<open>A literal at the start of a string: the rest after it, if it is there.\<close>

definition lit :: "jsstring \<Rightarrow> jsstring \<Rightarrow> jsstring option" where
  "lit p s = (if take (length p) s = p then Some (drop (length p) s) else None)"

text \<open>
  An unanchored regular expression is tried at every index from 0 up to the length of
  the input, and the leftmost index where it matches wins. \<open>m\<close> says what the expression
  matches at the very start of a suffix; the result is the index and \<open>m\<close>'s result.
\<close>

fun searchRe :: "(jsstring \<Rightarrow> 'a option) \<Rightarrow> jsstring \<Rightarrow> (nat \<times> 'a) option" where
  "searchRe m [] = (case m [] of Some r \<Rightarrow> Some (0, r) | None \<Rightarrow> None)"
| "searchRe m (c # cs) =
     (case m (c # cs) of
        Some r \<Rightarrow> Some (0, r)
      | None \<Rightarrow> (case searchRe m cs of Some (i, r) \<Rightarrow> Some (Suc i, r) | None \<Rightarrow> None))"

text \<open>
  The group \<^verbatim>\<open>(?:^|\s)\<close> in front of an expression \<open>m\<close>: at index 0 of the input the
  alternative \<^verbatim>\<open>^\<close> is tried first and consumes nothing; otherwise, and when \<open>m\<close> fails
  after \<^verbatim>\<open>^\<close>, one \<^verbatim>\<open>\s\<close> is consumed. The result carries the width of the group.
\<close>

definition boundedAt :: "bool \<Rightarrow> (jsstring \<Rightarrow> 'a option) \<Rightarrow> jsstring \<Rightarrow> (nat \<times> 'a) option" where
  "boundedAt atStart m s =
     (case (if atStart then m s else None) of
        Some r \<Rightarrow> Some (0, r)
      | None \<Rightarrow>
          (case s of
             [] \<Rightarrow> None
           | c # cs \<Rightarrow>
               if isSpace c then (case m cs of Some r \<Rightarrow> Some (1, r) | None \<Rightarrow> None)
               else None))"

fun searchBounded :: "bool \<Rightarrow> (jsstring \<Rightarrow> 'a option) \<Rightarrow> jsstring \<Rightarrow> (nat \<times> nat \<times> 'a) option" where
  "searchBounded atStart m [] =
     (case boundedAt atStart m [] of Some (w, r) \<Rightarrow> Some (0, w, r) | None \<Rightarrow> None)"
| "searchBounded atStart m (c # cs) =
     (case boundedAt atStart m (c # cs) of
        Some (w, r) \<Rightarrow> Some (0, w, r)
      | None \<Rightarrow>
          (case searchBounded False m cs of
             Some (i, w, r) \<Rightarrow> Some (Suc i, w, r)
           | None \<Rightarrow> None))"

subsection \<open>Numbers\<close>

text \<open>
  A Number is an IEEE binary64 value: NaN, an infinity, or a finite value held as the
  rational it denotes (\<open>-0\<close> is identified with \<open>0\<close>: the program cannot tell them apart,
  \<^verbatim>\<open>String(-0)\<close> is \<^verbatim>\<open>"0"\<close> and \<^verbatim>\<open>-0 >= 0\<close>).
\<close>

datatype jsnumber = NaN | Infinity bool | Fin rat

definition isInteger :: "jsnumber \<Rightarrow> bool" where
  \<comment> \<open>\<^verbatim>\<open>Number.isInteger\<close>\<close>
  "isInteger v = (case v of Fin q \<Rightarrow> of_int \<lfloor>q\<rfloor> = q | _ \<Rightarrow> False)"

definition geZero :: "jsnumber \<Rightarrow> bool" where
  \<comment> \<open>\<^verbatim>\<open>value >= 0\<close>\<close>
  "geZero v = (case v of Fin q \<Rightarrow> 0 \<le> q | Infinity neg \<Rightarrow> \<not> neg | NaN \<Rightarrow> False)"

definition isNaN :: "jsnumber \<Rightarrow> bool" where
  "isNaN v = (v = NaN)"

definition numGreater :: "jsnumber \<Rightarrow> jsnumber \<Rightarrow> bool" where
  \<comment> \<open>\<^verbatim>\<open>a > b\<close> on Numbers\<close>
  "numGreater a b =
     (case (a, b) of
        (Fin x, Fin y) \<Rightarrow> y < x
      | (Infinity na, Fin y) \<Rightarrow> \<not> na
      | (Fin x, Infinity nb) \<Rightarrow> nb
      | (Infinity na, Infinity nb) \<Rightarrow> \<not> na \<and> nb
      | _ \<Rightarrow> False)"

definition negate :: "jsnumber \<Rightarrow> jsnumber" where
  "negate v = (case v of NaN \<Rightarrow> NaN | Infinity neg \<Rightarrow> Infinity (\<not> neg) | Fin q \<Rightarrow> Fin (- q))"

text \<open>
  Rounding a non-negative real to binary64 (nearest, ties to even): \<open>ilog b q\<close> is the
  integer logarithm of \<open>q > 0\<close>; a value with binary exponent \<open>e\<close> is a multiple of
  \<open>2 powi (e - 52)\<close>, a subnormal one of \<open>2 powi (- 1074)\<close>; what rounds up to
  \<open>2 ^ 1024\<close> is infinite.
\<close>

definition ilog :: "nat \<Rightarrow> rat \<Rightarrow> int" where
  "ilog b q =
     (let (n, d) = quotient_of q;
          e = int (floorlog b (nat n)) - int (floorlog b (nat d))
      in if of_nat b powi e \<le> q then e else e - 1)"

definition roundHalfEven :: "rat \<Rightarrow> int" where
  "roundHalfEven q =
     (let f = \<lfloor>q\<rfloor>; d = q - of_int f
      in if d < 1 / 2 then f else if 1 / 2 < d then f + 1 else if even f then f else f + 1)"

definition toBinary64 :: "rat \<Rightarrow> jsnumber" where
  "toBinary64 q =
     (if q = 0 then Fin 0
      else let p = max (ilog 2 q - 52) (- 1074);
               r = of_int (roundHalfEven (q / (2 powi p))) * (2 powi p)
           in if 2 ^ 1024 \<le> r then Infinity False else Fin r)"

text \<open>\<^verbatim>\<open>Number(s)\<close>: ECMAScript's StringToNumber.\<close>

definition digitVal :: "jschar \<Rightarrow> nat" where
  "digitVal c =
     (if isDigit c then unat c - 0x30
      else if 0x61 \<le> c \<and> c \<le> 0x66 then unat c - 0x57
      else unat c - 0x37)"

definition digitsVal :: "nat \<Rightarrow> jsstring \<Rightarrow> nat" where
  "digitsVal b ds = foldl (\<lambda>a c. a * b + digitVal c) 0 ds"

definition nonDecimalIntegerLiteral :: "jsstring \<Rightarrow> nat option" where
  \<comment> \<open>\<^verbatim>\<open>0x\<close>, \<^verbatim>\<open>0o\<close>, \<^verbatim>\<open>0b\<close> and their digits\<close>
  "nonDecimalIntegerLiteral t =
     (case t of
        z # x # ds \<Rightarrow>
          if z = 0x30 \<and> ds \<noteq> [] then
            (if (x = 0x78 \<or> x = 0x58) \<and> list_all isHexDigit ds then Some (digitsVal 16 ds)
             else if (x = 0x6F \<or> x = 0x4F) \<and> list_all (\<lambda>c. 0x30 \<le> c \<and> c \<le> 0x37) ds
               then Some (digitsVal 8 ds)
             else if (x = 0x62 \<or> x = 0x42) \<and> list_all (\<lambda>c. c = 0x30 \<or> c = 0x31) ds
               then Some (digitsVal 2 ds)
             else None)
          else None
      | _ \<Rightarrow> None)"

definition decimalDigits :: "jsstring \<Rightarrow> int option" where
  \<comment> \<open>a non-empty run of decimal digits, and nothing else\<close>
  "decimalDigits ds = (if ds \<noteq> [] \<and> list_all isDigit ds then Some (int (digitsVal 10 ds)) else None)"

definition exponentPart :: "jsstring \<Rightarrow> int option" where
  \<comment> \<open>the optional ExponentPart that ends the literal: absent is exponent 0\<close>
  "exponentPart r =
     (case r of
        [] \<Rightarrow> Some 0
      | c # r' \<Rightarrow>
          if c = 0x65 \<or> c = 0x45 then
            (case r' of
               [] \<Rightarrow> None
             | sg # ds \<Rightarrow>
                 if sg = 0x2B then decimalDigits ds
                 else if sg = 0x2D then map_option uminus (decimalDigits ds)
                 else decimalDigits r')
          else None)"

definition strUnsignedDecimalLiteral :: "jsstring \<Rightarrow> jsnumber" where
  "strUnsignedDecimalLiteral u =
     (if u = js ''Infinity'' then Infinity False
      else
        let ip = takeWhile isDigit u;
            r1 = dropWhile isDigit u;
            (fp, r2) = (case r1 of
                          [] \<Rightarrow> ([], r1)
                        | c # r \<Rightarrow> if c = 0x2E then (takeWhile isDigit r, dropWhile isDigit r)
                                   else ([], r1))
        in if ip = [] \<and> fp = [] then NaN
           else (case exponentPart r2 of
                   None \<Rightarrow> NaN
                 | Some e \<Rightarrow>
                     toBinary64 (of_nat (digitsVal 10 (ip @ fp)) * (10 powi (e - int (length fp))))))"

definition Number :: "jsstring \<Rightarrow> jsnumber" where
  "Number s =
     (let t = trim s in
      case t of
        [] \<Rightarrow> Fin 0
      | c # cs \<Rightarrow>
          (case nonDecimalIntegerLiteral t of
             Some n \<Rightarrow> toBinary64 (of_nat n)
           | None \<Rightarrow>
               if c = 0x2B then strUnsignedDecimalLiteral cs
               else if c = 0x2D then negate (strUnsignedDecimalLiteral cs)
               else strUnsignedDecimalLiteral t))"

text \<open>
  \<^verbatim>\<open>String(v)\<close>, Number::toString in radix 10. The digits \<open>s\<close> (\<open>k\<close> of them) and the
  exponent \<open>n\<close> are the shortest that read back as the value; for an integer below
  \<open>2 ^ 53\<close> they are its decimal digits, since every integer of that size is a binary64
  value of its own. \<open>Fin q\<close> for a \<open>q\<close> that is no binary64 value is no Number; it has no
  digits and the text is empty.
\<close>

fun decimal :: "nat \<Rightarrow> jsstring" where
  "decimal n = (if n < 10 then [0x30 + of_nat n] else decimal (n div 10) @ [0x30 + of_nat (n mod 10)])"

declare decimal.simps [simp del]

definition digitCandidates :: "rat \<Rightarrow> nat \<Rightarrow> (int \<times> nat) list" where
  "digitCandidates q k =
     (let n = ilog 10 q + 1;
          lo = nat \<lfloor>q / (10 powi (n - int k))\<rfloor>;
          up = (if lo + 1 < 10 ^ k then (n, lo + 1) else (n + 1, 10 ^ (k - 1)))
      in filter (\<lambda>(n', s). toBinary64 (of_nat s * (10 powi (n' - int k))) = Fin q) [(n, lo), up])"

definition shortestDigits :: "rat \<Rightarrow> (int \<times> nat \<times> nat) option" where
  "shortestDigits q =
     (case filter (\<lambda>k. digitCandidates q k \<noteq> []) [1..<18] of
        [] \<Rightarrow> None
      | k # _ \<Rightarrow>
          (case digitCandidates q k of
             [(n, s)] \<Rightarrow> Some (n, k, s)
           | [(n, s), (n', s')] \<Rightarrow>
               let d = q - of_nat s * (10 powi (n - int k));
                   d' = of_nat s' * (10 powi (n' - int k)) - q
               in if d < d' \<or> (d = d' \<and> even s) then Some (n, k, s) else Some (n', k, s')
           | _ \<Rightarrow> None))"

definition formatDigits :: "int \<Rightarrow> nat \<Rightarrow> jsstring \<Rightarrow> jsstring" where
  "formatDigits n k ds =
     (if int k \<le> n \<and> n \<le> 21 then ds @ replicate (nat (n - int k)) 0x30
      else if 0 < n \<and> n \<le> 21 then take (nat n) ds @ js ''.'' @ drop (nat n) ds
      else if - 6 < n \<and> n \<le> 0 then js ''0.'' @ replicate (nat (- n)) 0x30 @ ds
      else
        let e = n - 1;
            es = (if e < 0 then js ''-'' else js ''+'') @ decimal (nat \<bar>e\<bar>)
        in if k = 1 then ds @ js ''e'' @ es
           else take 1 ds @ js ''.'' @ drop 1 ds @ js ''e'' @ es)"

definition posToString :: "rat \<Rightarrow> jsstring" where
  "posToString q =
     (if of_int \<lfloor>q\<rfloor> = q \<and> q < 2 ^ 53 then decimal (nat \<lfloor>q\<rfloor>)
      else (case shortestDigits q of
              Some (n, k, s) \<Rightarrow> formatDigits n k (decimal s)
            | None \<Rightarrow> []))"

definition numToString :: "jsnumber \<Rightarrow> jsstring" where
  "numToString v =
     (case v of
        NaN \<Rightarrow> js ''NaN''
      | Infinity neg \<Rightarrow> (if neg then js ''-Infinity'' else js ''Infinity'')
      | Fin q \<Rightarrow>
          if q = 0 then js ''0''
          else if q < 0 then js ''-'' @ posToString (- q)
          else posToString q)"

subsection \<open>Identifier manager\<close>

text \<open>
  \<^verbatim>\<open>[a-fA-F0-9]{6,32}\<close> in front of something that cannot start with a hex digit
  (\<^verbatim>\<open>\s*-->\<close> or \<^verbatim>\<open>\}\<close>): the quantifier is greedy, and giving back digits leaves a hex
  digit where none can follow, so it matches exactly when the whole run of hex digits has
  6 to 32 code units. The result is the run and the rest.
\<close>

definition hexId :: "jsstring \<Rightarrow> (jsstring \<times> jsstring) option" where
  "hexId s =
     (let h = takeWhile isHexDigit s
      in if 6 \<le> length h \<and> length h \<le> 32 then Some (h, dropWhile isHexDigit s) else None)"

text \<open>
  \<^verbatim>\<open>TASK_ID_HTML_RE = /<!--\s*tid:([a-fA-F0-9]{6,32})\s*-->\s*$/\<close> and
  \<^verbatim>\<open>TASK_ID_LEGACY_RE = /\{#t:([a-fA-F0-9]{6,32})\}\s*$/\<close> at the start of a suffix: group 1.
  Each \<^verbatim>\<open>\s*\<close> stands before a literal that is no white space, so it takes the whole run.
\<close>

definition htmlTokenAt :: "jsstring \<Rightarrow> jsstring option" where
  "htmlTokenAt s =
     (case lit (js ''<!--'') s of
        None \<Rightarrow> None
      | Some s1 \<Rightarrow>
          (case lit (js ''tid:'') (dropWhile isSpace s1) of
             None \<Rightarrow> None
           | Some s2 \<Rightarrow>
               (case hexId s2 of
                  None \<Rightarrow> None
                | Some (h, s3) \<Rightarrow>
                    (case lit (js ''-->'') (dropWhile isSpace s3) of
                       None \<Rightarrow> None
                     | Some s4 \<Rightarrow> if dropWhile isSpace s4 = [] then Some h else None))))"

definition legacyTokenAt :: "jsstring \<Rightarrow> jsstring option" where
  "legacyTokenAt s =
     (case lit (js ''{#t:'') s of
        None \<Rightarrow> None
      | Some s1 \<Rightarrow>
          (case hexId s1 of
             None \<Rightarrow> None
           | Some (h, s2) \<Rightarrow>
               (case lit (js ''}'') s2 of
                  None \<Rightarrow> None
                | Some s3 \<Rightarrow> if dropWhile isSpace s3 = [] then Some h else None)))"

definition hexDigitChar :: "nat \<Rightarrow> jschar" where
  "hexDigitChar n = (if n < 10 then 0x30 + of_nat n else 0x57 + of_nat n)"

fun toString16 :: "nat \<Rightarrow> jsstring" where
  "toString16 n =
     (if n < 16 then [hexDigitChar n] else toString16 (n div 16) @ [hexDigitChar (n mod 16)])"

declare toString16.simps [simp del]

definition padStart2 :: "jsstring \<Rightarrow> jsstring" where
  \<comment> \<open>\<^verbatim>\<open>.padStart(2, "0")\<close>\<close>
  "padStart2 s = replicate (2 - length s) 0x30 @ s"

text \<open>
  \<^verbatim>\<open>crypto.getRandomValues\<close> is an entropy source: an infinite sequence of bytes and a
  cursor into it. \<open>genTaskId\<close> draws four bytes and returns the id and the new cursor.
\<close>

type_synonym entropy = "nat \<Rightarrow> 8 word"

definition genTaskId :: "entropy \<Rightarrow> nat \<Rightarrow> jsstring \<times> nat" where
  "genTaskId ent k =
     (concat (map (\<lambda>b. padStart2 (toString16 (unat b))) [ent k, ent (k + 1), ent (k + 2), ent (k + 3)]),
      k + 4)"

definition extractTaskId :: "jsstring \<Rightarrow> jsstring option" where
  "extractTaskId text =
     (case searchRe htmlTokenAt text of
        Some (i, h) \<Rightarrow> Some h
      | None \<Rightarrow> (case searchRe legacyTokenAt text of Some (i, h) \<Rightarrow> Some h | None \<Rightarrow> None))"

definition hasCanonicalTaskId :: "jsstring \<Rightarrow> bool" where
  "hasCanonicalTaskId text = (searchRe htmlTokenAt text \<noteq> None)"

text \<open>
  \<^verbatim>\<open>text.replace(re, "")\<close> for an expression that ends in \<^verbatim>\<open>$\<close>: the leftmost match runs
  to the end of the text, so what stays is the text before it.
\<close>

definition cutMatch :: "(jsstring \<Rightarrow> 'a option) \<Rightarrow> jsstring \<Rightarrow> jsstring" where
  "cutMatch m text = (case searchRe m text of None \<Rightarrow> text | Some (i, r) \<Rightarrow> take i text)"

definition stripTaskIdToken :: "jsstring \<Rightarrow> jsstring" where
  "stripTaskIdToken text =
     trim (cutMatch (\<lambda>s. legacyTokenAt (dropWhile isSpace s))
             (cutMatch (\<lambda>s. htmlTokenAt (dropWhile isSpace s)) text))"

definition taskIdToken :: "jsstring \<Rightarrow> jsstring" where
  "taskIdToken ident = js ''<!-- tid:'' @ ident @ js '' -->''"

definition ensureTaskIdOnLine :: "jsstring \<Rightarrow> jsstring \<Rightarrow> jsstring" where
  "ensureTaskIdOnLine line ident = trimEnd (stripTaskIdToken line @ js '' '' @ taskIdToken ident)"

text \<open>
  \<open>lineHasTaskId\<close> builds its two expressions from the id. Ids come from
  \<open>extractTaskId\<close> and \<open>genTaskId\<close>, so they are runs of hex digits, which an expression
  matches literally; the model reads the id as a literal.
\<close>

fun anySuffix :: "(jsstring \<Rightarrow> bool) \<Rightarrow> jsstring \<Rightarrow> bool" where
  "anySuffix P [] = P []"
| "anySuffix P (c # cs) = (P (c # cs) \<or> anySuffix P cs)"

definition htmlIdAt :: "jsstring \<Rightarrow> jsstring \<Rightarrow> bool" where
  \<comment> \<open>\<^verbatim>\<open><!--\s*tid:${id}\s*-->\<close>\<close>
  "htmlIdAt ident s =
     (case lit (js ''<!--'') s of
        None \<Rightarrow> False
      | Some s1 \<Rightarrow>
          (case lit (js ''tid:'' @ ident) (dropWhile isSpace s1) of
             None \<Rightarrow> False
           | Some s2 \<Rightarrow> lit (js ''-->'') (dropWhile isSpace s2) \<noteq> None))"

definition legacyIdAt :: "jsstring \<Rightarrow> jsstring \<Rightarrow> bool" where
  \<comment> \<open>\<^verbatim>\<open>\{#t:${id}\}\<close>\<close>
  "legacyIdAt ident s = (lit (js ''{#t:'' @ ident @ js ''}'') s \<noteq> None)"

definition lineHasTaskId :: "jsstring \<Rightarrow> jsstring \<Rightarrow> bool" where
  "lineHasTaskId line ident = (anySuffix (htmlIdAt ident) line \<or> anySuffix (legacyIdAt ident) line)"

subsection \<open>Task line codec\<close>

record TaskMeta =
  estMin :: "jsnumber option"
  actMin :: "jsnumber option"
  reason :: jsstring

record ParsedMeta = TaskMeta +
  cleanedText :: jsstring

text \<open>
  A task; the fields \<^verbatim>\<open>id\<close>, \<^verbatim>\<open>text\<close> and \<^verbatim>\<open>done\<close> of the source are \<open>taskId\<close>,
  \<open>taskText\<close> and \<open>taskDone\<close> here.
\<close>

record Task = TaskMeta +
  taskId :: jsstring
  lineIndex :: nat
  taskText :: jsstring
  taskDone :: bool
  hasId :: bool

text \<open>The markers: U+23F3 \<^verbatim>\<open>est:\<close>, U+231B \<^verbatim>\<open>act:\<close>, U+270D (U+FE0F) \<^verbatim>\<open>reason:\<close>.\<close>

definition estMarker :: jsstring where
  "estMarker = 0x23F3 # js ''est:''"

definition actMarker :: jsstring where
  "actMarker = 0x231B # js ''act:''"

definition reasonMarker :: jsstring where
  "reasonMarker = 0x270D # 0xFE0F # js ''reason:''"

text \<open>
  \<^verbatim>\<open>marker(\S+)(?=\s|$)\<close> at the start of a suffix: group 1 and the rest after the match.
  The greedy \<^verbatim>\<open>\S+\<close> takes the whole run, after which the lookahead holds.
\<close>

definition metaTokenAt :: "jsstring \<Rightarrow> jsstring \<Rightarrow> (jsstring \<times> jsstring) option" where
  "metaTokenAt marker s =
     (case lit marker s of
        None \<Rightarrow> None
      | Some r \<Rightarrow>
          if takeWhile nonSpace r = [] then None
          else Some (takeWhile nonSpace r, dropWhile nonSpace r))"

text \<open>
  \<^verbatim>\<open>(?:U+270D U+FE0F|U+270D)reason:(.*)$\<close> at the start of a suffix: group 1. The dot
  matches no LineTerminator, so the rest of the text must be free of them.
\<close>

definition reasonTail :: "jsstring \<Rightarrow> jsstring option" where
  "reasonTail s =
     (case lit (js ''reason:'') s of
        None \<Rightarrow> None
      | Some v \<Rightarrow> if list_ex isLineTerminator v then None else Some v)"

definition reasonAt :: "jsstring \<Rightarrow> jsstring option" where
  "reasonAt s =
     (case (case lit [0x270D, 0xFE0F] s of None \<Rightarrow> None | Some r \<Rightarrow> reasonTail r) of
        Some v \<Rightarrow> Some v
      | None \<Rightarrow> (case lit [0x270D] s of None \<Rightarrow> None | Some r \<Rightarrow> reasonTail r))"

lemma metaTokenAt_shorter:
  "metaTokenAt marker s = Some (v, rest) \<Longrightarrow> length rest < length s"
proof -
  assume a: "metaTokenAt marker s = Some (v, rest)"
  then obtain r where r: "lit marker s = Some r" "takeWhile nonSpace r \<noteq> []" "rest = dropWhile nonSpace r"
    by (auto simp: metaTokenAt_def split: option.splits if_splits)
  from r(2) obtain c cs where "r = c # cs" "nonSpace c"
    by (cases r) (auto split: if_splits)
  then have "length (dropWhile nonSpace r) < length r"
    using length_dropWhile_le [of nonSpace cs] by simp
  moreover from r(1) have "length r \<le> length s"
    by (auto simp: lit_def split: if_splits)
  ultimately show ?thesis using r(3) by simp
qed

lemma boundedAt_metaToken_shorter:
  assumes "boundedAt atStart (metaTokenAt marker) s = Some (w, v, rest)"
  shows "length rest < length s"
proof (cases "atStart \<and> metaTokenAt marker s \<noteq> None")
  case True
  with assms have "metaTokenAt marker s = Some (v, rest)"
    by (auto simp: boundedAt_def)
  then show ?thesis by (rule metaTokenAt_shorter)
next
  case False
  then have "(if atStart then metaTokenAt marker s else None) = None"
    by (cases "metaTokenAt marker s") auto
  with assms obtain c cs where "s = c # cs" "metaTokenAt marker cs = Some (v, rest)"
    by (cases s) (auto simp: boundedAt_def split: if_splits option.splits)
  then show ?thesis using metaTokenAt_shorter [of marker cs v rest] by simp
qed

text \<open>
  \<^verbatim>\<open>cleaned.replace(/(?:^|\s)marker\S+(?=\s|$)/g, " ")\<close>: every match, from left to right,
  each search starting where the last match ended; \<^verbatim>\<open>^\<close> holds at index 0 only.
\<close>

function replaceMetaTokens :: "jsstring \<Rightarrow> bool \<Rightarrow> jsstring \<Rightarrow> jsstring" where
  "replaceMetaTokens marker atStart s =
     (case boundedAt atStart (metaTokenAt marker) s of
        Some (w, v, rest) \<Rightarrow> 0x20 # replaceMetaTokens marker False rest
      | None \<Rightarrow> (case s of [] \<Rightarrow> [] | c # cs \<Rightarrow> c # replaceMetaTokens marker False cs))"
  by pat_completeness auto
termination
  by (relation "measure (\<lambda>(marker, atStart, s). length s)")
     (auto dest: boundedAt_metaToken_shorter)

declare replaceMetaTokens.simps [simp del]

text \<open>\<^verbatim>\<open>cleaned.replace(/\s+/g, " ")\<close>: every maximal run of white space becomes one space.\<close>

fun collapseSpaces :: "jsstring \<Rightarrow> jsstring" where
  "collapseSpaces [] = []"
| "collapseSpaces [c] = (if isSpace c then [0x20] else [c])"
| "collapseSpaces (c # d # cs) =
     (if isSpace c then (if isSpace d then collapseSpaces (d # cs) else 0x20 # collapseSpaces (d # cs))
      else c # collapseSpaces (d # cs))"

definition metaValue :: "jsstring \<Rightarrow> jsstring \<Rightarrow> jsnumber option" where
  \<comment> \<open>the first match of \<^verbatim>\<open>/(?:^|\s)marker(\S+)(?=\s|$)/\<close>, read as a non-negative integer\<close>
  "metaValue marker cleaned =
     (case searchBounded True (metaTokenAt marker) cleaned of
        None \<Rightarrow> None
      | Some (i, w, v, rest) \<Rightarrow>
          let value = Number v
          in if isInteger value \<and> geZero value then Some value else None)"

definition parseMeta :: "jsstring \<Rightarrow> ParsedMeta" where
  "parseMeta text =
     (let cleaned = stripTaskIdToken text;
          est = metaValue estMarker cleaned;
          cleaned = replaceMetaTokens estMarker True cleaned;
          act = metaValue actMarker cleaned;
          cleaned = replaceMetaTokens actMarker True cleaned;
          (rsn, cleaned) =
            (case searchBounded True reasonAt cleaned of
               None \<Rightarrow> ([], cleaned)
             | Some (i, w, v) \<Rightarrow> (trim v, trim (take i cleaned)));
          cleaned = trim (collapseSpaces cleaned)
      in \<lparr>estMin = est, actMin = act, reason = rsn, cleanedText = cleaned\<rparr>)"

definition buildTaskLine :: "bool \<Rightarrow> jsstring \<Rightarrow> TaskMeta \<Rightarrow> jsstring \<Rightarrow> jsstring" where
  "buildTaskLine checked cleaned meta ident =
     (let parts = [js ''- ['' @ (if checked then js ''x'' else js '' '') @ js '']''];
          baseText = cleanedText (parseMeta cleaned);
          parts = (if baseText \<noteq> [] then parts @ [baseText] else parts);
          parts = (case estMin meta of None \<Rightarrow> parts | Some n \<Rightarrow> parts @ [estMarker @ numToString n]);
          parts = (case actMin meta of None \<Rightarrow> parts | Some n \<Rightarrow> parts @ [actMarker @ numToString n]);
          rsn = trim (reason meta);
          parts = (if rsn \<noteq> [] then parts @ [reasonMarker @ rsn] else parts);
          parts = parts @ [taskIdToken ident]
      in join (js '' '') parts)"

text \<open>
  The checkbox at the start of a line, \<^verbatim>\<open>^(\s*-\s*\[)( |x|X)(\]\<close>...: the text up to
  the bracket, the mark, and the rest from \<^verbatim>\<open>]\<close> on. Then \<^verbatim>\<open>\s+(.*)$\<close> after the
  bracket: the greedy \<^verbatim>\<open>\s+\<close> takes the whole run of white space (giving some back
  would only make the dot meet it), and the dot needs the rest free of LineTerminators.
\<close>

definition checkboxAt :: "jsstring \<Rightarrow> (jsstring \<times> jschar \<times> jsstring) option" where
  "checkboxAt line =
     (case dropWhile isSpace line of
        [] \<Rightarrow> None
      | d # r1 \<Rightarrow>
          if d = 0x2D then
            (case dropWhile isSpace r1 of
               b # m # e # r2 \<Rightarrow>
                 if b = 0x5B \<and> (m = 0x20 \<or> m = 0x78 \<or> m = 0x58) \<and> e = 0x5D
                 then Some (takeWhile isSpace line @ [d] @ takeWhile isSpace r1 @ [b], m, e # r2)
                 else None
             | _ \<Rightarrow> None)
          else None)"

definition spacedRest :: "jsstring \<Rightarrow> jsstring option" where
  \<comment> \<open>\<^verbatim>\<open>\s+(.*)$\<close>: group 1\<close>
  "spacedRest r =
     (case r of
        [] \<Rightarrow> None
      | w # r' \<Rightarrow>
          if isSpace w \<and> \<not> list_ex isLineTerminator (dropWhile isSpace r) then Some (dropWhile isSpace r)
          else None)"

definition taskMatch :: "jsstring \<Rightarrow> (jschar \<times> jsstring) option" where
  \<comment> \<open>\<^verbatim>\<open>/^\s*-\s*\[( |x|X)\]\s+(.*)$/\<close>: groups 1 and 2\<close>
  "taskMatch line =
     (case checkboxAt line of
        None \<Rightarrow> None
      | Some (pre, m, post) \<Rightarrow>
          (case spacedRest (tl post) of None \<Rightarrow> None | Some rest \<Rightarrow> Some (m, rest)))"

definition toggleMatch :: "jsstring \<Rightarrow> (jsstring \<times> jschar \<times> jsstring) option" where
  \<comment> \<open>\<^verbatim>\<open>/^(\s*-\s*\[)( |x|X)(\]\s+.*)$/\<close>: groups 1, 2 and 3\<close>
  "toggleMatch line =
     (case checkboxAt line of
        None \<Rightarrow> None
      | Some (pre, m, post) \<Rightarrow>
          (case spacedRest (tl post) of None \<Rightarrow> None | Some rest \<Rightarrow> Some (pre, m, post)))"

definition taskPrefixTest :: "jsstring \<Rightarrow> bool" where
  \<comment> \<open>\<^verbatim>\<open>/^\s*-\s*\[( |x|X)\]\s+/.test(line)\<close>\<close>
  "taskPrefixTest line =
     (case checkboxAt line of
        None \<Rightarrow> False
      | Some (pre, m, post) \<Rightarrow> (case tl post of [] \<Rightarrow> False | w # r \<Rightarrow> isSpace w))"

definition isChecked :: "jschar \<Rightarrow> bool" where
  \<comment> \<open>\<^verbatim>\<open>m[1].toLowerCase() === "x"\<close>, for a mark that is a space, x or X\<close>
  "isChecked m = (m = 0x78 \<or> m = 0x58)"

fun parseLines :: "entropy \<Rightarrow> nat \<Rightarrow> nat \<Rightarrow> jsstring list \<Rightarrow> Task list \<times> nat" where
  "parseLines ent k i [] = ([], k)"
| "parseLines ent k i (line # lines) =
     (case taskMatch line of
        None \<Rightarrow> parseLines ent k (Suc i) lines
      | Some (m, m2) \<Rightarrow>
          let rest = trim m2;
              (ident, k') = (case extractTaskId rest of Some x \<Rightarrow> (x, k) | None \<Rightarrow> genTaskId ent k);
              parsedMeta = parseMeta rest;
              (tasks, k'') = parseLines ent k' (Suc i) lines
          in (\<lparr>estMin = estMin parsedMeta, actMin = actMin parsedMeta, reason = reason parsedMeta,
               taskId = ident, lineIndex = i, taskText = cleanedText parsedMeta,
               taskDone = isChecked m, hasId = hasCanonicalTaskId rest\<rparr> # tasks, k''))"

text \<open>\<open>parseTasks\<close> returns the tasks and the entropy cursor after the ids it generated.\<close>

definition parseTasks :: "entropy \<Rightarrow> nat \<Rightarrow> jsstring \<Rightarrow> Task list \<times> nat" where
  "parseTasks ent k md = parseLines ent k 0 (split_nl md)"

subsection \<open>Dates\<close>

text \<open>
  The program reads and sets a \<^verbatim>\<open>Date\<close> through local time only (\<^verbatim>\<open>setHours\<close>, \<^verbatim>\<open>getDay\<close>,
  \<^verbatim>\<open>getDate\<close>, \<^verbatim>\<open>setDate\<close>, \<^verbatim>\<open>getFullYear\<close>, \<^verbatim>\<open>getMonth\<close>), so a date is modelled by
  its local reading: the number of its calendar day (days since 1970-01-01, a Thursday;
  negative before) and the milliseconds elapsed within that day. Two time values with the
  same local reading (the repeated hour when daylight saving ends) are not told apart.

  \<^verbatim>\<open>setHours\<close> and \<^verbatim>\<open>setDate\<close> ask for a local time, and the date that results holds the time
  value the environment's time zone gives for it (\<^verbatim>\<open>UTC(t)\<close> of ECMAScript). Read back in
  local time that is the time asked for, except where the zone has no such local time: in
  a daylight-saving gap the date lands after the gap. The time zone is therefore a
  parameter, the function from the local time asked for (day and milliseconds) to the
  local reading of the date that results. \<open>plainZone\<close> is a zone without transitions;
  \<open>gapZone g\<close> is a zone whose clocks go from 00:00 to 01:00 at the start of day \<open>g\<close>.
  Invalid dates are outside this model.
\<close>

record jsdate =
  dayNum :: int
  msOfDay :: nat

type_synonym zone = "int \<Rightarrow> nat \<Rightarrow> jsdate"

definition plainZone :: zone where
  "plainZone n ms = \<lparr>dayNum = n, msOfDay = ms\<rparr>"

definition gapZone :: "int \<Rightarrow> zone" where
  "gapZone g n ms =
     (if n = g \<and> ms < 3600000 then \<lparr>dayNum = n, msOfDay = ms + 3600000\<rparr>
      else \<lparr>dayNum = n, msOfDay = ms\<rparr>)"

definition getDay :: "jsdate \<Rightarrow> int" where
  \<comment> \<open>Sun=0..Sat=6\<close>
  "getDay d = (dayNum d + 4) mod 7"

definition setHours0 :: "zone \<Rightarrow> jsdate \<Rightarrow> jsdate" where
  \<comment> \<open>\<^verbatim>\<open>x.setHours(0, 0, 0, 0)\<close>: local midnight of the same day is asked for\<close>
  "setHours0 z d = z (dayNum d) 0"

definition shiftDate :: "zone \<Rightarrow> jsdate \<Rightarrow> int \<Rightarrow> jsdate" where
  \<comment> \<open>\<^verbatim>\<open>x.setDate(x.getDate() + n)\<close>: the same time of day, \<open>n\<close> calendar days on, is asked for
     (the month and year overflow of \<^verbatim>\<open>setDate\<close> is exactly that normalisation)\<close>
  "shiftDate z d n = z (dayNum d + n) (msOfDay d)"

definition startOfWeekMonday :: "zone \<Rightarrow> jsdate \<Rightarrow> jsdate" where
  "startOfWeekMonday z d =
     (let x = setHours0 z d;
          day = getDay x;
          diff = (if day = 0 then - 6 else 1 - day)
      in shiftDate z x diff)"

definition addDays :: "zone \<Rightarrow> jsdate \<Rightarrow> int \<Rightarrow> jsdate" where
  "addDays z d n = shiftDate z d n"

text \<open>
  The calendar fields of a date (proleptic Gregorian, from the day number) and \<open>toYMD\<close>.
\<close>

definition civil :: "int \<Rightarrow> int \<times> int \<times> int" where
  \<comment> \<open>year, month (1..12) and day of the month\<close>
  "civil n =
     (let z = n + 719468;
          era = z div 146097;
          doe = z mod 146097;
          yoe = (doe - doe div 1460 + doe div 36524 - doe div 146096) div 365;
          doy = doe - (365 * yoe + yoe div 4 - yoe div 100);
          mp = (5 * doy + 2) div 153;
          d = doy - (153 * mp + 2) div 5 + 1;
          m = (if mp < 10 then mp + 3 else mp - 9)
      in (yoe + era * 400 + (if m \<le> 2 then 1 else 0), m, d))"

definition getFullYear :: "jsdate \<Rightarrow> int" where
  "getFullYear d = fst (civil (dayNum d))"

definition getMonth :: "jsdate \<Rightarrow> int" where
  "getMonth d = fst (snd (civil (dayNum d))) - 1"

definition getDate :: "jsdate \<Rightarrow> int" where
  "getDate d = snd (snd (civil (dayNum d)))"

definition pad2 :: "int \<Rightarrow> jsstring" where
  "pad2 n = padStart2 (numToString (Fin (of_int n)))"

definition toYMD :: "jsdate \<Rightarrow> jsstring" where
  "toYMD d =
     numToString (Fin (of_int (getFullYear d))) @ js ''-'' @ pad2 (getMonth d + 1) @ js ''-''
       @ pad2 (getDate d)"

subsection \<open>Week store\<close>

text \<open>
  The application state, the file system and the entropy source in one record; the
  functions of the component take it and return it updated. \<open>calls\<close> records the calls
  to the file system and every start of a week reload, oldest first. Reading a file that
  does not exist and writing a path in \<open>readOnly\<close> throw. \<open>zone\<close> is the time zone of the
  environment.
\<close>

record TaskMetaDraft =
  estMinText :: jsstring
  actMinText :: jsstring
  reasonText :: jsstring

record DayData =
  date :: jsdate
  ymd :: jsstring
  filePath :: jsstring
  tasks :: "Task list"
  missing :: bool

datatype call = Exists jsstring | Read jsstring | Write jsstring jsstring | Reload

datatype notice = Message jsstring | Thrown

record app =
  files :: "jsstring \<rightharpoonup> jsstring"
  readOnly :: "jsstring \<Rightarrow> bool"
  entropy :: entropy
  cursor :: nat
  calls :: "call list"
  anchor :: jsdate
  days :: "DayData list"
  busy :: bool
  error :: "notice option"
  newTaskByDay :: "jsstring \<rightharpoonup> jsstring"
  metaDraftByTask :: "jsstring \<rightharpoonup> TaskMetaDraft"
  todoDir :: jsstring
  isEditing :: bool
  lastHashes :: "jsstring \<rightharpoonup> jsstring"
  zone :: zone

definition fileExists :: "app \<Rightarrow> jsstring \<Rightarrow> app \<times> bool" where
  \<comment> \<open>\<^verbatim>\<open>exists(path)\<close>\<close>
  "fileExists a p = (a\<lparr>calls := calls a @ [Exists p]\<rparr>, files a p \<noteq> None)"

definition readTextFile :: "app \<Rightarrow> jsstring \<Rightarrow> app \<times> jsstring option" where
  \<comment> \<open>\<open>None\<close>: the call throws\<close>
  "readTextFile a p = (a\<lparr>calls := calls a @ [Read p]\<rparr>, files a p)"

definition writeTextFile :: "app \<Rightarrow> jsstring \<Rightarrow> jsstring \<Rightarrow> app \<times> bool" where
  \<comment> \<open>\<open>False\<close>: the call throws\<close>
  "writeTextFile a p content =
     (if readOnly a p then (a\<lparr>calls := calls a @ [Write p content]\<rparr>, False)
      else (a\<lparr>calls := calls a @ [Write p content], files := (files a)(p \<mapsto> content)\<rparr>, True))"

definition hashString :: "jsstring \<Rightarrow> jsstring" where
  \<comment> \<open>djb2 on 32-bit integers; \<^verbatim>\<open>(h >>> 0).toString(16)\<close>\<close>
  "hashString s =
     toString16 (unat (foldl (\<lambda>h c. (push_bit 5 h + h) XOR ucast c) (5381 :: 32 word) s))"

text \<open>
  The one-time migration of \<open>loadWeek\<close>: every parsed task without the canonical marker
  gets it, if its line still is a task line. \<^verbatim>\<open>lines[t.lineIndex] ?? ""\<close> is the empty
  string out of range, which is no task line, so no assignment is out of range.
\<close>

definition migrateStep :: "jsstring list \<times> bool \<Rightarrow> Task \<Rightarrow> jsstring list \<times> bool" where
  "migrateStep st t =
     (case st of (lines, changed) \<Rightarrow>
        if hasId t then (lines, changed)
        else
          let original = (if lineIndex t < length lines then lines ! lineIndex t else [])
          in if taskPrefixTest original
             then (lines[lineIndex t := ensureTaskIdOnLine original (taskId t)], True)
             else (lines, changed))"

definition migrate :: "jsstring list \<Rightarrow> Task list \<Rightarrow> jsstring list \<times> bool" where
  "migrate lines ts = foldl migrateStep (lines, False) ts"

text \<open>One day of \<open>loadWeek\<close>'s loop; \<open>None\<close> for the day when a file-system call throws.\<close>

definition loadDay :: "app \<Rightarrow> jsdate \<Rightarrow> app \<times> DayData option" where
  "loadDay a0 d =
     (let day = toYMD d;
          path = todoDir a0 @ js ''/'' @ day @ js ''.md'';
          (a1, there) = fileExists a0 path
      in if \<not> there then (a1, Some \<lparr>date = d, ymd = day, filePath = path, tasks = [], missing = True\<rparr>)
         else
           (case readTextFile a1 path of
              (a2, None) \<Rightarrow> (a2, None)
            | (a2, Some md) \<Rightarrow>
                let a3 = a2\<lparr>lastHashes := (lastHashes a2)(day \<mapsto> hashString md)\<rparr>;
                    lines = split_nl md;
                    (ts, k) = parseTasks (entropy a3) (cursor a3) md;
                    a4 = a3\<lparr>cursor := k\<rparr>;
                    (lines', changed) = migrate lines ts
                in if changed then
                     (case writeTextFile a4 path (join_nl lines') of
                        (a5, False) \<Rightarrow> (a5, None)
                      | (a5, True) \<Rightarrow>
                          let a6 = a5\<lparr>lastHashes := (lastHashes a5)(day \<mapsto> hashString (join_nl lines'))\<rparr>;
                              (ts2, k2) = parseTasks (entropy a6) (cursor a6) (join_nl lines')
                          in (a6\<lparr>cursor := k2\<rparr>,
                              Some \<lparr>date = d, ymd = day, filePath = path, tasks = ts2, missing = False\<rparr>))
                   else (a4, Some \<lparr>date = d, ymd = day, filePath = path, tasks = ts, missing = False\<rparr>)))"

fun loadDays :: "app \<Rightarrow> jsdate \<Rightarrow> nat list \<Rightarrow> app \<times> DayData list option" where
  "loadDays a weekStart [] = (a, Some [])"
| "loadDays a weekStart (i # rest) =
     (case loadDay a (addDays (zone a) weekStart (int i)) of
        (a', None) \<Rightarrow> (a', None)
      | (a', Some d) \<Rightarrow>
          (case loadDays a' weekStart rest of
             (a'', None) \<Rightarrow> (a'', None)
           | (a'', Some ds) \<Rightarrow> (a'', Some (d # ds))))"

definition draftOfTask :: "Task \<Rightarrow> TaskMetaDraft" where
  "draftOfTask t =
     \<lparr>estMinText = (case estMin t of None \<Rightarrow> [] | Some n \<Rightarrow> numToString n),
      actMinText = (case actMin t of None \<Rightarrow> [] | Some n \<Rightarrow> numToString n),
      reasonText = reason t\<rparr>"

definition draftsOf :: "DayData list \<Rightarrow> (jsstring \<rightharpoonup> TaskMetaDraft)" where
  "draftsOf list = foldl (\<lambda>m t. m(taskId t \<mapsto> draftOfTask t)) Map.empty (concat (map tasks list))"

definition loadWeek :: "app \<Rightarrow> app" where
  "loadWeek a0 =
     (let a = a0\<lparr>calls := calls a0 @ [Reload], busy := True, error := None\<rparr>
      in if todoDir a = [] then a\<lparr>days := [], metaDraftByTask := Map.empty, busy := False\<rparr>
         else
           (case loadDays a (startOfWeekMonday (zone a) (anchor a)) [0, 1, 2, 3, 4, 5, 6] of
              (a', None) \<Rightarrow> a'\<lparr>error := Some Thrown, busy := False\<rparr>
            | (a', Some list) \<Rightarrow> a'\<lparr>days := list, metaDraftByTask := draftsOf list, busy := False\<rparr>))"

text \<open>The mutations. Each locates its line afresh in the file it has just read.\<close>

fun findIndex :: "('a \<Rightarrow> bool) \<Rightarrow> 'a list \<Rightarrow> nat option" where
  "findIndex P [] = None"
| "findIndex P (x # xs) = (if P x then Some 0 else map_option Suc (findIndex P xs))"

definition notFoundText :: jsstring where
  "notFoundText = js ''Could not find this task in the file (it may have been edited in Obsidian). Reloading...''"

definition notTaskText :: jsstring where
  "notTaskText = js ''Selected line is not a task anymore. Reloading...''"

definition toggleTask :: "app \<Rightarrow> DayData \<Rightarrow> Task \<Rightarrow> app" where
  "toggleTask a0 day task =
     (let a = a0\<lparr>busy := True, error := None\<rparr>;
          done =
            (case readTextFile a (filePath day) of
               (a1, None) \<Rightarrow> a1\<lparr>error := Some Thrown\<rparr>
             | (a1, Some md) \<Rightarrow>
                 let lines = split_nl md
                 in (case findIndex (\<lambda>l. lineHasTaskId l (taskId task)) lines of
                       None \<Rightarrow> loadWeek (a1\<lparr>error := Some (Message notFoundText)\<rparr>)
                     | Some idx \<Rightarrow>
                         (case toggleMatch (lines ! idx) of
                            None \<Rightarrow> loadWeek (a1\<lparr>error := Some (Message notTaskText)\<rparr>)
                          | Some (m1, m2, m3) \<Rightarrow>
                              let nextMark = (if isChecked m2 then 0x20 else 0x78)
                              in (case writeTextFile a1 (filePath day)
                                         (join_nl (lines[idx := m1 @ [nextMark] @ m3])) of
                                    (a2, False) \<Rightarrow> a2\<lparr>error := Some Thrown\<rparr>
                                  | (a2, True) \<Rightarrow> loadWeek a2))))
      in done\<lparr>busy := False\<rparr>)"

definition getDraft :: "app \<Rightarrow> jsstring \<Rightarrow> jsstring" where
  "getDraft a day = (case newTaskByDay a day of None \<Rightarrow> [] | Some v \<Rightarrow> v)"

definition getTaskMetaDraft :: "app \<Rightarrow> Task \<Rightarrow> TaskMetaDraft" where
  "getTaskMetaDraft a task =
     (case metaDraftByTask a (taskId task) of None \<Rightarrow> draftOfTask task | Some d \<Rightarrow> d)"

definition parseDraftMinutes :: "jsstring \<Rightarrow> jsnumber option" where
  \<comment> \<open>\<open>None\<close> is \<^verbatim>\<open>null\<close>\<close>
  "parseDraftMinutes raw =
     (let v = trim raw
      in if v = [] then None
         else if \<not> list_all isDigit v then Some NaN
         else Some (Number v))"

text \<open>
  \<^verbatim>\<open>toLowerCase\<close> on the letters A to Z. No other code unit lower-cases into a letter of
  \<^verbatim>\<open>## todo\<close>, so the comparison with that text is the source's.
\<close>

definition toLowerCase :: "jsstring \<Rightarrow> jsstring" where
  "toLowerCase s = map (\<lambda>c. if 0x41 \<le> c \<and> c \<le> 0x5A then c + 0x20 else c) s"

definition insertPosition :: "jsstring list \<Rightarrow> nat" where
  \<comment> \<open>right after the first \<^verbatim>\<open>## Todo\<close> header and the blank lines after it; otherwise the end\<close>
  "insertPosition lines =
     (case findIndex (\<lambda>l. toLowerCase (trim l) = js ''## todo'') lines of
        None \<Rightarrow> length lines
      | Some i \<Rightarrow> Suc i + length (takeWhile (\<lambda>l. trim l = []) (drop (Suc i) lines)))"

definition addTask :: "app \<Rightarrow> DayData \<Rightarrow> app" where
  "addTask a0 day =
     (let txt = trim (getDraft a0 (ymd day))
      in if txt = [] then a0
         else
           let a = a0\<lparr>busy := True, error := None\<rparr>;
               (a1, there) = fileExists a (filePath day);
               (a2, ok) = (if \<not> there then writeTextFile a1 (filePath day) (js ''## Todo\<newline>\<newline>'')
                           else (a1, True));
               done =
                 (if \<not> ok then a2\<lparr>error := Some Thrown\<rparr>
                  else
                    (case readTextFile a2 (filePath day) of
                       (a3, None) \<Rightarrow> a3\<lparr>error := Some Thrown\<rparr>
                     | (a3, Some md) \<Rightarrow>
                         let lines = split_nl md;
                             insertAt = insertPosition lines;
                             (ident, k) = genTaskId (entropy a3) (cursor a3);
                             a4 = a3\<lparr>cursor := k\<rparr>;
                             taskLine = js ''- [ ] '' @ txt @ js '' '' @ taskIdToken ident
                         in (case writeTextFile a4 (filePath day)
                                    (join_nl (take insertAt lines @ [taskLine] @ drop insertAt lines)) of
                               (a5, False) \<Rightarrow> a5\<lparr>error := Some Thrown\<rparr>
                             | (a5, True) \<Rightarrow>
                                 loadWeek (a5\<lparr>newTaskByDay := (newTaskByDay a5)(ymd day \<mapsto> [])\<rparr>))))
           in done\<lparr>busy := False\<rparr>)"

definition estInvalidText :: jsstring where
  "estInvalidText = js ''est must be a non-negative integer.''"

definition actInvalidText :: jsstring where
  "actInvalidText = js ''act must be a non-negative integer.''"

definition reasonRequiredText :: jsstring where
  "reasonRequiredText = js ''reason is required when act is greater than est.''"

definition overrunWithoutReason :: "jsnumber option \<Rightarrow> jsnumber option \<Rightarrow> jsstring \<Rightarrow> bool" where
  \<comment> \<open>\<^verbatim>\<open>estMin !== null && actMin !== null && actMin > estMin && reason === ""\<close>\<close>
  "overrunWithoutReason est act rsn =
     (case (est, act) of (Some e, Some c) \<Rightarrow> numGreater c e \<and> rsn = [] | _ \<Rightarrow> False)"

definition saveTaskMeta :: "app \<Rightarrow> DayData \<Rightarrow> Task \<Rightarrow> app" where
  "saveTaskMeta a0 day task =
     (let draft = getTaskMetaDraft a0 task;
          est = parseDraftMinutes (estMinText draft);
          act = parseDraftMinutes (actMinText draft);
          rsn = trim (reasonText draft)
      in if est = Some NaN then a0\<lparr>error := Some (Message estInvalidText)\<rparr>
         else if act = Some NaN then a0\<lparr>error := Some (Message actInvalidText)\<rparr>
         else if overrunWithoutReason est act rsn then a0\<lparr>error := Some (Message reasonRequiredText)\<rparr>
         else
           let a = a0\<lparr>busy := True, error := None\<rparr>;
               done =
                 (case readTextFile a (filePath day) of
                    (a1, None) \<Rightarrow> a1\<lparr>error := Some Thrown\<rparr>
                  | (a1, Some md) \<Rightarrow>
                      let lines = split_nl md
                      in (case findIndex (\<lambda>l. lineHasTaskId l (taskId task)) lines of
                            None \<Rightarrow> loadWeek (a1\<lparr>error := Some (Message notFoundText)\<rparr>)
                          | Some idx \<Rightarrow>
                              (case taskMatch (lines ! idx) of
                                 None \<Rightarrow> loadWeek (a1\<lparr>error := Some (Message notTaskText)\<rparr>)
                               | Some (m1, m2) \<Rightarrow>
                                   let parsed = parseMeta (trim m2);
                                       line' = buildTaskLine (isChecked m1) (cleanedText parsed)
                                                 \<lparr>estMin = est, actMin = act, reason = rsn\<rparr> (taskId task)
                                   in (case writeTextFile a1 (filePath day) (join_nl (lines[idx := line'])) of
                                         (a2, False) \<Rightarrow> a2\<lparr>error := Some Thrown\<rparr>
                                       | (a2, True) \<Rightarrow> loadWeek a2))))
           in done\<lparr>busy := False\<rparr>)"

definition deleteTask :: "app \<Rightarrow> DayData \<Rightarrow> Task \<Rightarrow> app" where
  "deleteTask a0 day task =
     (let a = a0\<lparr>busy := True, error := None\<rparr>;
          done =
            (case readTextFile a (filePath day) of
               (a1, None) \<Rightarrow> a1\<lparr>error := Some Thrown\<rparr>
             | (a1, Some md) \<Rightarrow>
                 let lines = split_nl md
                 in (case findIndex (\<lambda>l. lineHasTaskId l (taskId task)) lines of
                       None \<Rightarrow> loadWeek (a1\<lparr>error := Some (Message notFoundText)\<rparr>)
                     | Some idx \<Rightarrow>
                         (case writeTextFile a1 (filePath day)
                                (join_nl (take idx lines @ drop (Suc idx) lines)) of
                            (a2, False) \<Rightarrow> a2\<lparr>error := Some Thrown\<rparr>
                          | (a2, True) \<Rightarrow>
                              loadWeek (a2\<lparr>metaDraftByTask := (metaDraftByTask a2)(taskId task := None)\<rparr>))))
      in done\<lparr>busy := False\<rparr>)"

subsection \<open>Change watcher\<close>



subsection \<open>Notions used to state the properties\<close>


definition differs :: "app \<Rightarrow> DayData \<Rightarrow> bool" where
  "differs a d =
     (\<not> missing d \<and>
      (case (files a (filePath d), lastHashes a (ymd d)) of
         (Some md, Some prev) \<Rightarrow> prev \<noteq> [] \<and> hashString md \<noteq> prev
       | _ \<Rightarrow> False))"

definition quiet :: "app \<Rightarrow> DayData \<Rightarrow> bool" where
  "quiet a d = (missing d \<or> (files a (filePath d) \<noteq> None \<and> \<not> differs a d))"

definition quietCalls :: "call list \<Rightarrow> call list \<Rightarrow> bool" where
  \<comment> \<open>the log grew, and by no reload\<close>
  "quietCalls old new = (\<exists>cs. new = old @ cs \<and> Reload \<notin> set cs)"

text \<open>
  For the codec: a literal that occurs somewhere in a text; an identifier token of either
  form (the white space after it included) that occurs somewhere in a text; and a display
  text that holds one of the reserved tokens. The reason marker counts with and without
  its variation selector, as in \<open>reasonAt\<close>.
\<close>

definition occursIn :: "jsstring \<Rightarrow> jsstring \<Rightarrow> bool" where
  "occursIn p text = anySuffix (\<lambda>s. lit p s \<noteq> None) text"

definition containsIdToken :: "jsstring \<Rightarrow> bool" where
  "containsIdToken text =
     anySuffix
       (\<lambda>s. list_ex (\<lambda>n. htmlTokenAt (take n s) \<noteq> None \<or> legacyTokenAt (take n s) \<noteq> None)
              [0..<Suc (length s)])
       text"

definition hasReservedToken :: "jsstring \<Rightarrow> bool" where
  "hasReservedToken text =
     (occursIn estMarker text \<or> occursIn actMarker text \<or> occursIn reasonMarker text
      \<or> occursIn (0x270D # js ''reason:'') text \<or> containsIdToken text)"

text \<open>
  For the migration: a task line whose text does not end in the canonical token, and the
  lines of a file after each such line got the token with the id \<open>parseTasks\<close> gives its
  task (the one of a legacy token, or a generated one).
\<close>

definition needsId :: "jsstring \<Rightarrow> bool" where
  "needsId line =
     (case taskMatch line of
        None \<Rightarrow> False
      | Some (m, m2) \<Rightarrow> \<not> hasCanonicalTaskId (trim m2))"

fun migrateLines :: "entropy \<Rightarrow> nat \<Rightarrow> jsstring list \<Rightarrow> jsstring list" where
  "migrateLines ent k [] = []"
| "migrateLines ent k (line # lines) =
     (case taskMatch line of
        None \<Rightarrow> line # migrateLines ent k lines
      | Some (m, m2) \<Rightarrow>
          (case extractTaskId (trim m2) of
             Some ident \<Rightarrow>
               (if hasCanonicalTaskId (trim m2) then line else ensureTaskIdOnLine line ident)
               # migrateLines ent k lines
           | None \<Rightarrow>
               ensureTaskIdOnLine line (fst (genTaskId ent k))
               # migrateLines ent (snd (genTaskId ent k)) lines))"

section \<open>Properties\<close>

subsection \<open>Strings\<close>

lemma unat_of_char: "unat (of_char c :: 16 word) = of_char c"
proof -
  have a: "(of_char c :: nat) < 256" by (cases c) simp
  have b: "(256 :: nat) \<le> 2 ^ LENGTH(16)" by simp
  from a b have "(of_char c :: nat) < 2 ^ LENGTH(16)" by (rule less_le_trans)
  then have "unat (of_nat (of_char c) :: 16 word) = of_char c"
    by (rule of_nat_inverse [OF refl])
  then show ?thesis by (simp only: of_nat_of_char)
qed
lemma js_eq_iff: "js s = js t \<longleftrightarrow> s = t"
proof
  assume "js s = js t"
  then have "map unat (js s) = map unat (js t)" by simp
  then have "map (of_char :: char \<Rightarrow> nat) s = map of_char t"
    by (simp add: js_def unat_of_char comp_def)
  then show "s = t" by (simp add: inj_map_eq_map [OF inj_of_char])
qed simp

lemma js_Nil_iff: "js s = [] \<longleftrightarrow> s = []"
  by (simp add: js_def)

subsection \<open>Lines\<close>

lemma split_nl_nonempty: "split_nl s \<noteq> []"
  by (induction s) (auto split: list.splits)

lemma join_split_nl: "join_nl (split_nl s) = s"
proof (induction s)
  case Nil
  then show ?case by (simp add: join_nl_def)
next
  case (Cons c s)
  obtain l ls where sp: "split_nl s = l # ls"
    using split_nl_nonempty [of s] by (cases "split_nl s") auto
  with Cons show ?case by (cases ls) (auto simp: join_nl_def)
qed

lemma split_nl_no_newline: "l \<in> set (split_nl s) \<Longrightarrow> 0x0A \<notin> set l"
proof (induction s arbitrary: l)
  case Nil
  then show ?case by simp
next
  case (Cons c s)
  obtain k ks where sp: "split_nl s = k # ks"
    using split_nl_nonempty [of s] by (cases "split_nl s") auto
  with Cons show ?case by (auto split: if_splits)
qed

lemma split_nl_append_line:
  "0x0A \<notin> set l \<Longrightarrow> split_nl (l @ 0x0A # s) = l # split_nl s"
  by (induction l) auto

lemma split_nl_single: "0x0A \<notin> set l \<Longrightarrow> split_nl l = [l]"
  by (induction l) auto

lemma split_join_nl:
  "ls \<noteq> [] \<Longrightarrow> \<forall>l \<in> set ls. 0x0A \<notin> set l \<Longrightarrow> split_nl (join_nl ls) = ls"
proof (induction ls rule: join.induct [of _ "[0x0A]"])
  case (1 sep)
  then show ?case by simp
next
  case (2 sep p)
  then show ?case by (simp add: join_nl_def split_nl_single)
next
  case (3 sep p q ps)
  then show ?case by (simp add: join_nl_def split_nl_append_line)
qed


subsection \<open>Checkbox pattern and line search\<close>

lemma checkboxAt_decomp:
  assumes "checkboxAt line = Some (pre, m, post)"
  shows "line = pre @ [m] @ post" and "m = 0x20 \<or> m = 0x78 \<or> m = 0x58"
    and "post \<noteq> []" and "hd post = 0x5D"
proof -
  obtain d r1 where r1: "dropWhile isSpace line = d # r1"
    using assms by (cases "dropWhile isSpace line") (auto simp: checkboxAt_def)
  with assms obtain b e r2 where r2: "dropWhile isSpace r1 = b # m # e # r2"
      and c: "d = 0x2D" "b = 0x5B" "m = 0x20 \<or> m = 0x78 \<or> m = 0x58" "e = 0x5D"
      and pre: "pre = takeWhile isSpace line @ [d] @ takeWhile isSpace r1 @ [b]"
      and post: "post = e # r2"
    by (auto simp: checkboxAt_def split: list.splits if_splits)
  have "line = takeWhile isSpace line @ dropWhile isSpace line" by simp
  also have "\<dots> = takeWhile isSpace line @ d # (takeWhile isSpace r1 @ dropWhile isSpace r1)"
    by (simp only: r1 takeWhile_dropWhile_id)
  finally show "line = pre @ [m] @ post" by (simp add: r2 pre post)
  show "m = 0x20 \<or> m = 0x78 \<or> m = 0x58" by (rule c(3))
  show "post \<noteq> []" "hd post = 0x5D" by (simp_all add: post c)
qed

lemma toggleMatch_decomp:
  assumes "toggleMatch line = Some (m1, m2, m3)"
  shows "line = m1 @ [m2] @ m3" and "m2 = 0x20 \<or> m2 = 0x78 \<or> m2 = 0x58"
proof -
  from assms have "checkboxAt line = Some (m1, m2, m3)"
    by (auto simp: toggleMatch_def split: option.splits)
  then show "line = m1 @ [m2] @ m3" and "m2 = 0x20 \<or> m2 = 0x78 \<or> m2 = 0x58"
    by (rule checkboxAt_decomp)+
qed

lemma findIndex_Some:
  "findIndex P xs = Some i \<Longrightarrow> i < length xs \<and> P (xs ! i) \<and> (\<forall>j < i. \<not> P (xs ! j))"
proof (induction xs arbitrary: i)
  case Nil
  then show ?case by simp
next
  case (Cons x xs)
  show ?case
  proof (cases "P x")
    case True
    with Cons.prems show ?thesis by simp
  next
    case False
    with Cons.prems obtain k where k: "findIndex P xs = Some k" "i = Suc k" by auto
    from Cons.IH [OF k(1)] False k(2) show ?thesis
      by (auto simp: less_Suc_eq_0_disj)
  qed
qed

lemma findIndex_None: "findIndex P xs = None \<longleftrightarrow> (\<forall>x \<in> set xs. \<not> P x)"
  by (induction xs) auto

subsection \<open>Generated identifiers\<close>

lemma hexDigitChar_hex: "n < 16 \<Longrightarrow> isHexDigit (hexDigitChar n)"
proof -
  assume n: "n < 16"
  have "list_all (\<lambda>k. isHexDigit (hexDigitChar k)) [0..<16]" by code_simp
  with n show ?thesis by (simp add: list_all_iff)
qed

lemma byte_hex:
  assumes "n < 256"
  shows "length (padStart2 (toString16 n)) = 2 \<and> list_all isHexDigit (padStart2 (toString16 n))"
proof (cases "n < 16")
  case True
  then show ?thesis
    by (simp add: toString16.simps [of n] padStart2_def hexDigitChar_hex) (simp add: isHexDigit_def)
next
  case False
  with assms have d: "n div 16 < 16" "n mod 16 < 16" by auto
  then have "toString16 n = [hexDigitChar (n div 16), hexDigitChar (n mod 16)]"
    using False by (simp add: toString16.simps [of n] toString16.simps [of "n div 16"])
  then show ?thesis using d by (simp add: padStart2_def hexDigitChar_hex)
qed

lemma genTaskId_hex:
  "length (fst (genTaskId ent k)) = 8 \<and> list_all isHexDigit (fst (genTaskId ent k))"
proof -
  have b: "\<And>w :: 8 word. unat w < 256"
  proof -
    fix w :: "8 word"
    have "unat w < 2 ^ LENGTH(8)" by (rule unsigned_less)
    then show "unat w < 256" by simp
  qed
  show ?thesis
    using byte_hex [OF b [of "ent k"]] byte_hex [OF b [of "ent (k + 1)"]]
      byte_hex [OF b [of "ent (k + 2)"]] byte_hex [OF b [of "ent (k + 3)"]]
    by (simp add: genTaskId_def)
qed

subsection \<open>Numbers\<close>

lemma roundHalfEven_of_int: "roundHalfEven (of_int z) = z"
  by (simp add: roundHalfEven_def)

lemma ilog2_nat_le:
  assumes "0 < n" and "n < 2 ^ 53"
  shows "ilog 2 (of_nat n) \<le> 52"
proof -
  have q: "quotient_of (of_nat n) = (int n, 1)" by simp
  have f: "floorlog 2 n \<le> 53" using assms(2) by (simp add: floorlog_le_iff)
  have f1: "floorlog 2 (Suc 0) = 1" by (simp add: compute_floorlog)
  show ?thesis
    using f by (simp add: ilog_def q f1 Let_def)
qed

lemma ilog2_nat_ge:
  assumes "0 < n"
  shows "- 1 \<le> ilog 2 (of_nat n)"
proof -
  have q: "quotient_of (of_nat n) = (int n, 1)" by simp
  have f: "1 \<le> floorlog 2 n" using assms by (simp add: floorlog_def)
  have f1: "floorlog 2 (Suc 0) = 1" by (simp add: compute_floorlog)
  show ?thesis
    using f by (simp add: ilog_def q f1 Let_def)
qed

lemma toBinary64_exact:
  assumes "n < 2 ^ 53"
  shows "toBinary64 (of_nat n) = Fin (of_nat n)"
proof (cases "n = 0")
  case True
  then show ?thesis by (simp add: toBinary64_def)
next
  case False
  then have pos: "0 < n" by simp
  define p where "p = max (ilog 2 (of_nat n) - 52) (- 1074)"
  have "p \<le> 0" using ilog2_nat_le [OF pos assms] by (simp add: p_def)
  then obtain m where m: "p = - int m" by (metis add.inverse_inverse nat_0_le neg_0_le_iff_le)
  have pw: "(2::rat) powi p = inverse (2 ^ m)" by (simp add: m power_int_minus)
  have "(of_nat n :: rat) / (2 powi p) = of_int (int n * 2 ^ m)"
    by (simp add: pw divide_inverse)
  then have r: "roundHalfEven (of_nat n / (2 powi p)) = int n * 2 ^ m"
    by (simp only: roundHalfEven_of_int)
  have v: "of_int (int n * 2 ^ m) * ((2::rat) powi p) = of_nat n"
    by (simp add: pw)
  have "(of_nat n :: rat) < 2 ^ 53" using assms by (metis of_nat_less_iff of_nat_numeral of_nat_power)
  also have "\<dots> \<le> 2 ^ 1024" by simp
  finally have lt: "\<not> (2 ^ 1024 \<le> (of_nat n :: rat))" by simp
  show ?thesis
    using False lt unfolding toBinary64_def Let_def p_def [symmetric] r v by simp
qed


lemma isDigit_not_space: "isDigit c \<Longrightarrow> \<not> isSpace c"
  by (auto simp: isDigit_def isSpace_def isWhiteSpace_def isLineTerminator_def word_le_nat_alt)

lemma trim_Nil: "trim [] = []"
  by (simp add: trim_def trimStart_def trimEnd_def)

lemma trim_id:
  assumes "s \<noteq> []" and "\<not> isSpace (hd s)" and "\<not> isSpace (last s)"
  shows "trim s = s"
proof -
  from assms(1,2) have a: "dropWhile isSpace s = s" by (cases s) auto
  from assms(1,3) have "dropWhile isSpace (rev s) = rev s"
    by (cases s rule: rev_cases) auto
  with a show ?thesis by (simp add: trim_def trimStart_def trimEnd_def)
qed

lemma digitChar_cases:
  assumes "k < 10"
  shows "isDigit (0x30 + of_nat k) \<and> digitVal (0x30 + of_nat k) = k"
proof -
  have "list_all (\<lambda>k. isDigit (0x30 + of_nat k) \<and> digitVal (0x30 + of_nat k) = k) [0..<10]"
    by code_simp
  with assms show ?thesis by (simp add: list_all_iff)
qed

lemma decimal_digits: "decimal n \<noteq> [] \<and> list_all isDigit (decimal n)"
proof (induction n rule: decimal.induct)
  case (1 n)
  show ?case
  proof (cases "n < 10")
    case True
    then show ?thesis by (simp add: decimal.simps [of n] digitChar_cases)
  next
    case False
    then have "n mod 10 < 10" by simp
    with 1 False show ?thesis by (simp add: decimal.simps [of n] digitChar_cases)
  qed
qed

lemma digitsVal_snoc: "digitsVal b (ds @ [d]) = digitsVal b ds * b + digitVal d"
  by (simp add: digitsVal_def)

lemma digitsVal_decimal: "digitsVal 10 (decimal n) = n"
proof (induction n rule: decimal.induct)
  case (1 n)
  show ?case
  proof (cases "n < 10")
    case True
    then show ?thesis by (simp add: decimal.simps [of n] digitsVal_def digitChar_cases)
  next
    case False
    then have "n mod 10 < 10" by simp
    with 1 False show ?thesis
      by (simp add: decimal.simps [of n] digitsVal_snoc digitChar_cases)
  qed
qed

lemma Number_digits:
  assumes "ds \<noteq> []" and "list_all isDigit ds"
  shows "Number ds = toBinary64 (of_nat (digitsVal 10 ds))"
proof -
  obtain c cs where ds: "ds = c # cs" using assms(1) by (cases ds) auto
  have dc: "isDigit c" using assms(2) ds by simp
  have "isDigit (last ds)" using assms by (simp add: list_all_iff)
  then have tr: "trim ds = ds"
    using assms(1) dc ds by (intro trim_id) (simp_all add: isDigit_not_space)
  have nd: "nonDecimalIntegerLiteral ds = None"
  proof (cases cs)
    case Nil
    then show ?thesis by (simp add: nonDecimalIntegerLiteral_def ds)
  next
    case (Cons x rest)
    with assms(2) ds have "isDigit x" by simp
    then have "x \<noteq> 0x78 \<and> x \<noteq> 0x58 \<and> x \<noteq> 0x6F \<and> x \<noteq> 0x4F \<and> x \<noteq> 0x62 \<and> x \<noteq> 0x42"
      by (auto simp: isDigit_def)
    then show ?thesis by (simp add: nonDecimalIntegerLiteral_def ds Cons)
  qed
  have sg: "c \<noteq> 0x2B" "c \<noteq> 0x2D" using dc by (auto simp: isDigit_def)
  have "c \<noteq> 0x49" using dc by (auto simp: isDigit_def)
  then have ni: "ds \<noteq> js ''Infinity''" by (auto simp: ds js_def)
  have tw: "takeWhile isDigit ds = ds" "dropWhile isDigit ds = []"
    using assms(2) by (simp_all add: list_all_iff)
  have "strUnsignedDecimalLiteral ds = toBinary64 (of_nat (digitsVal 10 ds))"
    using ni assms(1) by (simp add: strUnsignedDecimalLiteral_def tw exponentPart_def)
  then show ?thesis
    using sg nd by (simp add: Number_def tr) (simp add: ds)
qed

lemma Number_decimal:
  assumes "n < 2 ^ 53"
  shows "Number (decimal n) = Fin (of_nat n)"
  using decimal_digits [of n] assms
  by (simp add: Number_digits digitsVal_decimal toBinary64_exact)

lemma numToString_nat:
  assumes "n < 2 ^ 53"
  shows "numToString (Fin (of_nat n)) = decimal n"
proof (cases "n = 0")
  case True
  then show ?thesis by (simp add: numToString_def decimal.simps [of 0] js_def)
next
  case False
  have "(of_nat n :: rat) < 2 ^ 53" using assms by (metis of_nat_less_iff of_nat_numeral of_nat_power)
  then show ?thesis using False by (simp add: numToString_def posToString_def)
qed

lemma isInteger_nat: "isInteger (Fin (of_nat n))" and geZero_nat: "geZero (Fin (of_nat n))"
  by (simp_all add: isInteger_def geZero_def)

subsection \<open>Searching\<close>

lemma lit_SomeD: "lit p s = Some r \<Longrightarrow> s = p @ r"
proof -
  assume "lit p s = Some r"
  then have "take (length p) s = p" "r = drop (length p) s"
    by (auto simp: lit_def split: if_splits)
  then show ?thesis using append_take_drop_id [of "length p" s] by simp
qed

lemma lit_append: "lit p (p @ r) = Some r"
  by (simp add: lit_def)

lemma lit_hd: "p \<noteq> [] \<Longrightarrow> s = [] \<or> hd s \<noteq> hd p \<Longrightarrow> lit p s = None"
  by (cases p; cases s) (auto simp: lit_def)

lemma searchRe_SomeD:
  "searchRe m s = Some (i, r) \<Longrightarrow> i \<le> length s \<and> m (drop i s) = Some r \<and> (\<forall>j<i. m (drop j s) = None)"
proof (induction s arbitrary: i)
  case Nil
  then show ?case by (auto split: option.splits)
next
  case (Cons c cs)
  show ?case
  proof (cases "m (c # cs)")
    case (Some a)
    with Cons.prems show ?thesis by simp
  next
    case None
    with Cons.prems obtain i' where i': "searchRe m cs = Some (i', r)" "i = Suc i'"
      by (auto split: option.splits)
    from Cons.IH [OF i'(1)] have ih: "i' \<le> length cs" "m (drop i' cs) = Some r"
      "\<forall>j<i'. m (drop j cs) = None" by auto
    have "m (drop j (c # cs)) = None" if "j < i" for j
      using that None ih(3) i'(2) by (cases j) auto
    with ih i'(2) show ?thesis by simp
  qed
qed

lemma searchRe_NoneD: "searchRe m s = None \<Longrightarrow> j \<le> length s \<Longrightarrow> m (drop j s) = None"
proof (induction s arbitrary: j)
  case Nil
  then show ?case by (auto split: option.splits)
next
  case (Cons c cs)
  then show ?case by (cases j) (auto split: option.splits)
qed

lemma searchRe_found:
  assumes "m (drop j s) = Some r" and "j \<le> length s"
  shows "searchRe m s \<noteq> None"
  using assms searchRe_NoneD [of m s j] by (cases "searchRe m s") auto

lemma searchRe_NoneI:
  assumes "\<And>j. j \<le> length s \<Longrightarrow> m (drop j s) = None"
  shows "searchRe m s = None"
proof (cases "searchRe m s")
  case None
  then show ?thesis .
next
  case (Some a)
  obtain i r where "a = (i, r)" by (cases a)
  with Some searchRe_SomeD [of m s i r] assms [of i] show ?thesis by simp
qed

lemma searchRe_at:
  assumes "m (drop i s) = Some r" and "i \<le> length s" and "\<And>j. j < i \<Longrightarrow> m (drop j s) = None"
  shows "searchRe m s = Some (i, r)"
proof (cases "searchRe m s")
  case None
  with assms(1,2) searchRe_NoneD [of m s i] show ?thesis by simp
next
  case (Some a)
  obtain i' r' where a: "a = (i', r')" by (cases a)
  from Some a searchRe_SomeD [of m s i' r']
  have d: "m (drop i' s) = Some r'" "\<forall>j<i'. m (drop j s) = None" by auto
  have "i' = i"
  proof (rule ccontr)
    assume "i' \<noteq> i"
    then consider "i' < i" | "i < i'" by linarith
    then show False using d assms(1,3) by cases auto
  qed
  with d assms(1) Some a show ?thesis by simp
qed

lemma cutMatch_keep:
  assumes "\<And>j. j < length p \<Longrightarrow> m (drop j (p @ s)) = None"
  shows "\<exists>x y. s = x @ y \<and> cutMatch m (p @ s) = p @ x"
proof (cases "searchRe m (p @ s)")
  case None
  then have "cutMatch m (p @ s) = p @ s" by (simp add: cutMatch_def)
  then show ?thesis by auto
next
  case (Some a)
  obtain i r where a: "a = (i, r)" by (cases a)
  from Some a searchRe_SomeD [of m "p @ s" i r] have d: "m (drop i (p @ s)) = Some r" by simp
  have "length p \<le> i"
  proof (rule ccontr)
    assume "\<not> length p \<le> i"
    then have "i < length p" by simp
    from assms [OF this] d show False by simp
  qed
  then have "cutMatch m (p @ s) = p @ take (i - length p) s"
    using Some a by (simp add: cutMatch_def)
  moreover have "s = take (i - length p) s @ drop (i - length p) s" by simp
  ultimately show ?thesis by blast
qed

lemma set_cutMatch: "set (cutMatch m s) \<subseteq> set s"
  by (auto simp: cutMatch_def split: option.splits dest: in_set_takeD)

subsection \<open>White space\<close>

lemma trimEnd_id: "s = [] \<or> \<not> isSpace (last s) \<Longrightarrow> trimEnd s = s"
  by (cases s rule: rev_cases) (auto simp: trimEnd_def)

lemma trimEnd_append:
  assumes "p \<noteq> []" and "\<not> isSpace (last p)"
  shows "trimEnd (p @ x) = p @ trimEnd x"
proof (cases "\<forall>c\<in>set x. isSpace c")
  case True
  then have "dropWhile isSpace (rev x @ rev p) = dropWhile isSpace (rev p)"
    by (intro dropWhile_append2) simp
  moreover have "dropWhile isSpace (rev p) = rev p"
    using assms by (cases p rule: rev_cases) auto
  moreover have "dropWhile isSpace (rev x) = []" using True by simp
  ultimately show ?thesis by (simp add: trimEnd_def)
next
  case False
  then obtain c where "c \<in> set (rev x)" "\<not> isSpace c" by auto
  then have "dropWhile isSpace (rev x @ rev p) = dropWhile isSpace (rev x) @ rev p"
    by (rule dropWhile_append1)
  then show ?thesis by (simp add: trimEnd_def)
qed

lemma trimEnd_split: "\<exists>w. x = trimEnd x @ w \<and> (\<forall>c\<in>set w. isSpace c)"
proof -
  have "rev (takeWhile isSpace (rev x) @ dropWhile isSpace (rev x)) = x"
    by (simp only: takeWhile_dropWhile_id rev_rev_ident)
  then have "rev (dropWhile isSpace (rev x)) @ rev (takeWhile isSpace (rev x)) = x"
    by (simp only: rev_append)
  then have "x = trimEnd x @ rev (takeWhile isSpace (rev x))"
    by (simp add: trimEnd_def)
  moreover have "\<forall>c\<in>set (rev (takeWhile isSpace (rev x))). isSpace c"
    by (auto dest: set_takeWhileD)
  ultimately show ?thesis by blast
qed

lemma trimEnd_last: "trimEnd x = [] \<or> \<not> isSpace (last (trimEnd x))"
proof (cases "dropWhile isSpace (rev x)")
  case Nil
  then show ?thesis by (simp add: trimEnd_def)
next
  case (Cons c cs)
  then have "\<not> isSpace (hd (dropWhile isSpace (rev x)))"
    using hd_dropWhile [of isSpace "rev x"] by simp
  with Cons show ?thesis by (simp add: trimEnd_def)
qed

lemma set_trimEnd: "set (trimEnd s) \<subseteq> set s"
  by (auto simp: trimEnd_def dest: set_dropWhileD)

lemma set_trim: "set (trim s) \<subseteq> set s"
  by (auto simp: trim_def trimStart_def trimEnd_def dest!: set_dropWhileD)

lemma space_facts:
  "isSpace 0x20" "\<not> isSpace 0x2D" "\<not> isSpace 0x5B" "\<not> isSpace 0x5D" "\<not> isSpace 0x3C"
  "\<not> isSpace 0x3E" "\<not> isSpace 0x78" "\<not> isSpace 0x58" "\<not> isSpace 0x7B" "\<not> isSpace 0x7D"
  by (simp_all add: isSpace_def isWhiteSpace_def isLineTerminator_def)

lemma isHexDigit_not_space: "isHexDigit c \<Longrightarrow> \<not> isSpace c"
  by (auto simp: isHexDigit_def isSpace_def isWhiteSpace_def isLineTerminator_def word_le_nat_alt)

lemma isHexDigit_not_terminator: "isHexDigit c \<Longrightarrow> \<not> isLineTerminator c"
  by (auto simp: isHexDigit_def isLineTerminator_def word_le_nat_alt)


subsection \<open>Identifier tokens\<close>

lemma hexId_SomeD:
  assumes "hexId s = Some (h, r)"
  shows "6 \<le> length h" and "length h \<le> 32" and "list_all isHexDigit h" and "s = h @ r"
    and "r = [] \<or> \<not> isHexDigit (hd r)"
proof -
  from assms have h: "h = takeWhile isHexDigit s" "r = dropWhile isHexDigit s"
    "6 \<le> length h" "length h \<le> 32"
    by (auto simp: hexId_def Let_def split: if_splits)
  show "6 \<le> length h" "length h \<le> 32" by (rule h)+
  show "list_all isHexDigit h" using h(1) by (auto simp: list_all_iff dest: set_takeWhileD)
  show "s = h @ r" using h(1,2) by simp
  show "r = [] \<or> \<not> isHexDigit (hd r)" using h(2) hd_dropWhile [of isHexDigit s] by auto
qed

lemma hexId_append:
  assumes "6 \<le> length h" and "length h \<le> 32" and "list_all isHexDigit h"
    and "r = [] \<or> \<not> isHexDigit (hd r)"
  shows "hexId (h @ r) = Some (h, r)"
proof -
  have a: "\<And>x. x \<in> set h \<Longrightarrow> isHexDigit x" using assms(3) by (simp add: list_all_iff)
  have "takeWhile isHexDigit (h @ r) = h @ takeWhile isHexDigit r"
    using a by (rule takeWhile_append2)
  moreover have "takeWhile isHexDigit r = []" using assms(4) by (cases r) auto
  moreover have "dropWhile isHexDigit (h @ r) = dropWhile isHexDigit r"
    using a by (rule dropWhile_append2)
  moreover have "dropWhile isHexDigit r = r" using assms(4) by (cases r) auto
  ultimately show ?thesis using assms(1,2) by (simp add: hexId_def)
qed

lemma htmlTokenAt_hd: "htmlTokenAt s = Some h \<Longrightarrow> s \<noteq> [] \<and> hd s = 0x3C"
  by (auto simp: htmlTokenAt_def js_def split: option.splits dest!: lit_SomeD)

lemma legacyTokenAt_hd: "legacyTokenAt s = Some h \<Longrightarrow> s \<noteq> [] \<and> hd s = 0x7B"
  by (auto simp: legacyTokenAt_def js_def split: option.splits dest!: lit_SomeD)

lemma htmlTokenAt_id:
  "htmlTokenAt s = Some h \<Longrightarrow> 6 \<le> length h \<and> length h \<le> 32 \<and> list_all isHexDigit h"
  by (auto simp: htmlTokenAt_def split: option.splits if_splits dest: hexId_SomeD)

lemma legacyTokenAt_id:
  "legacyTokenAt s = Some h \<Longrightarrow> 6 \<le> length h \<and> length h \<le> 32 \<and> list_all isHexDigit h"
  by (auto simp: legacyTokenAt_def split: option.splits if_splits dest: hexId_SomeD)

lemma extractTaskId_id:
  assumes "extractTaskId r = Some x"
  shows "6 \<le> length x \<and> length x \<le> 32 \<and> list_all isHexDigit x"
proof (cases "searchRe htmlTokenAt r")
  case None
  with assms obtain i where "searchRe legacyTokenAt r = Some (i, x)"
    by (auto simp: extractTaskId_def split: option.splits)
  then have "legacyTokenAt (drop i r) = Some x" by (simp add: searchRe_SomeD)
  then show ?thesis by (rule legacyTokenAt_id)
next
  case (Some a)
  obtain i h where "a = (i, h)" by (cases a)
  with assms Some have "searchRe htmlTokenAt r = Some (i, x)"
    by (simp add: extractTaskId_def)
  then have "htmlTokenAt (drop i r) = Some x" by (simp add: searchRe_SomeD)
  then show ?thesis by (rule htmlTokenAt_id)
qed

lemma extractTaskId_None: "extractTaskId r = None \<Longrightarrow> \<not> hasCanonicalTaskId r"
  by (auto simp: extractTaskId_def hasCanonicalTaskId_def split: option.splits)

lemma hasCanonicalTaskId_extract: "hasCanonicalTaskId r \<Longrightarrow> \<exists>x. extractTaskId r = Some x"
  by (auto simp: extractTaskId_def hasCanonicalTaskId_def split: option.splits)

lemma htmlTokenAt_taskIdToken:
  assumes "6 \<le> length x" and "length x \<le> 32" and "list_all isHexDigit x"
  shows "htmlTokenAt (taskIdToken x) = Some x"
proof -
  have a: "lit (js ''<!--'') (taskIdToken x) = Some (js '' tid:'' @ x @ js '' -->'')"
    by (simp add: lit_def taskIdToken_def js_def)
  have b: "dropWhile isSpace (js '' tid:'' @ x @ js '' -->'') = js ''tid:'' @ x @ js '' -->''"
    by (simp add: js_def isSpace_def isWhiteSpace_def isLineTerminator_def)
  have c: "lit (js ''tid:'') (js ''tid:'' @ x @ js '' -->'') = Some (x @ js '' -->'')"
    by (rule lit_append)
  have d: "hexId (x @ js '' -->'') = Some (x, js '' -->'')"
    using assms by (intro hexId_append) (simp_all add: js_def isHexDigit_def)
  have e: "dropWhile isSpace (js '' -->'') = js ''-->''"
    by (simp add: js_def isSpace_def isWhiteSpace_def isLineTerminator_def)
  have f: "lit (js ''-->'') (js ''-->'') = Some []"
    using lit_append [of "js ''-->''" "[]"] by simp
  show ?thesis
    by (simp add: htmlTokenAt_def a b c d e f)
qed

lemma taskIdToken_last: "taskIdToken x \<noteq> [] \<and> last (taskIdToken x) = 0x3E"
  by (simp add: taskIdToken_def js_def)

lemma taskIdToken_hd: "hd (taskIdToken x) = 0x3C"
  by (simp add: taskIdToken_def js_def)

lemma taskIdToken_no_terminator:
  "list_all isHexDigit x \<Longrightarrow> c \<in> set (taskIdToken x) \<Longrightarrow> \<not> isLineTerminator c"
proof -
  assume x: "list_all isHexDigit x" and c: "c \<in> set (taskIdToken x)"
  from c consider "c \<in> set x" | "c \<in> set (js ''<!-- tid:'') \<union> set (js '' -->'')"
    by (auto simp: taskIdToken_def)
  then show ?thesis
  proof cases
    case 1
    with x show ?thesis by (simp add: list_all_iff isHexDigit_not_terminator)
  next
    case 2
    then show ?thesis by (auto simp: js_def isLineTerminator_def)
  qed
qed

lemma taskIdToken_no_newline: "list_all isHexDigit x \<Longrightarrow> 0x0A \<notin> set (taskIdToken x)"
  using taskIdToken_no_terminator [of x "0x0A"] by (auto simp: isLineTerminator_def)

lemma hasCanonicalTaskId_token:
  assumes "6 \<le> length x" and "length x \<le> 32" and "list_all isHexDigit x"
  shows "hasCanonicalTaskId (z @ taskIdToken x)"
proof -
  have "htmlTokenAt (drop (length z) (z @ taskIdToken x)) = Some x"
    using assms by (simp add: htmlTokenAt_taskIdToken)
  then have "searchRe htmlTokenAt (z @ taskIdToken x) \<noteq> None"
    by (rule searchRe_found) simp
  then show ?thesis by (simp add: hasCanonicalTaskId_def)
qed

lemma trim_token: "\<exists>z'. trim (z @ taskIdToken x) = z' @ taskIdToken x"
proof -
  have t: "\<not> isSpace (hd (taskIdToken x))" by (simp add: taskIdToken_hd space_facts)
  have e: "trimEnd (y @ taskIdToken x) = y @ taskIdToken x" for y
    by (rule trimEnd_id) (simp add: taskIdToken_last space_facts)
  show ?thesis
  proof (cases "\<forall>c\<in>set z. isSpace c")
    case True
    then have "dropWhile isSpace (z @ taskIdToken x) = dropWhile isSpace (taskIdToken x)"
      by (intro dropWhile_append2) simp
    also have "\<dots> = taskIdToken x" using t taskIdToken_last [of x] by (cases "taskIdToken x") auto
    finally have "trim (z @ taskIdToken x) = [] @ taskIdToken x"
      using e [of "[]"] by (simp add: trim_def trimStart_def)
    then show ?thesis by blast
  next
    case False
    then obtain c where "c \<in> set z" "\<not> isSpace c" by auto
    then have "dropWhile isSpace (z @ taskIdToken x) = dropWhile isSpace z @ taskIdToken x"
      by (rule dropWhile_append1)
    then have "trim (z @ taskIdToken x) = dropWhile isSpace z @ taskIdToken x"
      using e by (simp add: trim_def trimStart_def)
    then show ?thesis by blast
  qed
qed


subsection \<open>Task lines\<close>

lemma taskMatch_shape:
  assumes "taskMatch l = Some (m, m2)"
  obtains ws0 ws1 post where "l = ws0 @ 0x2D # ws1 @ 0x5B # m # 0x5D # post"
    and "\<forall>c\<in>set ws0. isSpace c" and "\<forall>c\<in>set ws1. isSpace c"
    and "m = 0x20 \<or> m = 0x78 \<or> m = 0x58"
    and "post \<noteq> []" and "isSpace (hd post)"
    and "m2 = dropWhile isSpace post" and "\<not> list_ex isLineTerminator m2"
proof -
  from assms obtain pre p0 where cb: "checkboxAt l = Some (pre, m, p0)"
    and sr: "spacedRest (tl p0) = Some m2"
    by (auto simp: taskMatch_def split: option.splits)
  obtain d r1 where r1: "dropWhile isSpace l = d # r1"
    using cb by (cases "dropWhile isSpace l") (auto simp: checkboxAt_def)
  with cb have d: "d = 0x2D" by (auto simp: checkboxAt_def split: if_splits)
  from cb r1 d obtain b e r2 where r2: "dropWhile isSpace r1 = b # m # e # r2"
    and be: "b = 0x5B" "e = 0x5D" and m: "m = 0x20 \<or> m = 0x78 \<or> m = 0x58" and p0: "p0 = e # r2"
    by (auto simp: checkboxAt_def split: list.splits if_splits)
  have "l = takeWhile isSpace l @ dropWhile isSpace l" by simp
  also have "\<dots> = takeWhile isSpace l @ 0x2D # (takeWhile isSpace r1 @ dropWhile isSpace r1)"
    using r1 d by simp
  finally have l: "l = takeWhile isSpace l @ 0x2D # takeWhile isSpace r1 @ 0x5B # m # 0x5D # r2"
    using r2 be by simp
  from sr p0 have post: "r2 \<noteq> []" "isSpace (hd r2)" "m2 = dropWhile isSpace r2"
    "\<not> list_ex isLineTerminator m2"
    by (auto simp: spacedRest_def split: list.splits if_splits)
  show thesis
    by (rule that [OF l _ _ m post]) (auto dest: set_takeWhileD)
qed

lemma checkboxAt_build:
  assumes "\<forall>c\<in>set ws0. isSpace c" and "\<forall>c\<in>set ws1. isSpace c"
    and "m = 0x20 \<or> m = 0x78 \<or> m = 0x58"
  shows "checkboxAt (ws0 @ 0x2D # ws1 @ 0x5B # m # 0x5D # post)
     = Some (ws0 @ 0x2D # ws1 @ [0x5B], m, 0x5D # post)"
proof -
  have a: "dropWhile isSpace (ws0 @ 0x2D # ws1 @ 0x5B # m # 0x5D # post)
      = 0x2D # ws1 @ 0x5B # m # 0x5D # post"
    using assms(1) by (simp add: dropWhile_append2 space_facts)
  have b: "dropWhile isSpace (ws1 @ 0x5B # m # 0x5D # post) = 0x5B # m # 0x5D # post"
    using assms(2) by (simp add: dropWhile_append2 space_facts)
  have c: "takeWhile isSpace (ws0 @ 0x2D # ws1 @ 0x5B # m # 0x5D # post) = ws0"
    using assms(1) by (simp add: takeWhile_append2 space_facts)
  have d: "takeWhile isSpace (ws1 @ 0x5B # m # 0x5D # post) = ws1"
    using assms(2) by (simp add: takeWhile_append2 space_facts)
  show ?thesis
    using assms(3) by (simp add: checkboxAt_def a b c d)
qed

lemma taskMatch_build:
  assumes "\<forall>c\<in>set ws0. isSpace c" and "\<forall>c\<in>set ws1. isSpace c"
    and "m = 0x20 \<or> m = 0x78 \<or> m = 0x58"
    and "post \<noteq> []" and "isSpace (hd post)"
    and "\<not> list_ex isLineTerminator (dropWhile isSpace post)"
  shows "taskMatch (ws0 @ 0x2D # ws1 @ 0x5B # m # 0x5D # post) = Some (m, dropWhile isSpace post)"
proof -
  obtain w r where "post = w # r" using assms(4) by (cases post) auto
  with assms(5,6) have "spacedRest post = Some (dropWhile isSpace post)"
    by (simp add: spacedRest_def)
  then show ?thesis
    by (simp add: taskMatch_def checkboxAt_build [OF assms(1-3)])
qed

lemma taskMatch_prefix: "taskMatch l = Some (m, m2) \<Longrightarrow> taskPrefixTest l"
  by (auto simp: taskMatch_def taskPrefixTest_def spacedRest_def split: option.splits list.splits if_splits)

lemma no_token_in_prefix:
  assumes "p \<noteq> []" and "\<not> isSpace (last p)"
    and "\<forall>c\<in>set p. isSpace c \<or> (c \<noteq> 0x3C \<and> c \<noteq> 0x7B)" and "j < length p"
  shows "htmlTokenAt (dropWhile isSpace (drop j (p @ s))) = None"
    and "legacyTokenAt (dropWhile isSpace (drop j (p @ s))) = None"
proof -
  let ?q = "drop j p"
  have q: "?q \<noteq> []" using assms(4) by simp
  then have lq: "last ?q = last p" using assms(4) by simp
  have "last ?q \<in> set ?q" using q by (rule last_in_set)
  with lq assms(2) have e: "dropWhile isSpace (?q @ s) = dropWhile isSpace ?q @ s"
    by (intro dropWhile_append1 [of "last ?q"]) auto
  have ne: "dropWhile isSpace ?q \<noteq> []"
    using \<open>last ?q \<in> set ?q\<close> lq assms(2) by (auto simp: dropWhile_eq_Nil_conv)
  then have h: "\<not> isSpace (hd (dropWhile isSpace ?q))" by (rule hd_dropWhile)
  have "hd (dropWhile isSpace ?q) \<in> set (dropWhile isSpace ?q)" using ne by (rule hd_in_set)
  then have "hd (dropWhile isSpace ?q) \<in> set p"
    by (auto dest!: set_dropWhileD in_set_dropD)
  with assms(3) h have c: "hd (dropWhile isSpace ?q) \<noteq> 0x3C \<and> hd (dropWhile isSpace ?q) \<noteq> 0x7B"
    by auto
  have "drop j (p @ s) = ?q @ s" using assms(4) by simp
  then have d: "dropWhile isSpace (drop j (p @ s)) = dropWhile isSpace ?q @ s"
    by (simp only: e)
  have hd: "hd (dropWhile isSpace (drop j (p @ s))) = hd (dropWhile isSpace ?q)"
    unfolding d using ne by (rule hd_append2)
  show "htmlTokenAt (dropWhile isSpace (drop j (p @ s))) = None"
    using htmlTokenAt_hd [of "dropWhile isSpace (drop j (p @ s))"] hd c
    by (cases "htmlTokenAt (dropWhile isSpace (drop j (p @ s)))") auto
  show "legacyTokenAt (dropWhile isSpace (drop j (p @ s))) = None"
    using legacyTokenAt_hd [of "dropWhile isSpace (drop j (p @ s))"] hd c
    by (cases "legacyTokenAt (dropWhile isSpace (drop j (p @ s)))") auto
qed

lemma stripTaskIdToken_task:
  assumes "\<forall>c\<in>set ws0. isSpace c" and "\<forall>c\<in>set ws1. isSpace c"
    and "m = 0x20 \<or> m = 0x78 \<or> m = 0x58"
  shows "\<exists>x y. post = x @ y \<and> (x = [] \<or> \<not> isSpace (last x))
     \<and> stripTaskIdToken (ws0 @ 0x2D # ws1 @ 0x5B # m # 0x5D # post) = 0x2D # ws1 @ 0x5B # m # 0x5D # x"
proof -
  let ?p = "ws0 @ 0x2D # ws1 @ [0x5B, m, 0x5D]"
  have p1: "?p \<noteq> []" and p2: "\<not> isSpace (last ?p)" by (simp_all add: space_facts)
  have p3: "\<forall>c\<in>set ?p. isSpace c \<or> (c \<noteq> 0x3C \<and> c \<noteq> 0x7B)"
    using assms by auto
  obtain x0 y0 where x0: "post = x0 @ y0"
    "cutMatch (\<lambda>s. htmlTokenAt (dropWhile isSpace s)) (?p @ post) = ?p @ x0"
    using cutMatch_keep [of ?p "\<lambda>s. htmlTokenAt (dropWhile isSpace s)" post]
      no_token_in_prefix(1) [OF p1 p2 p3] by blast
  obtain x1 y1 where x1: "x0 = x1 @ y1"
    "cutMatch (\<lambda>s. legacyTokenAt (dropWhile isSpace s)) (?p @ x0) = ?p @ x1"
    using cutMatch_keep [of ?p "\<lambda>s. legacyTokenAt (dropWhile isSpace s)" x0]
      no_token_in_prefix(2) [OF p1 p2 p3] by blast
  have ts: "trimStart (?p @ x1) = (0x2D # ws1 @ [0x5B, m, 0x5D]) @ x1"
    using assms(1) by (simp add: trimStart_def dropWhile_append2 space_facts)
  have te: "trimEnd ((0x2D # ws1 @ [0x5B, m, 0x5D]) @ x1) = (0x2D # ws1 @ [0x5B, m, 0x5D]) @ trimEnd x1"
    by (rule trimEnd_append) (simp_all add: space_facts)
  obtain w where w: "x1 = trimEnd x1 @ w" using trimEnd_split [of x1] by blast
  have "post = trimEnd x1 @ (w @ y1 @ y0)" using x0(1) x1(1) w by simp
  moreover have "stripTaskIdToken (?p @ post) = (0x2D # ws1 @ [0x5B, m, 0x5D]) @ trimEnd x1"
    unfolding stripTaskIdToken_def x0(2) x1(2) trim_def ts te ..
  ultimately show ?thesis using trimEnd_last [of x1] by auto
qed

lemma ensureTaskIdOnLine_task:
  assumes "taskMatch l = Some (m, m2)"
    and "6 \<le> length x" and "length x \<le> 32" and "list_all isHexDigit x"
  shows "\<exists>m2'. taskMatch (ensureTaskIdOnLine l x) = Some (m, m2') \<and> hasCanonicalTaskId (trim m2')"
proof -
  from assms(1) obtain ws0 ws1 post where l: "l = ws0 @ 0x2D # ws1 @ 0x5B # m # 0x5D # post"
    and ws: "\<forall>c\<in>set ws0. isSpace c" "\<forall>c\<in>set ws1. isSpace c"
    and m: "m = 0x20 \<or> m = 0x78 \<or> m = 0x58"
    and post: "post \<noteq> []" "isSpace (hd post)" "m2 = dropWhile isSpace post"
      "\<not> list_ex isLineTerminator m2"
    by (rule taskMatch_shape)
  from stripTaskIdToken_task [OF ws m, of post] l obtain u y where u: "post = u @ y"
    "u = [] \<or> \<not> isSpace (last u)" "stripTaskIdToken l = 0x2D # ws1 @ 0x5B # m # 0x5D # u"
    by blast
  let ?post = "u @ 0x20 # taskIdToken x"
  have "ensureTaskIdOnLine l x = trimEnd ([] @ 0x2D # ws1 @ 0x5B # m # 0x5D # ?post)"
    by (simp add: ensureTaskIdOnLine_def u(3) js_def)
  also have "\<dots> = [] @ 0x2D # ws1 @ 0x5B # m # 0x5D # ?post"
    by (rule trimEnd_id) (simp add: taskIdToken_last space_facts)
  finally have e: "ensureTaskIdOnLine l x = [] @ 0x2D # ws1 @ 0x5B # m # 0x5D # ?post" .
  have t: "dropWhile isSpace (0x20 # taskIdToken x) = taskIdToken x"
    using taskIdToken_hd [of x] taskIdToken_last [of x]
    by (cases "taskIdToken x") (auto simp: space_facts)
  have hp: "isSpace (hd ?post)"
    using post(2) u(1) by (cases u) (auto simp: space_facts)
  have "\<exists>z. dropWhile isSpace ?post = z @ taskIdToken x
      \<and> set z \<subseteq> set (dropWhile isSpace post) \<union> {0x20}"
  proof (cases "\<forall>c\<in>set u. isSpace c")
    case True
    then have "dropWhile isSpace ?post = dropWhile isSpace (0x20 # taskIdToken x)"
      by (intro dropWhile_append2) simp
    with t have "dropWhile isSpace ?post = [] @ taskIdToken x" by simp
    then show ?thesis by (intro exI [of _ "[]"]) simp
  next
    case False
    then obtain c where c: "c \<in> set u" "\<not> isSpace c" by auto
    then have "dropWhile isSpace ?post = dropWhile isSpace u @ 0x20 # taskIdToken x"
      by (rule dropWhile_append1)
    moreover have "dropWhile isSpace post = dropWhile isSpace u @ y"
      unfolding u(1) using c by (rule dropWhile_append1)
    ultimately show ?thesis
      by (intro exI [of _ "dropWhile isSpace u @ [0x20]"]) auto
  qed
  then obtain z where z: "dropWhile isSpace ?post = z @ taskIdToken x"
    "set z \<subseteq> set (dropWhile isSpace post) \<union> {0x20}" by blast
  have "\<not> isLineTerminator c" if "c \<in> set (z @ taskIdToken x)" for c
  proof -
    from that z(2) consider "c \<in> set m2" | "c = 0x20" | "c \<in> set (taskIdToken x)"
      using post(3) by auto
    then show ?thesis
    proof cases
      case 1
      with post(4) show ?thesis by (auto simp: list_ex_iff)
    next
      case 2
      then show ?thesis by (simp add: isLineTerminator_def)
    next
      case 3
      with assms(4) show ?thesis by (rule taskIdToken_no_terminator)
    qed
  qed
  then have nl: "\<not> list_ex isLineTerminator (dropWhile isSpace ?post)"
    unfolding z(1) by (auto simp: list_ex_iff)
  have "taskMatch ([] @ 0x2D # ws1 @ 0x5B # m # 0x5D # ?post) = Some (m, dropWhile isSpace ?post)"
    by (rule taskMatch_build [OF _ ws(2) m _ hp nl]) simp_all
  moreover obtain z' where "trim (z @ taskIdToken x) = z' @ taskIdToken x"
    using trim_token by blast
  then have "hasCanonicalTaskId (trim (dropWhile isSpace ?post))"
    using assms(2-4) by (simp add: z(1) hasCanonicalTaskId_token)
  ultimately show ?thesis using e by simp
qed

lemma needsId_ensureTaskIdOnLine:
  assumes "taskMatch l = Some (m, m2)"
    and "6 \<le> length x" and "length x \<le> 32" and "list_all isHexDigit x"
  shows "\<not> needsId (ensureTaskIdOnLine l x)"
  using ensureTaskIdOnLine_task [OF assms] by (auto simp: needsId_def)

lemma ensureTaskIdOnLine_no_newline:
  assumes "0x0A \<notin> set l" and "list_all isHexDigit x"
  shows "0x0A \<notin> set (ensureTaskIdOnLine l x)"
proof -
  have "set (stripTaskIdToken l) \<subseteq> set l"
    unfolding stripTaskIdToken_def using set_trim set_cutMatch by (meson subset_trans)
  then have "0x0A \<notin> set (stripTaskIdToken l @ js '' '' @ taskIdToken x)"
    using assms taskIdToken_no_newline [of x] by (auto simp: js_def)
  then show ?thesis
    using set_trimEnd [of "stripTaskIdToken l @ js '' '' @ taskIdToken x"]
    by (auto simp: ensureTaskIdOnLine_def)
qed

subsection \<open>Occurrences of a literal\<close>

lemma anySuffix_iff: "anySuffix P s \<longleftrightarrow> (\<exists>j\<le>length s. P (drop j s))"
proof (induction s)
  case Nil
  then show ?case by simp
next
  case (Cons c cs)
  show ?case
  proof
    assume "anySuffix P (c # cs)"
    then consider "P (c # cs)" | "anySuffix P cs" by auto
    then show "\<exists>j\<le>length (c # cs). P (drop j (c # cs))"
    proof cases
      case 1
      then show ?thesis by (intro exI [of _ 0]) simp
    next
      case 2
      with Cons.IH obtain j where "j \<le> length cs" "P (drop j cs)" by auto
      then show ?thesis by (intro exI [of _ "Suc j"]) simp
    qed
  next
    assume "\<exists>j\<le>length (c # cs). P (drop j (c # cs))"
    then obtain j where j: "j \<le> length (c # cs)" "P (drop j (c # cs))" by auto
    show "anySuffix P (c # cs)"
    proof (cases j)
      case 0
      with j show ?thesis by simp
    next
      case (Suc j')
      with j Cons.IH show ?thesis by auto
    qed
  qed
qed

lemma lit_Some_iff: "lit p s \<noteq> None \<longleftrightarrow> (\<exists>r. s = p @ r)"
proof
  assume "lit p s \<noteq> None"
  then obtain r where "lit p s = Some r" by auto
  then show "\<exists>r. s = p @ r" by (auto dest: lit_SomeD)
next
  assume "\<exists>r. s = p @ r"
  then show "lit p s \<noteq> None" by (auto simp: lit_append)
qed

lemma occursIn_iff: "occursIn p t \<longleftrightarrow> (\<exists>a b. t = a @ p @ b)"
proof
  assume "occursIn p t"
  then obtain j r where "j \<le> length t" "drop j t = p @ r"
    by (auto simp: occursIn_def anySuffix_iff dest: lit_SomeD)
  then have "t = take j t @ p @ r" using append_take_drop_id [of j t] by simp
  then show "\<exists>a b. t = a @ p @ b" by blast
next
  assume "\<exists>a b. t = a @ p @ b"
  then obtain a b where "t = a @ p @ b" by blast
  then have "length a \<le> length t" "lit p (drop (length a) t) \<noteq> None"
    by (simp_all add: lit_append)
  then show "occursIn p t" by (auto simp: occursIn_def anySuffix_iff)
qed

lemma occursIn_lit: "\<not> occursIn p t \<Longrightarrow> lit p (drop j t) = None"
proof (rule ccontr)
  assume n: "\<not> occursIn p t" and "lit p (drop j t) \<noteq> None"
  then obtain r where "drop j t = p @ r" by (auto dest: lit_SomeD)
  then have "t = take j t @ p @ r" using append_take_drop_id [of j t] by simp
  with n show False by (auto simp: occursIn_iff)
qed

lemma occursIn_sep:
  assumes "p \<noteq> []" and "c \<notin> set p" and "occursIn p (x @ c # y)"
  shows "occursIn p x \<or> occursIn p y"
proof -
  from assms(3) obtain a b where e: "x @ c # y = a @ p @ b" by (auto simp: occursIn_iff)
  then obtain u where "(x = a @ u \<and> u @ c # y = p @ b) \<or> (x @ u = a \<and> c # y = u @ p @ b)"
    by (auto simp: append_eq_append_conv2)
  then show ?thesis
  proof
    assume a: "x = a @ u \<and> u @ c # y = p @ b"
    then obtain v where "(u = p @ v \<and> v @ c # y = b) \<or> (u @ v = p \<and> c # y = v @ b)"
      by (auto simp: append_eq_append_conv2)
    then show ?thesis
    proof
      assume "u = p @ v \<and> v @ c # y = b"
      with a have "x = a @ p @ v" by simp
      then show ?thesis by (auto simp: occursIn_iff)
    next
      assume b: "u @ v = p \<and> c # y = v @ b"
      show ?thesis
      proof (cases v)
        case Nil
        with a b have "x = a @ p @ []" by simp
        then show ?thesis unfolding occursIn_iff by blast
      next
        case (Cons d v')
        with b have "c \<in> set p" by auto
        with assms(2) show ?thesis by simp
      qed
    qed
  next
    assume a: "x @ u = a \<and> c # y = u @ p @ b"
    show ?thesis
    proof (cases u)
      case Nil
      with a assms(1) have "c \<in> set p" by (cases p) auto
      with assms(2) show ?thesis by simp
    next
      case (Cons d u')
      with a have "y = u' @ p @ b" by simp
      then show ?thesis by (auto simp: occursIn_iff)
    qed
  qed
qed

lemma occursIn_Nil: "p \<noteq> [] \<Longrightarrow> \<not> occursIn p []"
  by (simp add: occursIn_iff)

lemma occursIn_Cons:
  assumes "p \<noteq> []" and "c \<notin> set p" and "occursIn p (c # y)"
  shows "occursIn p y"
  using occursIn_sep [OF assms(1,2), of "[]" y] assms(1,3) by (simp add: occursIn_Nil)

lemma occursIn_snoc:
  assumes "p \<noteq> []" and "c \<notin> set p" and "occursIn p (x @ [c])"
  shows "occursIn p x"
  using occursIn_sep [OF assms(1,2), of x "[]"] assms(1,3) by (simp add: occursIn_Nil)

lemma occursIn_skip:
  assumes "p \<noteq> []" and "hd p \<notin> set x" and "occursIn p (x @ y)"
  shows "occursIn p y"
proof -
  from assms(3) obtain a b where "x @ y = a @ p @ b" by (auto simp: occursIn_iff)
  then obtain u where "(x = a @ u \<and> u @ y = p @ b) \<or> (x @ u = a \<and> y = u @ p @ b)"
    by (auto simp: append_eq_append_conv2)
  then show ?thesis
  proof
    assume a: "x = a @ u \<and> u @ y = p @ b"
    show ?thesis
    proof (cases u)
      case Nil
      with a have "y = [] @ p @ b" by simp
      then show ?thesis unfolding occursIn_iff by blast
    next
      case (Cons d u')
      with a assms(1) have "hd p = d" by (cases p) auto
      with a Cons assms(2) show ?thesis by simp
    qed
  next
    assume "x @ u = a \<and> y = u @ p @ b"
    then show ?thesis by (auto simp: occursIn_iff)
  qed
qed

lemma occursIn_sub: "occursIn p t \<Longrightarrow> occursIn p (a @ t @ b)"
proof -
  assume "occursIn p t"
  then obtain a' b' where "t = a' @ p @ b'" by (auto simp: occursIn_iff)
  then have "a @ t @ b = (a @ a') @ p @ (b' @ b)" by simp
  then show ?thesis unfolding occursIn_iff by blast
qed

lemma lit_before_sep:
  assumes "\<not> occursIn p q" and "p \<noteq> []" and "c \<notin> set p" and "j \<le> length q"
  shows "lit p (drop j (q @ c # s)) = None"
proof (rule ccontr)
  assume "lit p (drop j (q @ c # s)) \<noteq> None"
  then obtain r where "lit p (drop j (q @ c # s)) = Some r" by blast
  then have "drop j (q @ c # s) = p @ r" by (rule lit_SomeD)
  then have e: "drop j q @ c # s = p @ r" using assms(4) by simp
  then obtain u where "(drop j q = p @ u \<and> u @ c # s = r) \<or> (drop j q @ u = p \<and> c # s = u @ r)"
    by (auto simp: append_eq_append_conv2)
  then show False
  proof
    assume "drop j q = p @ u \<and> u @ c # s = r"
    then have "q = take j q @ p @ u" using append_take_drop_id [of j q] by simp
    with assms(1) show False unfolding occursIn_iff by blast
  next
    assume a: "drop j q @ u = p \<and> c # s = u @ r"
    show False
    proof (cases u)
      case Nil
      with a have "q = take j q @ p @ []" using append_take_drop_id [of j q] by simp
      with assms(1) show False unfolding occursIn_iff by blast
    next
      case (Cons d u')
      with a have "c \<in> set p" by auto
      with assms(3) show False by simp
    qed
  qed
qed

subsection \<open>Bounded searches\<close>

lemma metaTokenAt_lit: "lit m s = None \<Longrightarrow> metaTokenAt m s = None"
  by (simp add: metaTokenAt_def)

lemma reasonAt_lit:
  "lit reasonMarker s = None \<Longrightarrow> lit (0x270D # js ''reason:'') s = None \<Longrightarrow> reasonAt s = None"
proof -
  assume a: "lit reasonMarker s = None" and b: "lit (0x270D # js ''reason:'') s = None"
  have "(case lit [0x270D, 0xFE0F] s of None \<Rightarrow> None | Some r \<Rightarrow> reasonTail r) = None"
  proof (cases "lit [0x270D, 0xFE0F] s")
    case None
    then show ?thesis by simp
  next
    case (Some r)
    then have s: "s = [0x270D, 0xFE0F] @ r" by (rule lit_SomeD)
    have "lit (js ''reason:'') r = None"
    proof (cases "lit (js ''reason:'') r")
      case None
      then show ?thesis .
    next
      case (Some v)
      then have "r = js ''reason:'' @ v" by (rule lit_SomeD)
      with s have "s = reasonMarker @ v" by (simp add: reasonMarker_def)
      with a show ?thesis by (simp add: lit_append)
    qed
    with Some show ?thesis by (simp add: reasonTail_def)
  qed
  moreover have "(case lit [0x270D] s of None \<Rightarrow> None | Some r \<Rightarrow> reasonTail r) = None"
  proof (cases "lit [0x270D] s")
    case None
    then show ?thesis by simp
  next
    case (Some r)
    then have s: "s = [0x270D] @ r" by (rule lit_SomeD)
    have "lit (js ''reason:'') r = None"
    proof (cases "lit (js ''reason:'') r")
      case None
      then show ?thesis .
    next
      case (Some v)
      then have "r = js ''reason:'' @ v" by (rule lit_SomeD)
      with s have "s = (0x270D # js ''reason:'') @ v" by simp
      with b show ?thesis by (simp add: lit_append del: append.simps)
    qed
    with Some show ?thesis by (simp add: reasonTail_def)
  qed
  ultimately show ?thesis by (simp add: reasonAt_def)
qed

lemma searchBounded_None:
  assumes "\<And>j. j \<le> length s \<Longrightarrow> mm (drop j s) = None"
  shows "searchBounded b mm s = None"
  using assms
proof (induction s arbitrary: b)
  case Nil
  then show ?case by (simp add: boundedAt_def)
next
  case (Cons c cs)
  have a: "mm (c # cs) = None" using Cons.prems [of 0] by simp
  have t: "mm (drop j cs) = None" if "j \<le> length cs" for j
    using Cons.prems [of "Suc j"] that by simp
  have "mm cs = None" using t [of 0] by simp
  with a have "boundedAt b mm (c # cs) = None" by (simp add: boundedAt_def)
  moreover have "searchBounded False mm cs = None" using t by (rule Cons.IH)
  ultimately show ?case by simp
qed

lemma searchBounded_skip:
  assumes "\<And>j. j \<le> length q \<Longrightarrow> mm (drop j (q @ 0x20 # s)) = None" and "mm s = Some r"
  shows "searchBounded b mm (q @ 0x20 # s) = Some (length q, 1, r)"
  using assms(1)
proof (induction q arbitrary: b)
  case Nil
  have "mm (0x20 # s) = None" using Nil [of 0] by simp
  then have "boundedAt b mm (0x20 # s) = Some (1, r)"
    using assms(2) by (simp add: boundedAt_def space_facts)
  then show ?case by simp
next
  case (Cons c cs)
  have a: "mm (c # cs @ 0x20 # s) = None" using Cons.prems [of 0] by simp
  have t: "mm (drop j (cs @ 0x20 # s)) = None" if "j \<le> length cs" for j
    using Cons.prems [of "Suc j"] that by simp
  have "mm (cs @ 0x20 # s) = None" using t [of 0] by simp
  with a have "boundedAt b mm (c # cs @ 0x20 # s) = None" by (simp add: boundedAt_def)
  moreover have "searchBounded False mm (cs @ 0x20 # s) = Some (length cs, 1, r)"
    using t by (rule Cons.IH)
  ultimately show ?case by simp
qed

lemma searchBounded_start: "mm s = Some r \<Longrightarrow> searchBounded True mm s = Some (0, 0, r)"
  by (cases s) (simp_all add: boundedAt_def)

lemma replaceMetaTokens_None:
  assumes "\<And>j. j \<le> length s \<Longrightarrow> metaTokenAt m (drop j s) = None"
  shows "replaceMetaTokens m b s = s"
  using assms
proof (induction s arbitrary: b)
  case Nil
  have "metaTokenAt m [] = None" using Nil [of 0] by simp
  then show ?case by (simp add: replaceMetaTokens.simps [of m b "[]"] boundedAt_def)
next
  case (Cons c cs)
  have a: "metaTokenAt m (c # cs) = None" using Cons.prems [of 0] by simp
  have t: "metaTokenAt m (drop j cs) = None" if "j \<le> length cs" for j
    using Cons.prems [of "Suc j"] that by simp
  have "metaTokenAt m cs = None" using t [of 0] by simp
  with a have "boundedAt b (metaTokenAt m) (c # cs) = None" by (simp add: boundedAt_def)
  moreover have "replaceMetaTokens m False cs = cs" using t by (rule Cons.IH)
  ultimately show ?case by (simp add: replaceMetaTokens.simps [of m b "c # cs"])
qed

lemma replaceMetaTokens_skip:
  assumes "\<And>j. j \<le> length q \<Longrightarrow> metaTokenAt m (drop j (q @ 0x20 # s)) = None"
    and "metaTokenAt m s = Some (v, rest)"
  shows "replaceMetaTokens m b (q @ 0x20 # s) = q @ 0x20 # replaceMetaTokens m False rest"
  using assms(1)
proof (induction q arbitrary: b)
  case Nil
  have "metaTokenAt m (0x20 # s) = None" using Nil [of 0] by simp
  then have "boundedAt b (metaTokenAt m) (0x20 # s) = Some (1, v, rest)"
    using assms(2) by (simp add: boundedAt_def space_facts)
  then show ?case by (simp add: replaceMetaTokens.simps [of m b "0x20 # s"])
next
  case (Cons c cs)
  have a: "metaTokenAt m (c # cs @ 0x20 # s) = None" using Cons.prems [of 0] by simp
  have t: "metaTokenAt m (drop j (cs @ 0x20 # s)) = None" if "j \<le> length cs" for j
    using Cons.prems [of "Suc j"] that by simp
  have "metaTokenAt m (cs @ 0x20 # s) = None" using t [of 0] by simp
  with a have "boundedAt b (metaTokenAt m) (c # cs @ 0x20 # s) = None" by (simp add: boundedAt_def)
  moreover have "replaceMetaTokens m False (cs @ 0x20 # s) = cs @ 0x20 # replaceMetaTokens m False rest"
    using t by (rule Cons.IH)
  ultimately show ?case by (simp add: replaceMetaTokens.simps [of m b "c # cs @ 0x20 # s"])
qed

lemma replaceMetaTokens_start:
  "metaTokenAt m s = Some (v, rest) \<Longrightarrow> replaceMetaTokens m True s = 0x20 # replaceMetaTokens m False rest"
  by (simp add: replaceMetaTokens.simps [of m True s] boundedAt_def)

lemma metaTokenAt_token:
  assumes "v \<noteq> []" and "\<forall>c\<in>set v. \<not> isSpace c" and "rest = [] \<or> isSpace (hd rest)"
  shows "metaTokenAt m (m @ v @ rest) = Some (v, rest)"
proof -
  have n: "\<And>c. c \<in> set v \<Longrightarrow> nonSpace c" using assms(2) by (simp add: nonSpace_def)
  have "takeWhile nonSpace (v @ rest) = v @ takeWhile nonSpace rest"
    using n by (rule takeWhile_append2)
  moreover have "takeWhile nonSpace rest = []"
    using assms(3) by (cases rest) (auto simp: nonSpace_def)
  moreover have "dropWhile nonSpace (v @ rest) = dropWhile nonSpace rest"
    using n by (rule dropWhile_append2)
  moreover have "dropWhile nonSpace rest = rest"
    using assms(3) by (cases rest) (auto simp: nonSpace_def)
  ultimately show ?thesis using assms(1) by (simp add: metaTokenAt_def lit_append)
qed

lemma reasonAt_marker: "\<not> list_ex isLineTerminator r \<Longrightarrow> reasonAt (reasonMarker @ r) = Some r"
proof -
  assume r: "\<not> list_ex isLineTerminator r"
  have "lit [0x270D, 0xFE0F] (reasonMarker @ r) = Some (js ''reason:'' @ r)"
    by (simp add: lit_def reasonMarker_def)
  moreover have "reasonTail (js ''reason:'' @ r) = Some r"
    using r by (simp add: reasonTail_def lit_append)
  ultimately show ?thesis by (simp add: reasonAt_def)
qed

subsection \<open>Normalised display text\<close>

lemma collapseSpaces_Cons_nonspace: "\<not> isSpace c \<Longrightarrow> collapseSpaces (c # u) = c # collapseSpaces u"
  by (cases u) simp_all

lemma collapseSpaces_Cons_space:
  "isSpace c \<Longrightarrow> u \<noteq> [] \<Longrightarrow> \<not> isSpace (hd u) \<Longrightarrow> collapseSpaces (c # u) = 0x20 # collapseSpaces u"
  by (cases u) simp_all

lemma collapseSpaces_Cons_spaces:
  "isSpace c \<Longrightarrow> u \<noteq> [] \<Longrightarrow> isSpace (hd u) \<Longrightarrow> collapseSpaces (c # u) = collapseSpaces u"
  by (cases u) simp_all

lemma collapseSpaces_Nil_iff: "collapseSpaces u = [] \<longleftrightarrow> u = []"
  by (induction u rule: collapseSpaces.induct) auto

lemma collapseSpaces_hd: "u \<noteq> [] \<Longrightarrow> \<not> isSpace (hd u) \<Longrightarrow> hd (collapseSpaces u) = hd u"
  by (cases u) (simp_all add: collapseSpaces_Cons_nonspace)

lemma collapseSpaces_space: "c \<in> set (collapseSpaces u) \<Longrightarrow> isSpace c \<Longrightarrow> c = 0x20"
  by (induction u rule: collapseSpaces.induct) (auto split: if_splits)

lemma collapseSpaces_all_space:
  "u \<noteq> [] \<Longrightarrow> \<forall>c\<in>set u. isSpace c \<Longrightarrow> collapseSpaces u = [0x20]"
  by (induction u rule: collapseSpaces.induct) auto

lemma collapseSpaces_last:
  "u \<noteq> [] \<Longrightarrow> \<not> isSpace (last u) \<Longrightarrow> last (collapseSpaces u) = last u"
proof (induction u rule: collapseSpaces.induct)
  case 1
  then show ?case by simp
next
  case (2 c)
  then show ?case by simp
next
  case (3 c d cs)
  from "3.prems" have l: "\<not> isSpace (last (d # cs))" by simp
  have ih: "last (collapseSpaces (d # cs)) = last (d # cs)"
    using "3.IH" l by (cases "isSpace c"; cases "isSpace d") (simp_all del: last.simps collapseSpaces.simps)
  have ne: "collapseSpaces (d # cs) \<noteq> []" by (simp add: collapseSpaces_Nil_iff)
  have "last (collapseSpaces (c # d # cs)) = last (collapseSpaces (d # cs))"
    using ne by (simp del: collapseSpaces.simps(2) add: collapseSpaces.simps(3) [of c d cs])
  with ih show ?case by simp
qed

lemma collapseSpaces_append:
  "u \<noteq> [] \<Longrightarrow> \<not> isSpace (last u) \<Longrightarrow> collapseSpaces (u @ v) = collapseSpaces u @ collapseSpaces v"
proof (induction u rule: collapseSpaces.induct)
  case 1
  then show ?case by simp
next
  case (2 c)
  then show ?case by (simp add: collapseSpaces_Cons_nonspace)
next
  case (3 c d cs)
  from "3.prems" have l: "\<not> isSpace (last (d # cs))" by simp
  have ih: "collapseSpaces ((d # cs) @ v) = collapseSpaces (d # cs) @ collapseSpaces v"
    using "3.IH" l by (cases "isSpace c"; cases "isSpace d") (simp_all del: last.simps collapseSpaces.simps)
  then show ?case by simp
qed

lemma collapseSpaces_dropWhile:
  "collapseSpaces (dropWhile isSpace s) = dropWhile isSpace (collapseSpaces s)"
  by (induction s rule: collapseSpaces.induct) (auto simp: space_facts)

lemma collapseSpaces_trimEnd: "collapseSpaces (trimEnd s) = trimEnd (collapseSpaces s)"
proof -
  obtain w where w: "s = trimEnd s @ w" "\<forall>c\<in>set w. isSpace c"
    using trimEnd_split [of s] by blast
  have cw: "trimEnd (collapseSpaces w) = []"
  proof (cases "w = []")
    case True
    then show ?thesis by (simp add: trimEnd_def)
  next
    case False
    from False w(2) have "collapseSpaces w = [0x20]" by (rule collapseSpaces_all_space)
    then show ?thesis by (simp add: trimEnd_def space_facts)
  qed
  show ?thesis
  proof (cases "trimEnd s = []")
    case True
    with w(1) have "s = w" by simp
    with cw True show ?thesis by simp
  next
    case False
    then have l: "\<not> isSpace (last (trimEnd s))" using trimEnd_last [of s] by simp
    have "collapseSpaces s = collapseSpaces (trimEnd s) @ collapseSpaces w"
      using collapseSpaces_append [OF False l, of w] w(1) by simp
    moreover have "trimEnd (collapseSpaces (trimEnd s) @ collapseSpaces w)
        = collapseSpaces (trimEnd s) @ trimEnd (collapseSpaces w)"
      using False l by (intro trimEnd_append) (simp_all add: collapseSpaces_Nil_iff collapseSpaces_last)
    ultimately show ?thesis using cw by simp
  qed
qed

lemma collapseSpaces_trim: "collapseSpaces (trim s) = trim (collapseSpaces s)"
  by (simp add: trim_def trimStart_def collapseSpaces_trimEnd collapseSpaces_dropWhile)

lemma collapseSpaces_idem: "collapseSpaces (collapseSpaces s) = collapseSpaces s"
proof (induction s rule: collapseSpaces.induct)
  case 1
  then show ?case by simp
next
  case (2 c)
  then show ?case by (simp add: space_facts)
next
  case (3 c d cs)
  have ne: "collapseSpaces (d # cs) \<noteq> []" by (simp add: collapseSpaces_Nil_iff)
  show ?case
  proof (cases "isSpace c")
    case False
    with 3 show ?thesis by (simp add: collapseSpaces_Cons_nonspace)
  next
    case True
    show ?thesis
    proof (cases "isSpace d")
      case True
      with \<open>isSpace c\<close> 3 show ?thesis by simp
    next
      case False
      then have "hd (collapseSpaces (d # cs)) = d" using collapseSpaces_hd [of "d # cs"] by simp
      with False ne have "collapseSpaces (0x20 # collapseSpaces (d # cs))
          = 0x20 # collapseSpaces (collapseSpaces (d # cs))"
        by (intro collapseSpaces_Cons_space) (simp_all add: space_facts)
      with True False 3 show ?thesis by simp
    qed
  qed
qed

lemma trim_ends: "trim s = [] \<or> (\<not> isSpace (hd (trim s)) \<and> \<not> isSpace (last (trim s)))"
proof (cases "trim s = []")
  case True
  then show ?thesis by simp
next
  case False
  let ?t = "dropWhile isSpace s"
  have t: "trim s = trimEnd ?t" by (simp add: trim_def trimStart_def)
  with False have l: "\<not> isSpace (last (trim s))" using trimEnd_last [of ?t] by simp
  obtain w where w: "?t = trimEnd ?t @ w" using trimEnd_split [of ?t] by blast
  have ne: "?t \<noteq> []"
  proof
    assume "?t = []"
    then have "trimEnd ?t = trimEnd []" by (simp only:)
    then have "trimEnd ?t = []" by (simp add: trimEnd_def)
    with False t show False by simp
  qed
  have "hd ?t = hd (trimEnd ?t)" using w False t by (metis hd_append2)
  moreover have "\<not> isSpace (hd ?t)" using ne by (rule hd_dropWhile)
  ultimately show ?thesis using l t by simp
qed

lemma trim_idem: "trim (trim s) = trim s"
proof (cases "trim s = []")
  case True
  then show ?thesis by (simp add: trim_Nil)
next
  case False
  with trim_ends [of s] show ?thesis by (intro trim_id) simp_all
qed

lemma trim_sub: "\<exists>a b. s = a @ trim s @ b"
proof -
  obtain w where "dropWhile isSpace s = trimEnd (dropWhile isSpace s) @ w"
    using trimEnd_split [of "dropWhile isSpace s"] by blast
  then have "s = takeWhile isSpace s @ trim s @ w"
    using takeWhile_dropWhile_id [of isSpace s] by (simp add: trim_def trimStart_def)
  then show ?thesis by blast
qed

lemma trim_padded:
  assumes "b = [] \<or> (\<not> isSpace (hd b) \<and> \<not> isSpace (last b))"
  shows "trim (b @ replicate n 0x20) = b"
proof -
  have r: "dropWhile isSpace (replicate n 0x20) = []" by (simp add: space_facts)
  show ?thesis
  proof (cases "b = []")
    case True
    then show ?thesis by (simp add: trim_def trimStart_def trimEnd_def space_facts)
  next
    case False
    with assms have h: "\<not> isSpace (hd b)" and l: "\<not> isSpace (last b)" by simp_all
    from False h have "dropWhile isSpace (b @ replicate n 0x20) = b @ replicate n 0x20"
      by (cases b) auto
    moreover have "trimEnd (b @ replicate n 0x20) = b @ trimEnd (replicate n 0x20)"
      using False l by (rule trimEnd_append)
    moreover have "trimEnd (replicate n 0x20) = []"
      by (simp add: trimEnd_def space_facts)
    ultimately show ?thesis by (simp add: trim_def trimStart_def)
  qed
qed

lemma normal_padded:
  "trim (collapseSpaces (trim (collapseSpaces t) @ replicate n 0x20)) = trim (collapseSpaces t)"
proof -
  let ?b = "trim (collapseSpaces t)"
  have "trim (collapseSpaces (?b @ replicate n 0x20)) = collapseSpaces (trim (?b @ replicate n 0x20))"
    by (simp add: collapseSpaces_trim)
  also have "\<dots> = collapseSpaces ?b" using trim_ends [of "collapseSpaces t"] by (simp add: trim_padded)
  also have "\<dots> = ?b" by (simp add: collapseSpaces_trim collapseSpaces_idem)
  finally show ?thesis .
qed

lemma normal_no_terminator: "c \<in> set (trim (collapseSpaces t)) \<Longrightarrow> \<not> isLineTerminator c"
proof
  assume c: "c \<in> set (trim (collapseSpaces t))" and l: "isLineTerminator c"
  from c have "c \<in> set (collapseSpaces t)" using set_trim by blast
  moreover from l have "isSpace c" by (simp add: isSpace_def)
  ultimately have "c = 0x20" by (rule collapseSpaces_space)
  with l show False by (simp add: isLineTerminator_def)
qed



lemma collapseSpaces_prefix:
  "collapseSpaces u = p @ r \<Longrightarrow> \<forall>c\<in>set p. \<not> isSpace c \<Longrightarrow> \<exists>r'. u = p @ r'"
proof (induction u arbitrary: p r rule: collapseSpaces.induct)
  case 1
  then show ?case by simp
next
  case (2 c)
  show ?case
  proof (cases p)
    case Nil
    then show ?thesis by simp
  next
    case (Cons x p')
    show ?thesis
    proof (cases "isSpace c")
      case True
      with "2.prems"(1) Cons have "x = 0x20" by simp
      with "2.prems"(2) Cons show ?thesis by (simp add: space_facts)
    next
      case False
      with "2.prems"(1) Cons show ?thesis by simp
    qed
  qed
next
  case (3 c d cs)
  show ?case
  proof (cases p)
    case Nil
    then show ?thesis by simp
  next
    case (Cons x p')
    show ?thesis
    proof (cases "isSpace c")
      case True
      show ?thesis
      proof (cases "isSpace d")
        case True
        with \<open>isSpace c\<close> "3.prems"(1) have "collapseSpaces (d # cs) = p @ r" by simp
        from "3.IH"(1) [OF \<open>isSpace c\<close> True this "3.prems"(2)] obtain r' where "d # cs = p @ r'"
          by blast
        with Cons True "3.prems"(2) show ?thesis by auto
      next
        case False
        with True "3.prems"(1) Cons have "x = 0x20" by simp
        with Cons "3.prems"(2) show ?thesis by (simp add: space_facts)
      qed
    next
      case False
      with "3.prems"(1) Cons have x: "x = c" and e: "collapseSpaces (d # cs) = p' @ r" by simp_all
      from "3.prems"(2) Cons have "\<forall>c\<in>set p'. \<not> isSpace c" by simp
      from "3.IH"(3) [OF False e this] obtain r' where "d # cs = p' @ r'" by blast
      with x Cons show ?thesis by simp
    qed
  qed
qed


lemma occursIn_collapseSpaces:
  assumes "p \<noteq> []" and "\<forall>c\<in>set p. \<not> isSpace c"
  shows "occursIn p (collapseSpaces u) \<Longrightarrow> occursIn p u"
proof (induction u rule: collapseSpaces.induct)
  case 1
  with assms(1) show ?case by (simp add: occursIn_Nil)
next
  case (2 c)
  then obtain a b where e: "collapseSpaces [c] = a @ p @ b" by (auto simp: occursIn_iff)
  have "length (collapseSpaces [c]) = 1" by simp
  with e have "length a + length p + length b = 1" by (simp del: collapseSpaces.simps)
  with assms(1) have "a = []" by (cases p) auto
  with e have "collapseSpaces [c] = p @ b" by (simp only: append_Nil)
  from collapseSpaces_prefix [OF this assms(2)] obtain r' where "[c] = [] @ p @ r'" by auto
  then show ?case unfolding occursIn_iff by blast
next
  case (3 c d cs)
  from 3(4) obtain a b where e: "collapseSpaces (c # d # cs) = a @ p @ b"
    by (auto simp: occursIn_iff)
  have up: "occursIn p (d # cs) \<Longrightarrow> occursIn p (c # d # cs)"
    using occursIn_sub [of p "d # cs" "[c]" "[]"] by simp
  show ?case
  proof (cases a)
    case Nil
    with e have "collapseSpaces (c # d # cs) = p @ b" by (simp only: append_Nil)
    from collapseSpaces_prefix [OF this assms(2)]
    obtain r' where "c # d # cs = [] @ p @ r'" by auto
    then show ?thesis unfolding occursIn_iff by blast
  next
    case (Cons y a')
    show ?thesis
    proof (cases "isSpace c")
      case True
      show ?thesis
      proof (cases "isSpace d")
        case True
        with \<open>isSpace c\<close> 3(4) have "occursIn p (collapseSpaces (d # cs))" by simp
        with 3(1) [OF \<open>isSpace c\<close> True] up show ?thesis by simp
      next
        case False
        with True e Cons have "collapseSpaces (d # cs) = a' @ p @ b" by simp
        then have "occursIn p (collapseSpaces (d # cs))" unfolding occursIn_iff by blast
        with 3(2) [OF True False] up show ?thesis by simp
      qed
    next
      case False
      with e Cons have "collapseSpaces (d # cs) = a' @ p @ b" by simp
      then have "occursIn p (collapseSpaces (d # cs))" unfolding occursIn_iff by blast
      with 3(3) [OF False] up show ?thesis by simp
    qed
  qed
qed

lemma occursIn_trim: "occursIn p (trim s) \<Longrightarrow> occursIn p s"
proof -
  assume o: "occursIn p (trim s)"
  obtain a b where e: "s = a @ trim s @ b" using trim_sub by blast
  from occursIn_sub [OF o, of a b] have "occursIn p (a @ trim s @ b)" .
  then show ?thesis by (subst e)
qed

lemma occursIn_normal:
  assumes "p \<noteq> []" and "\<forall>c\<in>set p. \<not> isSpace c" and "\<not> occursIn p t"
  shows "\<not> occursIn p (trim (collapseSpaces t) @ replicate n 0x20)"
proof
  assume "occursIn p (trim (collapseSpaces t) @ replicate n 0x20)"
  then have "occursIn p (trim (collapseSpaces t))"
  proof (induction n)
    case 0
    then show ?case by simp
  next
    case (Suc n)
    have "replicate (Suc n) (0x20 :: jschar) = replicate n 0x20 @ [0x20]"
      by (simp add: replicate_append_same)
    with Suc.prems have "occursIn p ((trim (collapseSpaces t) @ replicate n 0x20) @ [0x20])" by simp
    moreover have "0x20 \<notin> set p" using assms(2) by (auto simp: space_facts)
    ultimately have "occursIn p (trim (collapseSpaces t) @ replicate n 0x20)"
      using assms(1) occursIn_snoc [of p "0x20" "trim (collapseSpaces t) @ replicate n 0x20"] by blast
    then show ?case by (rule Suc.IH)
  qed
  then have "occursIn p (collapseSpaces t)" by (rule occursIn_trim)
  then have "occursIn p t" by (rule occursIn_collapseSpaces [OF assms(1,2)])
  with assms(3) show False by simp
qed

subsection \<open>The token at the end of a serialised line\<close>

lemma htmlTokenAt_shape:
  assumes "htmlTokenAt s = Some h"
  obtains w1 w2 w3 where "s = js ''<!--'' @ w1 @ js ''tid:'' @ h @ w2 @ js ''-->'' @ w3"
    and "\<forall>c\<in>set w1. isSpace c" and "\<forall>c\<in>set w2. isSpace c" and "\<forall>c\<in>set w3. isSpace c"
proof -
  from assms obtain s1 s2 s3 s4 where l1: "lit (js ''<!--'') s = Some s1"
    and l2: "lit (js ''tid:'') (dropWhile isSpace s1) = Some s2"
    and l3: "hexId s2 = Some (h, s3)"
    and l4: "lit (js ''-->'') (dropWhile isSpace s3) = Some s4"
    and l5: "dropWhile isSpace s4 = []"
    by (auto simp: htmlTokenAt_def split: option.splits if_splits)
  have a: "s = js ''<!--'' @ s1" using l1 by (rule lit_SomeD)
  have "s1 = takeWhile isSpace s1 @ dropWhile isSpace s1" by simp
  also have "dropWhile isSpace s1 = js ''tid:'' @ s2" using l2 by (rule lit_SomeD)
  finally have b: "s1 = takeWhile isSpace s1 @ js ''tid:'' @ s2" .
  have c: "s2 = h @ s3" using l3 by (rule hexId_SomeD)
  have "s3 = takeWhile isSpace s3 @ dropWhile isSpace s3" by simp
  also have "dropWhile isSpace s3 = js ''-->'' @ s4" using l4 by (rule lit_SomeD)
  finally have d: "s3 = takeWhile isSpace s3 @ js ''-->'' @ s4" .
  have e: "\<forall>c\<in>set s4. isSpace c" using l5 by (simp add: dropWhile_eq_Nil_conv)
  have "s = js ''<!--'' @ takeWhile isSpace s1 @ js ''tid:'' @ h @ takeWhile isSpace s3 @ js ''-->'' @ s4"
    by (subst a, subst b, subst c, subst d) simp
  then show thesis
    by (rule that) (auto dest: set_takeWhileD simp: e)
qed

lemma legacyTokenAt_shape:
  assumes "legacyTokenAt s = Some h"
  obtains w where "s = js ''{#t:'' @ h @ js ''}'' @ w" and "\<forall>c\<in>set w. isSpace c"
proof -
  from assms obtain s1 s2 s3 where l1: "lit (js ''{#t:'') s = Some s1"
    and l2: "hexId s1 = Some (h, s2)"
    and l3: "lit (js ''}'') s2 = Some s3"
    and l4: "dropWhile isSpace s3 = []"
    by (auto simp: legacyTokenAt_def split: option.splits if_splits)
  have a: "s = js ''{#t:'' @ s1" using l1 by (rule lit_SomeD)
  have b: "s1 = h @ s2" using l2 by (rule hexId_SomeD)
  have c: "s2 = js ''}'' @ s3" using l3 by (rule lit_SomeD)
  have e: "\<forall>c\<in>set s3. isSpace c" using l4 by (simp add: dropWhile_eq_Nil_conv)
  have "s = js ''{#t:'' @ h @ js ''}'' @ s3"
    by (subst a, subst b, subst c) simp
  then show thesis using e by (rule that)
qed

lemma legacyTokenAt_token:
  assumes "6 \<le> length h" and "length h \<le> 32" and "list_all isHexDigit h"
  shows "legacyTokenAt (js ''{#t:'' @ h @ js ''}'') = Some h"
proof -
  have a: "lit (js ''{#t:'') (js ''{#t:'' @ h @ js ''}'') = Some (h @ js ''}'')"
    by (rule lit_append)
  have b: "hexId (h @ js ''}'') = Some (h, js ''}'')"
    using assms by (intro hexId_append) (simp_all add: js_def isHexDigit_def)
  have c: "lit (js ''}'') (js ''}'') = Some []"
    using lit_append [of "js ''}''" "[]"] by simp
  show ?thesis by (simp add: legacyTokenAt_def a b c)
qed

lemma span_eq:
  assumes "u @ p = v @ q" and "\<forall>c\<in>set u. P c" and "\<forall>c\<in>set v. P c"
    and "p = [] \<or> \<not> P (hd p)" and "q = [] \<or> \<not> P (hd q)"
  shows "u = v \<and> p = q"
proof -
  have "takeWhile P (u @ p) = u @ takeWhile P p"
    using assms(2) by (intro takeWhile_append2) simp
  moreover have "takeWhile P p = []" using assms(4) by (cases p) auto
  moreover have "takeWhile P (v @ q) = v @ takeWhile P q"
    using assms(3) by (intro takeWhile_append2) simp
  moreover have "takeWhile P q = []" using assms(5) by (cases q) auto
  ultimately have "u = v" using assms(1) by simp
  with assms(1) show ?thesis by simp
qed

lemma html_unique:
  assumes "htmlTokenAt s = Some h" and "a @ s = z @ taskIdToken x"
    and "list_all isHexDigit x" and "x \<noteq> []"
  shows "h = x \<and> a = z"
proof -
  from assms(1) obtain w1 w2 w3 where s: "s = js ''<!--'' @ w1 @ js ''tid:'' @ h @ w2 @ js ''-->'' @ w3"
    and w: "\<forall>c\<in>set w1. isSpace c" "\<forall>c\<in>set w2. isSpace c" "\<forall>c\<in>set w3. isSpace c"
    by (rule htmlTokenAt_shape)
  from assms(1) have h: "h \<noteq> []" "list_all isHexDigit h"
    using htmlTokenAt_id [of s h] by auto
  define r1 where "r1 = rev w1 @ 0x2D # 0x2D # 0x21 # 0x3C # rev a"
  define r2 where "r2 = 0x20 # 0x2D # 0x2D # 0x21 # 0x3C # rev z"
  have "rev (a @ s) = rev (z @ taskIdToken x)" using assms(2) by simp
  then have e0: "rev w3 @ (0x3E # 0x2D # 0x2D # rev w2 @ rev h @ 0x3A # 0x64 # 0x69 # 0x74 # r1)
      = [] @ (0x3E # 0x2D # 0x2D # 0x20 # rev x @ 0x3A # 0x64 # 0x69 # 0x74 # r2)"
    by (simp add: s taskIdToken_def js_def r1_def r2_def)
  have "rev w3 = [] \<and> 0x3E # 0x2D # 0x2D # rev w2 @ rev h @ 0x3A # 0x64 # 0x69 # 0x74 # r1
      = 0x3E # 0x2D # 0x2D # 0x20 # rev x @ 0x3A # 0x64 # 0x69 # 0x74 # r2"
    using w(3) by (intro span_eq [OF e0, of isSpace]) (simp_all add: space_facts)
  then have e1: "rev w2 @ (rev h @ 0x3A # 0x64 # 0x69 # 0x74 # r1)
      = [0x20] @ (rev x @ 0x3A # 0x64 # 0x69 # 0x74 # r2)"
    by simp
  have hh: "\<not> isSpace (hd (rev h @ t))" for t
    using h by (cases h rule: rev_cases) (auto simp: isHexDigit_not_space)
  have hx: "\<not> isSpace (hd (rev x @ t))" for t
    using assms(3,4) by (cases x rule: rev_cases) (auto simp: isHexDigit_not_space)
  have "rev w2 = [0x20] \<and> rev h @ 0x3A # 0x64 # 0x69 # 0x74 # r1 = rev x @ 0x3A # 0x64 # 0x69 # 0x74 # r2"
    using w(2) hh hx by (intro span_eq [OF e1, of isSpace]) (simp_all add: space_facts)
  then have e2: "rev h @ (0x3A # 0x64 # 0x69 # 0x74 # r1) = rev x @ (0x3A # 0x64 # 0x69 # 0x74 # r2)"
    by simp
  have "rev h = rev x \<and> 0x3A # 0x64 # 0x69 # 0x74 # r1 = 0x3A # 0x64 # 0x69 # 0x74 # r2"
    using h(2) assms(3)
    by (intro span_eq [OF e2, of isHexDigit]) (simp_all add: list_all_iff isHexDigit_def)
  then have hx': "h = x" and e3: "rev w1 @ (0x2D # 0x2D # 0x21 # 0x3C # rev a)
      = [0x20] @ (0x2D # 0x2D # 0x21 # 0x3C # rev z)"
    by (simp_all add: r1_def r2_def)
  have "rev w1 = [0x20] \<and> 0x2D # 0x2D # 0x21 # 0x3C # rev a = 0x2D # 0x2D # 0x21 # 0x3C # rev z"
    using w(1) by (intro span_eq [OF e3, of isSpace]) (simp_all add: space_facts)
  with hx' show ?thesis by simp
qed

lemma searchRe_html_token:
  assumes "6 \<le> length x" and "length x \<le> 32" and "list_all isHexDigit x"
  shows "searchRe htmlTokenAt (z @ taskIdToken x) = Some (length z, x)"
proof (rule searchRe_at)
  show "htmlTokenAt (drop (length z) (z @ taskIdToken x)) = Some x"
    using assms by (simp add: htmlTokenAt_taskIdToken)
  show "length z \<le> length (z @ taskIdToken x)" by simp
  fix j assume j: "j < length z"
  show "htmlTokenAt (drop j (z @ taskIdToken x)) = None"
  proof (cases "htmlTokenAt (drop j (z @ taskIdToken x))")
    case None
    then show ?thesis .
  next
    case (Some h)
    have "take j (z @ taskIdToken x) @ drop j (z @ taskIdToken x) = z @ taskIdToken x"
      by (rule append_take_drop_id)
    moreover have "x \<noteq> []" using assms(1) by auto
    ultimately have "take j (z @ taskIdToken x) = z"
      using html_unique [OF Some _ assms(3)] by blast
    then have "length (take j (z @ taskIdToken x)) = length z" by simp
    with j show ?thesis by simp
  qed
qed

lemma extractTaskId_token:
  assumes "6 \<le> length x" and "length x \<le> 32" and "list_all isHexDigit x"
  shows "extractTaskId (z @ taskIdToken x) = Some x"
  by (simp add: extractTaskId_def searchRe_html_token [OF assms])

lemma cutMatch_html_token:
  assumes "6 \<le> length x" and "length x \<le> 32" and "list_all isHexDigit x"
  shows "cutMatch (\<lambda>s. htmlTokenAt (dropWhile isSpace s)) (z @ taskIdToken x) = trimEnd z"
proof -
  obtain w where w: "z = trimEnd z @ w" "\<forall>c\<in>set w. isSpace c"
    using trimEnd_split [of z] by blast
  let ?y = "trimEnd z"
  have t: "dropWhile isSpace (taskIdToken x) = taskIdToken x"
    using taskIdToken_hd [of x] taskIdToken_last [of x]
    by (cases "taskIdToken x") (auto simp: space_facts)
  have full: "z @ taskIdToken x = ?y @ w @ taskIdToken x" using w(1) by simp
  have "searchRe (\<lambda>s. htmlTokenAt (dropWhile isSpace s)) (z @ taskIdToken x) = Some (length ?y, x)"
  proof (rule searchRe_at)
    have "dropWhile isSpace (w @ taskIdToken x) = dropWhile isSpace (taskIdToken x)"
      using w(2) by (intro dropWhile_append2) simp
    then show "htmlTokenAt (dropWhile isSpace (drop (length ?y) (z @ taskIdToken x))) = Some x"
      using assms by (simp add: full t htmlTokenAt_taskIdToken)
    show "length ?y \<le> length (z @ taskIdToken x)" by (simp add: full)
    fix j assume j: "j < length ?y"
    let ?q = "drop j ?y"
    have q: "?q \<noteq> []" using j by simp
    have lq: "last ?q = last ?y" using j by simp
    have "\<not> isSpace (last ?y)" using trimEnd_last [of z] j by auto
    then have ns2: "\<not> isSpace (last ?q)" unfolding lq .
    have ns1: "last ?q \<in> set ?q" using q by (rule last_in_set)
    note ns = ns1 ns2
    have d: "drop j (z @ taskIdToken x) = ?q @ w @ taskIdToken x"
      using j by (simp add: full)
    have tw: "takeWhile isSpace (?q @ w @ taskIdToken x) = takeWhile isSpace ?q"
      using ns by (rule takeWhile_append1)
    have lt: "length (takeWhile isSpace ?q) < length ?q"
    proof -
      have "length (takeWhile isSpace ?q) \<le> length ?q" by (rule length_takeWhile_le)
      moreover have "takeWhile isSpace ?q \<noteq> ?q"
        using ns by (metis set_takeWhileD)
      moreover have "?q = takeWhile isSpace ?q @ dropWhile isSpace ?q" by simp
      ultimately show ?thesis
        by (metis append_self_conv le_neq_implies_less length_append add_diff_cancel_left' length_0_conv diff_is_0_eq' le_refl)
    qed
    show "htmlTokenAt (dropWhile isSpace (drop j (z @ taskIdToken x))) = None"
    proof (cases "htmlTokenAt (dropWhile isSpace (drop j (z @ taskIdToken x)))")
      case None
      then show ?thesis .
    next
      case (Some h)
      let ?a = "take j (z @ taskIdToken x) @ takeWhile isSpace (drop j (z @ taskIdToken x))"
      have "?a @ dropWhile isSpace (drop j (z @ taskIdToken x)) = z @ taskIdToken x"
        by (simp only: append_assoc takeWhile_dropWhile_id append_take_drop_id)
      moreover have "x \<noteq> []" using assms(1) by auto
      ultimately have "?a = z"
        using html_unique [OF Some _ assms(3)] by blast
      then have "length ?a = length z" by simp
      moreover have yz: "length ?y \<le> length z" using w(1) by (metis length_append le_add1)
      moreover have "length (take j (z @ taskIdToken x)) = j" using j yz by simp
      moreover have "takeWhile isSpace (drop j (z @ taskIdToken x)) = takeWhile isSpace ?q"
        by (simp only: d tw)
      ultimately show ?thesis using lt j by simp
    qed
  qed
  then have "cutMatch (\<lambda>s. htmlTokenAt (dropWhile isSpace s)) (z @ taskIdToken x)
      = take (length ?y) (?y @ w @ taskIdToken x)"
    by (simp add: cutMatch_def full)
  then show ?thesis by simp
qed


subsection \<open>Legacy tokens and plain display texts\<close>

lemma legacy_suffix:
  assumes "legacyTokenAt (dropWhile isSpace (drop j y)) = Some h"
  obtains a w where "y = a @ (js ''{#t:'' @ h @ js ''}'') @ w" and "\<forall>c\<in>set w. isSpace c"
proof -
  from assms obtain w where w: "dropWhile isSpace (drop j y) = js ''{#t:'' @ h @ js ''}'' @ w"
    "\<forall>c\<in>set w. isSpace c"
    by (rule legacyTokenAt_shape)
  have "(take j y @ takeWhile isSpace (drop j y)) @ dropWhile isSpace (drop j y) = y"
    by (simp only: append_assoc takeWhile_dropWhile_id append_take_drop_id)
  then have "y = (take j y @ takeWhile isSpace (drop j y)) @ (js ''{#t:'' @ h @ js ''}'') @ w"
    by (simp only: w(1) append_assoc)
  then show thesis using w(2) by (rule that)
qed

lemma legacy_token_chars:
  assumes "list_all isHexDigit h"
  shows "\<forall>c\<in>set (js ''{#t:'' @ h @ js ''}''). \<not> isSpace c \<and> c \<noteq> 0x270D"
proof
  fix c assume "c \<in> set (js ''{#t:'' @ h @ js ''}'')"
  then consider "c \<in> set h" | "c \<in> set (js ''{#t:'') \<union> set (js ''}'')" by auto
  then show "\<not> isSpace c \<and> c \<noteq> 0x270D"
  proof cases
    case 1
    with assms have x: "isHexDigit c" by (simp add: list_all_iff)
    then have "c \<noteq> 0x270D" by (auto simp: isHexDigit_def word_le_nat_alt)
    with x show ?thesis by (simp add: isHexDigit_not_space)
  next
    case 2
    then show ?thesis
      by (auto simp: js_def isSpace_def isWhiteSpace_def isLineTerminator_def)
  qed
qed

lemma cutMatch_None:
  assumes "\<And>j. j \<le> length y \<Longrightarrow> m (drop j y) = None"
  shows "cutMatch m y = y"
  using searchRe_NoneI [of y m] assms by (simp add: cutMatch_def)

lemma legacy_none_digit:
  assumes "y \<noteq> []" and "isDigit (last y)"
  shows "legacyTokenAt (dropWhile isSpace (drop j y)) = None"
proof (cases "legacyTokenAt (dropWhile isSpace (drop j y))")
  case None
  then show ?thesis .
next
  case (Some h)
  then obtain a w where y: "y = a @ (js ''{#t:'' @ h @ js ''}'') @ w" and w: "\<forall>c\<in>set w. isSpace c"
    by (rule legacy_suffix)
  have "last y = 0x7D \<or> isSpace (last y)"
  proof (cases "w = []")
    case True
    then have "last (a @ (js ''{#t:'' @ h @ js ''}'') @ w) = 0x7D" by (simp add: js_def)
    then show ?thesis by (subst y, subst y) simp
  next
    case False
    then have "last (a @ (js ''{#t:'' @ h @ js ''}'') @ w) = last w" by simp
    moreover have "isSpace (last w)" using False w by simp
    ultimately have "isSpace (last (a @ (js ''{#t:'' @ h @ js ''}'') @ w))" by simp
    then have "isSpace (last y)" by (subst y)
    then show ?thesis by simp
  qed
  with assms(2) isDigit_not_space [of "last y"] show ?thesis by (auto simp: isDigit_def)
qed

lemma legacy_none_reason:
  assumes "searchRe legacyTokenAt r = None" and "r \<noteq> []" and "\<not> isSpace (last r)"
  shows "legacyTokenAt (dropWhile isSpace (drop j (q @ reasonMarker @ r))) = None"
proof (cases "legacyTokenAt (dropWhile isSpace (drop j (q @ reasonMarker @ r)))")
  case None
  then show ?thesis .
next
  case (Some h)
  let ?tok = "js ''{#t:'' @ h @ js ''}''"
  from Some obtain a w where y: "q @ reasonMarker @ r = a @ ?tok @ w" and w: "\<forall>c\<in>set w. isSpace c"
    by (rule legacy_suffix)
  from Some have hv: "6 \<le> length h" "length h \<le> 32" "list_all isHexDigit h"
    using legacyTokenAt_id [of _ h] by auto
  have tc: "\<forall>c\<in>set ?tok. \<not> isSpace c \<and> c \<noteq> 0x270D" using hv(3) by (rule legacy_token_chars)
  have hd: "hd ?tok = 0x7B" by (simp add: js_def)
  have "w = []"
  proof (rule ccontr)
    assume "w \<noteq> []"
    then have "last (a @ ?tok @ w) = last w" by simp
    then have "last (q @ reasonMarker @ r) = last w" by (simp only: y)
    then have "last r = last w" using assms(2) by simp
    with \<open>w \<noteq> []\<close> w assms(3) show False by simp
  qed
  with y have e: "(q @ reasonMarker) @ r = a @ ?tok" by simp
  from append_eq_append_conv2 [THEN iffD1, OF e]
  obtain u where "(q @ reasonMarker = a @ u \<and> u @ r = ?tok) \<or> ((q @ reasonMarker) @ u = a \<and> r = u @ ?tok)"
    by blast
  then show ?thesis
  proof
    assume "(q @ reasonMarker) @ u = a \<and> r = u @ ?tok"
    then have "legacyTokenAt (drop (length u) r) = Some h"
      using hv by (simp add: legacyTokenAt_token)
    moreover have "length u \<le> length r" using \<open>(q @ reasonMarker) @ u = a \<and> r = u @ ?tok\<close>
      by (metis length_append le_add1)
    ultimately show ?thesis using searchRe_NoneD [OF assms(1), of "length u"] by simp
  next
    assume a: "q @ reasonMarker = a @ u \<and> u @ r = ?tok"
    then have "q @ reasonMarker = a @ u" by simp
    from append_eq_append_conv2 [THEN iffD1, OF this]
    obtain v where "(q = a @ v \<and> v @ reasonMarker = u) \<or> (q @ v = a \<and> reasonMarker = v @ u)"
      by blast
    then show ?thesis
    proof
      assume "q = a @ v \<and> v @ reasonMarker = u"
      with a have "?tok = v @ reasonMarker @ r" by auto
      then have "0x270D \<in> set ?tok" by (simp only: reasonMarker_def) simp
      with tc show ?thesis by blast
    next
      assume b: "q @ v = a \<and> reasonMarker = v @ u"
      show ?thesis
      proof (cases u)
        case Nil
        with a have "r = ?tok" by simp
        then have "legacyTokenAt (drop 0 r) = Some h" using hv by (simp add: legacyTokenAt_token)
        with searchRe_NoneD [OF assms(1), of 0] show ?thesis by simp
      next
        case (Cons c u')
        with a have "hd ?tok = c" by (metis append_Cons list.sel(1))
        with hd have "c = 0x7B" by simp
        moreover from b Cons have "c \<in> set reasonMarker" by (metis in_set_conv_decomp)
        ultimately show ?thesis by (simp add: reasonMarker_def js_def)
      qed
    qed
  qed
qed

lemma containsIdToken_intro:
  assumes "t = a @ u @ b" and "htmlTokenAt u \<noteq> None \<or> legacyTokenAt u \<noteq> None"
  shows "containsIdToken t"
proof -
  have "drop (length a) t = u @ b" using assms(1) by simp
  moreover have "take (length u) (u @ b) = u" by simp
  moreover have "length u \<in> set [0..<Suc (length (u @ b))]" by simp
  ultimately have "list_ex (\<lambda>n. htmlTokenAt (take n (drop (length a) t)) \<noteq> None
        \<or> legacyTokenAt (take n (drop (length a) t)) \<noteq> None) [0..<Suc (length (drop (length a) t))]"
    using assms(2) unfolding list_ex_iff by (metis (mono_tags, lifting))
  moreover have "length a \<le> length t" using assms(1) by simp
  ultimately show ?thesis unfolding containsIdToken_def anySuffix_iff by blast
qed

lemma plain_no_html:
  assumes "\<not> containsIdToken t"
  shows "htmlTokenAt (dropWhile isSpace (drop j t)) = None"
proof (rule ccontr)
  assume n: "htmlTokenAt (dropWhile isSpace (drop j t)) \<noteq> None"
  have "(take j t @ takeWhile isSpace (drop j t)) @ dropWhile isSpace (drop j t) = t"
    by (simp only: append_assoc takeWhile_dropWhile_id append_take_drop_id)
  then have "t = (take j t @ takeWhile isSpace (drop j t)) @ dropWhile isSpace (drop j t) @ []"
    by simp
  from containsIdToken_intro [OF this] n assms show False by blast
qed

lemma plain_no_legacy:
  assumes "\<not> containsIdToken t"
  shows "legacyTokenAt (dropWhile isSpace (drop j t)) = None"
proof (rule ccontr)
  assume n: "legacyTokenAt (dropWhile isSpace (drop j t)) \<noteq> None"
  have "(take j t @ takeWhile isSpace (drop j t)) @ dropWhile isSpace (drop j t) = t"
    by (simp only: append_assoc takeWhile_dropWhile_id append_take_drop_id)
  then have "t = (take j t @ takeWhile isSpace (drop j t)) @ dropWhile isSpace (drop j t) @ []"
    by simp
  from containsIdToken_intro [OF this] n assms show False by blast
qed

lemma normal_no_legacy:
  assumes "\<not> containsIdToken t"
  shows "legacyTokenAt (dropWhile isSpace (drop j (trim (collapseSpaces t)))) = None"
proof (cases "legacyTokenAt (dropWhile isSpace (drop j (trim (collapseSpaces t))))")
  case None
  then show ?thesis .
next
  case (Some h)
  let ?tok = "js ''{#t:'' @ h @ js ''}''"
  from Some obtain a w where "trim (collapseSpaces t) = a @ ?tok @ w"
    by (rule legacy_suffix)
  then have "occursIn ?tok (trim (collapseSpaces t))" unfolding occursIn_iff by blast
  then have "occursIn ?tok (collapseSpaces t)" by (rule occursIn_trim)
  moreover from Some have hv: "6 \<le> length h" "length h \<le> 32" "list_all isHexDigit h"
    using legacyTokenAt_id [of _ h] by auto
  moreover have "?tok \<noteq> []" by (simp add: js_def)
  moreover have "\<forall>c\<in>set ?tok. \<not> isSpace c" using legacy_token_chars [OF hv(3)] by blast
  ultimately have "occursIn ?tok t" using occursIn_collapseSpaces [of ?tok t] by blast
  then obtain a' b' where "t = a' @ ?tok @ b'" unfolding occursIn_iff by blast
  moreover have "legacyTokenAt ?tok \<noteq> None" using hv by (simp add: legacyTokenAt_token)
  ultimately have "containsIdToken t" using containsIdToken_intro by blast
  with assms show ?thesis by simp
qed

lemma marker_facts:
  "estMarker \<noteq> []" "\<forall>c\<in>set estMarker. \<not> isSpace c" "hd estMarker = 0x23F3"
  "actMarker \<noteq> []" "\<forall>c\<in>set actMarker. \<not> isSpace c" "hd actMarker = 0x231B"
  "reasonMarker \<noteq> []" "\<forall>c\<in>set reasonMarker. \<not> isSpace c"
  "\<forall>c\<in>set (0x270D # js ''reason:''). \<not> isSpace c"
  by (simp_all add: estMarker_def actMarker_def reasonMarker_def js_def isSpace_def isWhiteSpace_def
      isLineTerminator_def)

lemma no_marker_metaToken:
  "\<not> occursIn m s \<Longrightarrow> metaTokenAt m (drop j s) = None"
  by (simp add: metaTokenAt_lit occursIn_lit)

lemma no_marker_reason:
  "\<not> occursIn reasonMarker s \<Longrightarrow> \<not> occursIn (0x270D # js ''reason:'') s \<Longrightarrow> reasonAt (drop j s) = None"
  by (simp add: reasonAt_lit occursIn_lit)

lemma parseMeta_plain:
  assumes "\<not> hasReservedToken text"
  shows "parseMeta text
     = \<lparr>estMin = None, actMin = None, reason = [], cleanedText = trim (collapseSpaces text)\<rparr>"
proof -
  from assms have t: "\<not> occursIn estMarker text" "\<not> occursIn actMarker text"
    "\<not> occursIn reasonMarker text" "\<not> occursIn (0x270D # js ''reason:'') text"
    "\<not> containsIdToken text"
    by (simp_all add: hasReservedToken_def)
  have c1: "cutMatch (\<lambda>s. htmlTokenAt (dropWhile isSpace s)) text = text"
    by (rule cutMatch_None) (rule plain_no_html [OF t(5)])
  have c2: "cutMatch (\<lambda>s. legacyTokenAt (dropWhile isSpace s)) text = text"
    by (rule cutMatch_None) (rule plain_no_legacy [OF t(5)])
  have s: "stripTaskIdToken text = trim text"
    by (simp add: stripTaskIdToken_def c1 c2)
  have o: "\<not> occursIn estMarker (trim text)" "\<not> occursIn actMarker (trim text)"
    "\<not> occursIn reasonMarker (trim text)" "\<not> occursIn (0x270D # js ''reason:'') (trim text)"
    using t occursIn_trim by blast+
  have e: "searchBounded True (metaTokenAt estMarker) (trim text) = None"
    by (rule searchBounded_None) (rule no_marker_metaToken [OF o(1)])
  have re: "replaceMetaTokens estMarker True (trim text) = trim text"
    by (rule replaceMetaTokens_None) (rule no_marker_metaToken [OF o(1)])
  have a: "searchBounded True (metaTokenAt actMarker) (trim text) = None"
    by (rule searchBounded_None) (rule no_marker_metaToken [OF o(2)])
  have ra: "replaceMetaTokens actMarker True (trim text) = trim text"
    by (rule replaceMetaTokens_None) (rule no_marker_metaToken [OF o(2)])
  have r: "searchBounded True reasonAt (trim text) = None"
    by (rule searchBounded_None) (rule no_marker_reason [OF o(3,4)])
  have n: "trim (collapseSpaces (trim text)) = trim (collapseSpaces text)"
    by (simp add: collapseSpaces_trim trim_idem)
  show ?thesis
    by (simp add: parseMeta_def metaValue_def Let_def s e re a ra r n)
qed

subsection \<open>The metadata of a serialised line\<close>

lemma decimal_chars:
  "decimal n \<noteq> []" "\<forall>c\<in>set (decimal n). \<not> isSpace c" "isDigit (last (decimal n))"
  "\<forall>c\<in>set (decimal n). isDigit c"
proof -
  from decimal_digits [of n] show ne: "decimal n \<noteq> []" and d: "\<forall>c\<in>set (decimal n). isDigit c"
    by (simp_all add: list_all_iff)
  from d show "\<forall>c\<in>set (decimal n). \<not> isSpace c" by (auto dest: isDigit_not_space)
  from ne d show "isDigit (last (decimal n))" by simp
qed

lemma metaValue_decimal:
  assumes "searchBounded True (metaTokenAt m) s = Some (i, w, decimal n, t)" and "n < 2 ^ 53"
  shows "metaValue m s = Some (Fin (of_nat n))"
  using assms by (simp add: metaValue_def Number_decimal isInteger_nat geZero_nat)

lemma stage_number:
  assumes "m \<noteq> []" and "\<forall>c\<in>set m. \<not> isSpace c" and "\<not> occursIn m q" and "\<not> occursIn m t"
    and "t = [] \<or> hd t = 0x20" and "n < 2 ^ 53"
  shows "metaValue m (if q = [] then m @ decimal n @ t else q @ 0x20 # m @ decimal n @ t)
      = Some (Fin (of_nat n))"
    and "replaceMetaTokens m True (if q = [] then m @ decimal n @ t else q @ 0x20 # m @ decimal n @ t)
      = q @ 0x20 # t"
proof -
  have sp: "0x20 \<notin> set m" using assms(2) by (auto simp: space_facts)
  have "t = [] \<or> isSpace (hd t)" using assms(5) by (auto simp: space_facts)
  then have tok: "metaTokenAt m (m @ decimal n @ t) = Some (decimal n, t)"
    using decimal_chars(1,2) [of n] by (intro metaTokenAt_token) simp_all
  have rt: "replaceMetaTokens m False t = t"
    by (rule replaceMetaTokens_None) (rule no_marker_metaToken [OF assms(4)])
  have pre: "metaTokenAt m (drop j (q @ 0x20 # m @ decimal n @ t)) = None" if "j \<le> length q" for j
    using lit_before_sep [OF assms(3,1) sp that] by (rule metaTokenAt_lit)
  show "metaValue m (if q = [] then m @ decimal n @ t else q @ 0x20 # m @ decimal n @ t)
      = Some (Fin (of_nat n))"
  proof (cases "q = []")
    case True
    with searchBounded_start [of "metaTokenAt m", OF tok] assms(6) show ?thesis
      by (simp add: metaValue_decimal)
  next
    case False
    with searchBounded_skip [of q "metaTokenAt m", OF pre tok] assms(6) show ?thesis
      by (simp add: metaValue_decimal)
  qed
  show "replaceMetaTokens m True (if q = [] then m @ decimal n @ t else q @ 0x20 # m @ decimal n @ t)
      = q @ 0x20 # t"
  proof (cases "q = []")
    case True
    with replaceMetaTokens_start [of m, OF tok] rt show ?thesis by simp
  next
    case False
    with replaceMetaTokens_skip [of q m, OF pre tok] rt show ?thesis by simp
  qed
qed

lemma stage_absent:
  assumes "\<not> occursIn m s"
  shows "metaValue m s = None" and "replaceMetaTokens m True s = s"
proof -
  have "searchBounded True (metaTokenAt m) s = None"
    by (rule searchBounded_None) (rule no_marker_metaToken [OF assms])
  then show "metaValue m s = None" by (simp add: metaValue_def)
  show "replaceMetaTokens m True s = s"
    by (rule replaceMetaTokens_None) (rule no_marker_metaToken [OF assms])
qed

lemma stage_reason:
  assumes "\<not> occursIn reasonMarker q" and "\<not> occursIn (0x270D # js ''reason:'') q"
    and "\<not> list_ex isLineTerminator r"
  shows "\<exists>w. searchBounded True reasonAt (if q = [] then reasonMarker @ r else q @ 0x20 # reasonMarker @ r)
      = Some (length q, w, r)"
proof -
  have tok: "reasonAt (reasonMarker @ r) = Some r" using assms(3) by (rule reasonAt_marker)
  have pre: "reasonAt (drop j (q @ 0x20 # reasonMarker @ r)) = None" if "j \<le> length q" for j
  proof (rule reasonAt_lit)
    show "lit reasonMarker (drop j (q @ 0x20 # reasonMarker @ r)) = None"
      using marker_facts(7,8) assms(1) that by (intro lit_before_sep) (auto simp: space_facts)
    show "lit (0x270D # js ''reason:'') (drop j (q @ 0x20 # reasonMarker @ r)) = None"
      using marker_facts(9) assms(2) that by (intro lit_before_sep) (auto simp: space_facts)
  qed
  show ?thesis
  proof (cases "q = []")
    case True
    with searchBounded_start [of reasonAt, OF tok] show ?thesis by simp
  next
    case False
    with searchBounded_skip [of q reasonAt, OF pre tok] show ?thesis by simp
  qed
qed

lemma stage_no_reason:
  assumes "\<not> occursIn reasonMarker q" and "\<not> occursIn (0x270D # js ''reason:'') q"
  shows "searchBounded True reasonAt q = None"
  by (rule searchBounded_None) (rule no_marker_reason [OF assms])

lemma occursIn_tl: "\<not> occursIn m s \<Longrightarrow> \<not> occursIn m (tl s)"
proof (cases s)
  case Nil
  then show "\<not> occursIn m s \<Longrightarrow> \<not> occursIn m (tl s)" by simp
next
  case (Cons c cs)
  assume n: "\<not> occursIn m s"
  show "\<not> occursIn m (tl s)"
  proof
    assume "occursIn m (tl s)"
    with Cons have "occursIn m cs" by simp
    from occursIn_sub [OF this, of "[c]" "[]"] Cons n show False by simp
  qed
qed

lemma occursIn_token:
  assumes "m \<noteq> []" and "\<forall>c\<in>set m. \<not> isSpace c" and "hd m \<notin> set p" and "\<not> occursIn m t"
  shows "\<not> occursIn m (0x20 # p @ t)"
proof
  assume "occursIn m (0x20 # p @ t)"
  moreover have "0x20 \<notin> set m" using assms(2) by (auto simp: space_facts)
  ultimately have "occursIn m (p @ t)" using assms(1) occursIn_Cons by blast
  with assms(1,3) have "occursIn m t" by (rule occursIn_skip)
  with assms(4) show False by simp
qed

lemma occursIn_joined:
  assumes "m \<noteq> []" and "\<forall>c\<in>set m. \<not> isSpace c" and "\<not> occursIn m q" and "\<not> occursIn m t"
    and "t = [] \<or> hd t = 0x20"
  shows "\<not> occursIn m (if q = [] then tl t else q @ t)"
proof (cases "q = []")
  case True
  with assms(4) show ?thesis by (simp add: occursIn_tl)
next
  case False
  have sp: "0x20 \<notin> set m" using assms(2) by (auto simp: space_facts)
  show ?thesis
  proof (cases t)
    case Nil
    with False assms(3) show ?thesis by simp
  next
    case (Cons c cs)
    with assms(5) have c: "c = 0x20" by simp
    have "\<not> occursIn m cs" using occursIn_tl [OF assms(4)] Cons by simp
    with assms(3) occursIn_sep [OF assms(1) sp, of q cs] have "\<not> occursIn m (q @ 0x20 # cs)" by blast
    with False Cons c show ?thesis by simp
  qed
qed

lemma join_snoc: "ps \<noteq> [] \<Longrightarrow> join sep (ps @ [p]) = join sep ps @ sep @ p"
  by (induction sep ps rule: join.induct) simp_all


lemma serialised_line:
  assumes "y = [] \<or> (\<not> isSpace (hd y) \<and> \<not> isSpace (last y))"
    and "\<forall>c\<in>set y. \<not> isLineTerminator c"
    and "6 \<le> length x" and "length x \<le> 32" and "list_all isHexDigit x"
    and "m = 0x20 \<or> m = 0x78 \<or> m = 0x58"
    and "rest = (if y = [] then taskIdToken x else y @ 0x20 # taskIdToken x)"
  shows "taskMatch ([0x2D, 0x20, 0x5B, m, 0x5D] @ 0x20 # rest) = Some (m, rest)"
    and "trim rest = rest"
    and "extractTaskId rest = Some x"
    and "hasCanonicalTaskId rest"
    and "cutMatch (\<lambda>s. htmlTokenAt (dropWhile isSpace s)) rest = y"
    and "0x0A \<notin> set ([0x2D, 0x20, 0x5B, m, 0x5D] @ 0x20 # rest)"
proof -
  let ?tok = "taskIdToken x"
  have ne: "rest \<noteq> []" using assms(7) taskIdToken_last [of x] by auto
  have hd: "\<not> isSpace (hd rest)"
    using assms(1,7) taskIdToken_hd [of x] by (cases y) (auto simp: space_facts)
  have last: "\<not> isSpace (last rest)"
    using assms(7) taskIdToken_last [of x] by (auto simp: space_facts)
  have lt: "\<not> isLineTerminator c" if "c \<in> set rest" for c
  proof -
    from that assms(7) consider "c \<in> set y" | "c = 0x20" | "c \<in> set ?tok"
      by (auto split: if_splits)
    then show ?thesis
    proof cases
      case 1
      with assms(2) show ?thesis by simp
    next
      case 2
      then show ?thesis by (simp add: isLineTerminator_def)
    next
      case 3
      with assms(5) show ?thesis by (rule taskIdToken_no_terminator)
    qed
  qed
  have dw: "dropWhile isSpace (0x20 # rest) = rest"
    using ne hd by (cases rest) (auto simp: space_facts)
  have nl: "\<not> list_ex isLineTerminator (dropWhile isSpace (0x20 # rest))"
    unfolding dw using lt by (simp add: list_ex_iff)
  have "taskMatch ([] @ 0x2D # [0x20] @ 0x5B # m # 0x5D # 0x20 # rest)
      = Some (m, dropWhile isSpace (0x20 # rest))"
    using assms(6) nl
    by (intro taskMatch_build) (simp_all add: space_facts)
  then have "taskMatch ([] @ 0x2D # [0x20] @ 0x5B # m # 0x5D # 0x20 # rest) = Some (m, rest)"
    by (simp only: dw)
  then show "taskMatch ([0x2D, 0x20, 0x5B, m, 0x5D] @ 0x20 # rest) = Some (m, rest)"
    by simp
  show "trim rest = rest" using ne hd last by (rule trim_id)
  define z where "z = (if y = [] then [] else y @ [0x20])"
  have rz: "rest = z @ ?tok" using assms(7) by (simp add: z_def)
  show "extractTaskId rest = Some x"
    unfolding rz using assms(3-5) by (rule extractTaskId_token)
  show "hasCanonicalTaskId rest"
    unfolding rz using assms(3-5) by (rule hasCanonicalTaskId_token)
  have "trimEnd z = y"
  proof (cases "y = []")
    case True
    then show ?thesis by (simp add: z_def trimEnd_def)
  next
    case False
    with assms(1) have "trimEnd (y @ [0x20]) = y @ trimEnd [0x20]"
      by (intro trimEnd_append) simp_all
    with False show ?thesis by (simp add: z_def trimEnd_def space_facts)
  qed
  then show "cutMatch (\<lambda>s. htmlTokenAt (dropWhile isSpace s)) rest = y"
    unfolding rz using cutMatch_html_token [OF assms(3-5), of z] by simp
  have "0x0A \<notin> set rest" using lt [of "0x0A"] by (auto simp: isLineTerminator_def)
  then show "0x0A \<notin> set ([0x2D, 0x20, 0x5B, m, 0x5D] @ 0x20 # rest)"
    using assms(6) by auto
qed

lemma parseTasks_single:
  assumes "taskMatch line = Some (m, rest)" and "trim rest = rest" and "extractTaskId rest = Some x"
    and "hasCanonicalTaskId rest" and "0x0A \<notin> set line"
  shows "parseTasks ent k line
     = ([\<lparr>estMin = estMin (parseMeta rest), actMin = actMin (parseMeta rest),
          reason = reason (parseMeta rest), taskId = x, lineIndex = 0,
          taskText = cleanedText (parseMeta rest), taskDone = isChecked m, hasId = True\<rparr>], k)"
  using assms by (simp add: parseTasks_def split_nl_single Let_def)


lemma buildTaskLine_shape:
  fixes est act :: "nat option"
  assumes "\<not> hasReservedToken text"
    and "\<And>n. est = Some n \<Longrightarrow> n < 2 ^ 53" and "\<And>n. act = Some n \<Longrightarrow> n < 2 ^ 53"
  shows "buildTaskLine checked text
       \<lparr>estMin = map_option (\<lambda>n. Fin (of_nat n)) est, actMin = map_option (\<lambda>n. Fin (of_nat n)) act,
        reason = rsn\<rparr> ident
     = [0x2D, 0x20, 0x5B, if checked then 0x78 else 0x20, 0x5D]
       @ (if trim (collapseSpaces text) = [] then [] else 0x20 # trim (collapseSpaces text))
       @ (case est of None \<Rightarrow> [] | Some n \<Rightarrow> 0x20 # estMarker @ decimal n)
       @ (case act of None \<Rightarrow> [] | Some n \<Rightarrow> 0x20 # actMarker @ decimal n)
       @ (if trim rsn = [] then [] else 0x20 # reasonMarker @ trim rsn)
       @ 0x20 # taskIdToken ident"
proof -
  have c: "js ''- ['' @ (if checked then js ''x'' else js '' '') @ js '']''
      = [0x2D, 0x20, 0x5B, if checked then 0x78 else 0x20, 0x5D]"
    by (simp add: js_def)
  have s: "js '' '' = [0x20]" by (simp add: js_def)
  show ?thesis
  proof (cases est)
    case None
    show ?thesis
    proof (cases act)
      case None
      with \<open>est = None\<close> show ?thesis
        by (simp add: buildTaskLine_def Let_def parseMeta_plain [OF assms(1)] c s)
    next
      case (Some a)
      with \<open>est = None\<close> assms(3) [of a] show ?thesis
        by (simp add: buildTaskLine_def Let_def parseMeta_plain [OF assms(1)] c s numToString_nat)
    qed
  next
    case (Some e)
    show ?thesis
    proof (cases act)
      case None
      with \<open>est = Some e\<close> assms(2) [of e] show ?thesis
        by (simp add: buildTaskLine_def Let_def parseMeta_plain [OF assms(1)] c s numToString_nat)
    next
      case (Some a)
      with \<open>est = Some e\<close> assms(2) [of e] assms(3) [of a] show ?thesis
        by (simp add: buildTaskLine_def Let_def parseMeta_plain [OF assms(1)] c s numToString_nat)
    qed
  qed
qed


lemma number_step:
  fixes v :: "nat option"
  assumes "m \<noteq> []" and "\<forall>c\<in>set m. \<not> isSpace c" and "\<not> occursIn m q" and "\<not> occursIn m t"
    and "t = [] \<or> hd t = 0x20" and "\<And>n. v = Some n \<Longrightarrow> n < 2 ^ 53"
  shows "metaValue m (if q = [] then tl ((case v of None \<Rightarrow> [] | Some n \<Rightarrow> 0x20 # m @ decimal n) @ t)
                      else q @ (case v of None \<Rightarrow> [] | Some n \<Rightarrow> 0x20 # m @ decimal n) @ t)
      = map_option (\<lambda>n. Fin (of_nat n)) v"
    and "replaceMetaTokens m True
          (if q = [] then tl ((case v of None \<Rightarrow> [] | Some n \<Rightarrow> 0x20 # m @ decimal n) @ t)
           else q @ (case v of None \<Rightarrow> [] | Some n \<Rightarrow> 0x20 # m @ decimal n) @ t)
      = (if (case v of None \<Rightarrow> q | Some n \<Rightarrow> q @ [0x20]) = [] then tl t
         else (case v of None \<Rightarrow> q | Some n \<Rightarrow> q @ [0x20]) @ t)"
proof -
  show "metaValue m (if q = [] then tl ((case v of None \<Rightarrow> [] | Some n \<Rightarrow> 0x20 # m @ decimal n) @ t)
                      else q @ (case v of None \<Rightarrow> [] | Some n \<Rightarrow> 0x20 # m @ decimal n) @ t)
      = map_option (\<lambda>n. Fin (of_nat n)) v"
  proof (cases v)
    case None
    have "\<not> occursIn m (if q = [] then tl t else q @ t)"
      using assms(1-5) by (rule occursIn_joined)
    from stage_absent(1) [OF this] None show ?thesis by (cases "q = []") simp_all
  next
    case (Some n)
    from stage_number(1) [OF assms(1-5) assms(6) [OF Some]] Some show ?thesis by (cases "q = []") simp_all
  qed
  show "replaceMetaTokens m True
          (if q = [] then tl ((case v of None \<Rightarrow> [] | Some n \<Rightarrow> 0x20 # m @ decimal n) @ t)
           else q @ (case v of None \<Rightarrow> [] | Some n \<Rightarrow> 0x20 # m @ decimal n) @ t)
      = (if (case v of None \<Rightarrow> q | Some n \<Rightarrow> q @ [0x20]) = [] then tl t
         else (case v of None \<Rightarrow> q | Some n \<Rightarrow> q @ [0x20]) @ t)"
  proof (cases v)
    case None
    have "\<not> occursIn m (if q = [] then tl t else q @ t)"
      using assms(1-5) by (rule occursIn_joined)
    from stage_absent(2) [OF this] None show ?thesis by (cases "q = []") simp_all
  next
    case (Some n)
    from stage_number(2) [OF assms(1-5) assms(6) [OF Some]] Some show ?thesis by (cases "q = []") simp_all
  qed
qed

lemma reason_step:
  assumes "\<not> occursIn reasonMarker q" and "\<not> occursIn (0x270D # js ''reason:'') q"
    and "\<not> list_ex isLineTerminator r" and "trim r = r"
    and "trim (collapseSpaces q) = b" and "trim (collapseSpaces (trim q)) = b"
  shows "(case (case searchBounded True reasonAt
                   (if q = [] then tl (if r = [] then [] else 0x20 # reasonMarker @ r)
                    else q @ (if r = [] then [] else 0x20 # reasonMarker @ r)) of
                None \<Rightarrow> ([], if q = [] then tl (if r = [] then [] else 0x20 # reasonMarker @ r)
                              else q @ (if r = [] then [] else 0x20 # reasonMarker @ r))
              | Some (i, w, v) \<Rightarrow>
                  (trim v, trim (take i (if q = [] then tl (if r = [] then [] else 0x20 # reasonMarker @ r)
                                         else q @ (if r = [] then [] else 0x20 # reasonMarker @ r)))))
          of (rsn, cleaned) \<Rightarrow> (rsn, trim (collapseSpaces cleaned)))
     = (r, b)"
proof (cases "r = []")
  case True
  have "searchBounded True reasonAt q = None"
    using assms(1,2) by (rule stage_no_reason)
  with True assms(5) show ?thesis by (cases "q = []") simp_all
next
  case False
  from stage_reason [OF assms(1-3)] obtain w where
    "searchBounded True reasonAt (if q = [] then reasonMarker @ r else q @ 0x20 # reasonMarker @ r)
      = Some (length q, w, r)" by blast
  with False assms(4,6) show ?thesis by (cases "q = []") simp_all
qed


lemma digit_not_marker: "isDigit c \<Longrightarrow> c \<noteq> 0x23F3 \<and> c \<noteq> 0x231B"
  by (auto simp: isDigit_def word_le_nat_alt)

lemma parseMeta_serialised:
  fixes est act :: "nat option"
  assumes plain: "\<not> hasReservedToken text"
    and est: "\<And>n. est = Some n \<Longrightarrow> n < 2 ^ 53" and act: "\<And>n. act = Some n \<Longrightarrow> n < 2 ^ 53"
    and r: "trim r = r" "\<not> list_ex isLineTerminator r" "\<not> occursIn estMarker r" "\<not> occursIn actMarker r"
    and strip: "stripTaskIdToken rest
      = (if trim (collapseSpaces text) = []
         then tl ((case est of None \<Rightarrow> [] | Some n \<Rightarrow> 0x20 # estMarker @ decimal n)
                  @ (case act of None \<Rightarrow> [] | Some n \<Rightarrow> 0x20 # actMarker @ decimal n)
                  @ (if r = [] then [] else 0x20 # reasonMarker @ r))
         else trim (collapseSpaces text)
              @ (case est of None \<Rightarrow> [] | Some n \<Rightarrow> 0x20 # estMarker @ decimal n)
              @ (case act of None \<Rightarrow> [] | Some n \<Rightarrow> 0x20 # actMarker @ decimal n)
              @ (if r = [] then [] else 0x20 # reasonMarker @ r))"
  shows "parseMeta rest
     = \<lparr>estMin = map_option (\<lambda>n. Fin (of_nat n)) est, actMin = map_option (\<lambda>n. Fin (of_nat n)) act,
        reason = r, cleanedText = trim (collapseSpaces text)\<rparr>"
proof -
  define b where "b = trim (collapseSpaces text)"
  define tR where "tR = (if r = [] then [] else 0x20 # reasonMarker @ r)"
  define tA where "tA = (case act of None \<Rightarrow> [] | Some n \<Rightarrow> 0x20 # actMarker @ decimal n)"
  define q1 where "q1 = (case est of None \<Rightarrow> b | Some n \<Rightarrow> b @ [0x20])"
  define q2 where "q2 = (case act of None \<Rightarrow> q1 | Some n \<Rightarrow> q1 @ [0x20])"
  define y0 where "y0 = (if b = [] then tl ((case est of None \<Rightarrow> [] | Some n \<Rightarrow> 0x20 # estMarker @ decimal n) @ tA @ tR)
      else b @ (case est of None \<Rightarrow> [] | Some n \<Rightarrow> 0x20 # estMarker @ decimal n) @ tA @ tR)"
  define y1 where "y1 = (if q1 = [] then tl ((case act of None \<Rightarrow> [] | Some n \<Rightarrow> 0x20 # actMarker @ decimal n) @ tR)
      else q1 @ (case act of None \<Rightarrow> [] | Some n \<Rightarrow> 0x20 # actMarker @ decimal n) @ tR)"
  define y2 where "y2 = (if q2 = [] then tl (if r = [] then [] else 0x20 # reasonMarker @ r)
      else q2 @ (if r = [] then [] else 0x20 # reasonMarker @ r))"
  from plain have t: "\<not> occursIn estMarker text" "\<not> occursIn actMarker text"
    "\<not> occursIn reasonMarker text" "\<not> occursIn (0x270D # js ''reason:'') text"
    by (simp_all add: hasReservedToken_def)
  have ob: "\<not> occursIn estMarker (b @ replicate n 0x20)" "\<not> occursIn actMarker (b @ replicate n 0x20)"
    "\<not> occursIn reasonMarker (b @ replicate n 0x20)"
    "\<not> occursIn (0x270D # js ''reason:'') (b @ replicate n 0x20)" for n
    unfolding b_def
    using t marker_facts by (simp_all add: occursIn_normal)
  have nb: "trim (collapseSpaces (b @ replicate n 0x20)) = b" for n
    unfolding b_def by (rule normal_padded)
  have tb: "trim (b @ replicate n 0x20) = b" for n
    unfolding b_def using trim_ends [of "collapseSpaces text"] by (rule trim_padded)
  obtain n1 where n1: "q1 = b @ replicate n1 0x20"
  proof (cases est)
    case None
    then have "q1 = b @ replicate 0 0x20" by (simp add: q1_def)
    then show ?thesis by (rule that)
  next
    case (Some a)
    then have "q1 = b @ replicate 1 0x20" by (simp add: q1_def)
    then show ?thesis by (rule that)
  qed
  obtain n2 where n2: "q2 = b @ replicate n2 0x20"
  proof (cases act)
    case None
    with n1 have "q2 = b @ replicate n1 0x20" by (simp add: q2_def)
    then show ?thesis by (rule that)
  next
    case (Some a)
    with n1 have "q2 = b @ replicate (Suc n1) 0x20" by (simp add: q2_def replicate_append_same)
    then show ?thesis by (rule that)
  qed
  have hR: "tR = [] \<or> hd tR = 0x20" by (simp add: tR_def)
  have hA: "tA @ tR = [] \<or> hd (tA @ tR) = 0x20"
    using hR by (cases act) (auto simp: tA_def)
  have eR: "\<not> occursIn estMarker tR"
  proof (cases "r = []")
    case True
    then show ?thesis by (simp add: tR_def occursIn_Nil marker_facts)
  next
    case False
    have "\<not> occursIn estMarker (0x20 # reasonMarker @ r)"
      using marker_facts(1,2) _ r(3)
      by (rule occursIn_token) (simp add: marker_facts reasonMarker_def js_def)
    with False show ?thesis by (simp add: tR_def)
  qed
  have aR: "\<not> occursIn actMarker tR"
  proof (cases "r = []")
    case True
    then show ?thesis by (simp add: tR_def occursIn_Nil marker_facts)
  next
    case False
    have "\<not> occursIn actMarker (0x20 # reasonMarker @ r)"
      using marker_facts(4,5) _ r(4)
      by (rule occursIn_token) (simp add: marker_facts reasonMarker_def js_def)
    with False show ?thesis by (simp add: tR_def)
  qed
  have eA: "\<not> occursIn estMarker (tA @ tR)"
  proof (cases act)
    case None
    with eR show ?thesis by (simp add: tA_def)
  next
    case (Some a)
    have "hd estMarker \<notin> set (actMarker @ decimal a)"
      using decimal_chars(4) [of a] digit_not_marker
      by (auto simp: marker_facts actMarker_def js_def)
    with marker_facts(1,2) have "\<not> occursIn estMarker (0x20 # (actMarker @ decimal a) @ tR)"
      using eR by (rule occursIn_token)
    with Some show ?thesis by (simp add: tA_def)
  qed
  have s0: "stripTaskIdToken rest = y0"
    using strip by (simp add: y0_def b_def tA_def tR_def)
  have e1: "metaValue estMarker y0 = map_option (\<lambda>n. Fin (of_nat n)) est"
    unfolding y0_def
    using marker_facts(1,2) ob(1) [of 0] eA hA est by (intro number_step(1)) simp_all
  have e2: "replaceMetaTokens estMarker True y0 = y1"
    unfolding y0_def y1_def q1_def tA_def [symmetric]
    using marker_facts(1,2) ob(1) [of 0] eA hA est by (intro number_step(2)) simp_all
  have a1: "metaValue actMarker y1 = map_option (\<lambda>n. Fin (of_nat n)) act"
    unfolding y1_def
    using marker_facts(4,5) ob(2) [of n1] aR hR act by (intro number_step(1)) (simp_all add: n1)
  have a2: "replaceMetaTokens actMarker True y1 = y2"
    unfolding y1_def y2_def q2_def tR_def [symmetric]
    using marker_facts(4,5) ob(2) [of n1] aR hR act by (intro number_step(2)) (simp_all add: n1)
  have r3: "(case (case searchBounded True reasonAt y2 of
                None \<Rightarrow> ([], y2)
              | Some (i, w, v) \<Rightarrow> (trim v, trim (take i y2)))
          of (rsn, cleaned) \<Rightarrow> (rsn, trim (collapseSpaces cleaned)))
     = (r, b)"
    unfolding y2_def
    using ob(3,4) [of n2] r(2,1) nb [of n2] tb [of n2] nb [of 0]
    by (intro reason_step) (simp_all add: n2)
  have "parseMeta rest
      = (case (case searchBounded True reasonAt y2 of
                 None \<Rightarrow> ([], y2)
               | Some (i, w, v) \<Rightarrow> (trim v, trim (take i y2)))
         of (rsn, cleaned) \<Rightarrow>
           \<lparr>estMin = map_option (\<lambda>n. Fin (of_nat n)) est,
            actMin = map_option (\<lambda>n. Fin (of_nat n)) act,
            reason = rsn, cleanedText = trim (collapseSpaces cleaned)\<rparr>)"
    unfolding parseMeta_def Let_def s0 e1 e2 a1 a2 ..
  then show ?thesis
    using r3 by (auto split: prod.splits simp: b_def)
qed


lemma marker_no_terminator:
  "c \<in> set estMarker \<union> set actMarker \<union> set reasonMarker \<Longrightarrow> \<not> isLineTerminator c"
  by (auto simp: estMarker_def actMarker_def reasonMarker_def js_def isLineTerminator_def)

lemma serialised_text:
  fixes est act :: "nat option"
  assumes plain: "\<not> hasReservedToken text"
    and r: "trim r = r" "\<not> list_ex isLineTerminator r" "searchRe legacyTokenAt r = None"
    and b: "b = trim (collapseSpaces text)"
    and t: "t = (case est of None \<Rightarrow> [] | Some n \<Rightarrow> 0x20 # estMarker @ decimal n)
              @ (case act of None \<Rightarrow> [] | Some n \<Rightarrow> 0x20 # actMarker @ decimal n)
              @ (if r = [] then [] else 0x20 # reasonMarker @ r)"
    and y: "y = (if b = [] then tl t else b @ t)"
  shows "y = [] \<or> (\<not> isSpace (hd y) \<and> \<not> isSpace (last y))"
    and "\<forall>c\<in>set y. \<not> isLineTerminator c"
    and "(if b = [] then [] else 0x20 # b) @ t @ 0x20 # s = 0x20 # (if y = [] then s else y @ 0x20 # s)"
    and "legacyTokenAt (dropWhile isSpace (drop j y)) = None"
proof -
  define tR where "tR = (if r = [] then [] else 0x20 # reasonMarker @ r)"
  define tA where "tA = (case act of None \<Rightarrow> [] | Some n \<Rightarrow> 0x20 # actMarker @ decimal n)"
  define tE where "tE = (case est of None \<Rightarrow> [] | Some n \<Rightarrow> 0x20 # estMarker @ decimal n)"
  define P where "P = (\<lambda>s :: jsstring. s = [] \<or> (\<exists>c u. s = 0x20 # c # u \<and> \<not> isSpace c \<and> \<not> isSpace (last (c # u))))"
  have tt: "t = tE @ tA @ tR" by (simp add: t tE_def tA_def tR_def)
  have rn: "r = [] \<or> (\<not> isSpace (hd r) \<and> \<not> isSpace (last r))"
    using trim_ends [of r] r(1) by simp
  have bn: "b = [] \<or> (\<not> isSpace (hd b) \<and> \<not> isSpace (last b))"
    unfolding b by (rule trim_ends)
  have app: "P (u @ v)" if "P u" "P v" for u v
  proof (cases "u = [] \<or> v = []")
    case True
    with that show ?thesis by auto
  next
    case False
    with that obtain c w where u: "u = 0x20 # c # w" "\<not> isSpace c" by (auto simp: P_def)
    from False that have "\<not> isSpace (last v)" by (auto simp: P_def)
    with False u have "u @ v = 0x20 # c # (w @ v) \<and> \<not> isSpace c \<and> \<not> isSpace (last (c # (w @ v)))"
      by simp
    then show ?thesis unfolding P_def by blast
  qed
  have pR: "P tR"
  proof (cases "r = []")
    case True
    then show ?thesis by (simp add: P_def tR_def)
  next
    case False
    with rn have "tR = 0x20 # 0x270D # (0xFE0F # js ''reason:'' @ r)
        \<and> \<not> isSpace 0x270D \<and> \<not> isSpace (last (0x270D # (0xFE0F # js ''reason:'' @ r)))"
      by (simp add: tR_def reasonMarker_def isSpace_def isWhiteSpace_def isLineTerminator_def)
    then show ?thesis unfolding P_def by blast
  qed
  have num: "P (0x20 # m @ decimal n)" if "m = 0x23F3 # m'" for m m' n
  proof -
    have "\<not> isSpace (last (decimal n))"
      using decimal_chars(3) [of n] by (rule isDigit_not_space)
    with decimal_chars(1) [of n] that
    have "0x20 # m @ decimal n = 0x20 # 0x23F3 # (m' @ decimal n)
        \<and> \<not> isSpace 0x23F3 \<and> \<not> isSpace (last (0x23F3 # (m' @ decimal n)))"
      by (simp add: isSpace_def isWhiteSpace_def isLineTerminator_def)
    then show ?thesis unfolding P_def by blast
  qed
  have num': "P (0x20 # m @ decimal n)" if "m = 0x231B # m'" for m m' n
  proof -
    have "\<not> isSpace (last (decimal n))"
      using decimal_chars(3) [of n] by (rule isDigit_not_space)
    with decimal_chars(1) [of n] that
    have "0x20 # m @ decimal n = 0x20 # 0x231B # (m' @ decimal n)
        \<and> \<not> isSpace 0x231B \<and> \<not> isSpace (last (0x231B # (m' @ decimal n)))"
      by (simp add: isSpace_def isWhiteSpace_def isLineTerminator_def)
    then show ?thesis unfolding P_def by blast
  qed
  have pE: "P tE"
    using num [of estMarker "js ''est:''"] by (cases est) (simp_all add: tE_def P_def estMarker_def)
  have pA: "P tA"
    using num' [of actMarker "js ''act:''"] by (cases act) (simp_all add: tA_def P_def actMarker_def)
  have pT: "P t" unfolding tt by (intro app pE pA pR)
  show yok: "y = [] \<or> (\<not> isSpace (hd y) \<and> \<not> isSpace (last y))"
  proof (cases "t = []")
    case True
    with bn show ?thesis by (auto simp: y)
  next
    case False
    with pT obtain c u where u: "t = 0x20 # c # u" "\<not> isSpace c" "\<not> isSpace (last (c # u))"
      by (auto simp: P_def)
    show ?thesis
    proof (cases "b = []")
      case True
      with u show ?thesis by (simp add: y)
    next
      case False
      with bn u show ?thesis by (auto simp: y)
    qed
  qed
  have ltR: "\<not> isLineTerminator c" if "c \<in> set tR" for c
  proof -
    from that have "c = 0x20 \<or> c \<in> set reasonMarker \<or> c \<in> set r"
      by (cases "r = []") (simp_all add: tR_def)
    then show ?thesis
      using r(2) marker_no_terminator [of c]
      by (cases "c = 0x20") (auto simp: list_ex_iff isLineTerminator_def)
  qed
  have ltD: "\<not> isLineTerminator c" if "c \<in> set (decimal n)" for c n
    using that decimal_chars(4) [of n] by (auto simp: isDigit_def isLineTerminator_def word_le_nat_alt)
  have ltE: "\<not> isLineTerminator c" if "c \<in> set tE" for c
  proof (cases est)
    case None
    with that show ?thesis by (simp add: tE_def)
  next
    case (Some n)
    with that have "c = 0x20 \<or> c \<in> set estMarker \<or> c \<in> set (decimal n)"
      by (simp add: tE_def)
    then show ?thesis
      using ltD [of c n] marker_no_terminator [of c]
      by (cases "c = 0x20") (auto simp: isLineTerminator_def)
  qed
  have ltA: "\<not> isLineTerminator c" if "c \<in> set tA" for c
  proof (cases act)
    case None
    with that show ?thesis by (simp add: tA_def)
  next
    case (Some n)
    with that have "c = 0x20 \<or> c \<in> set actMarker \<or> c \<in> set (decimal n)"
      by (simp add: tA_def)
    then show ?thesis
      using ltD [of c n] marker_no_terminator [of c]
      by (cases "c = 0x20") (auto simp: isLineTerminator_def)
  qed
  have ltB: "\<not> isLineTerminator c" if "c \<in> set b" for c
    using that unfolding b by (rule normal_no_terminator)
  show "\<forall>c\<in>set y. \<not> isLineTerminator c"
  proof
    fix c assume "c \<in> set y"
    moreover have "set (tl t) \<subseteq> set t" by (cases t) auto
    ultimately have "c \<in> set b \<or> c \<in> set t"
      by (cases "b = []") (auto simp: y)
    then show "\<not> isLineTerminator c"
      using ltB ltE ltA ltR unfolding tt by auto
  qed
  show "(if b = [] then [] else 0x20 # b) @ t @ 0x20 # s = 0x20 # (if y = [] then s else y @ 0x20 # s)"
  proof (cases "t = []")
    case True
    then show ?thesis by (simp add: y)
  next
    case False
    with pT obtain c u where "t = 0x20 # c # u" by (auto simp: P_def)
    then show ?thesis by (simp add: y)
  qed
  show "legacyTokenAt (dropWhile isSpace (drop j y)) = None"
  proof (cases "r = []")
    case False
    define q where "q = (if b = [] then tl (tE @ tA @ [0x20]) else b @ tE @ tA @ [0x20])"
    have "tE @ tA @ [0x20] \<noteq> []" by simp
    then have "tl ((tE @ tA @ [0x20]) @ reasonMarker @ r) = tl (tE @ tA @ [0x20]) @ reasonMarker @ r"
      by (rule tl_append2)
    with False have "y = q @ reasonMarker @ r"
      by (simp add: y tt tR_def q_def)
    moreover have "legacyTokenAt (dropWhile isSpace (drop j (q @ reasonMarker @ r))) = None"
      using r(3) False rn by (intro legacy_none_reason) simp_all
    ultimately show ?thesis by simp
  next
    case True
    then have tR: "tR = []" by (simp add: tR_def)
    show ?thesis
    proof (cases "tE @ tA = []")
      case True
      with tR have "y = b" by (simp add: y tt)
      then show ?thesis unfolding b using plain
        by (simp add: normal_no_legacy hasReservedToken_def)
    next
      case False
      have ld: "isDigit (last (tE @ tA))"
      proof (cases act)
        case (Some a)
        then show ?thesis
          using decimal_chars(1,3) [of a] by (simp add: tA_def)
      next
        case None
        with False obtain e where "est = Some e" by (cases est) (auto simp: tE_def tA_def)
        with None show ?thesis
          using decimal_chars(1,3) [of e] by (simp add: tE_def tA_def)
      qed
      from False pT tR obtain c u where u: "tE @ tA = 0x20 # c # u"
        by (auto simp: P_def tt)
      have "y \<noteq> [] \<and> last y = last (tE @ tA)"
        using u tR by (cases "b = []") (simp_all add: y tt)
      with ld show ?thesis by (intro legacy_none_digit) simp_all
    qed
  qed
qed

subsection \<open>Round trip of the codec\<close>

text \<open>
  C1. Round trip of the codec, for a display text that holds no reserved token (no
  estimate, actual or reason marker and no identifier token), estimates and actuals that
  are absent or integers from 0 to below 2^53, and a reason that, trimmed of surrounding
  white space, holds no LineTerminator and no estimate or actual marker and does not end
  in a legacy identifier token: \<open>parseTasks\<close> on the line \<open>buildTaskLine\<close> returns gives
  exactly one task, with the done flag, the estimate and the actual of the input, the
  trimmed reason, the given identifier, and the display text with every run of white
  space turned into one space and trimmed; no identifier is generated.
\<close>

theorem buildTaskLine_round_trip:
  fixes est act :: "nat option"
  assumes "6 \<le> length ident" and "length ident \<le> 32" and "list_all isHexDigit ident"
    and "\<not> hasReservedToken text"
    and "\<And>n. est = Some n \<Longrightarrow> n < 2 ^ 53" and "\<And>n. act = Some n \<Longrightarrow> n < 2 ^ 53"
    and "\<not> list_ex isLineTerminator (trim rsn)"
    and "\<not> occursIn estMarker (trim rsn)" and "\<not> occursIn actMarker (trim rsn)"
    and "searchRe legacyTokenAt (trim rsn) = None"
  shows "parseTasks ent k
       (buildTaskLine checked text
          \<lparr>estMin = map_option (\<lambda>n. Fin (of_nat n)) est, actMin = map_option (\<lambda>n. Fin (of_nat n)) act,
           reason = rsn\<rparr> ident)
     = ([\<lparr>estMin = map_option (\<lambda>n. Fin (of_nat n)) est, actMin = map_option (\<lambda>n. Fin (of_nat n)) act,
          reason = trim rsn, taskId = ident, lineIndex = 0, taskText = trim (collapseSpaces text),
          taskDone = checked, hasId = True\<rparr>], k)"
proof -
  define b where "b = trim (collapseSpaces text)"
  define r where "r = trim rsn"
  define t where "t = (case est of None \<Rightarrow> [] | Some n \<Rightarrow> 0x20 # estMarker @ decimal n)
              @ (case act of None \<Rightarrow> [] | Some n \<Rightarrow> 0x20 # actMarker @ decimal n)
              @ (if r = [] then [] else 0x20 # reasonMarker @ r)"
  define y where "y = (if b = [] then tl t else b @ t)"
  define rest where "rest = (if y = [] then taskIdToken ident else y @ 0x20 # taskIdToken ident)"
  define mark :: jschar where "mark = (if checked then 0x78 else 0x20)"
  have rr: "trim r = r" by (simp add: r_def trim_idem)
  have rl: "\<not> list_ex isLineTerminator r" and re: "\<not> occursIn estMarker r"
    and ra: "\<not> occursIn actMarker r" and rg: "searchRe legacyTokenAt r = None"
    using assms(7-10) by (simp_all add: r_def)
  note st = serialised_text [OF assms(4) rr rl rg b_def t_def y_def]
  have mk: "mark = 0x20 \<or> mark = 0x78 \<or> mark = 0x58" by (simp add: mark_def)
  note sl = serialised_line [OF st(1,2) assms(1-3) mk rest_def]
  have line: "buildTaskLine checked text
          \<lparr>estMin = map_option (\<lambda>n. Fin (of_nat n)) est, actMin = map_option (\<lambda>n. Fin (of_nat n)) act,
           reason = rsn\<rparr> ident
      = [0x2D, 0x20, 0x5B, mark, 0x5D] @ 0x20 # rest"
  proof -
    have "(if b = [] then [] else 0x20 # b) @ t @ 0x20 # taskIdToken ident = 0x20 # rest"
      unfolding rest_def by (rule st(3))
    then have "[0x2D, 0x20, 0x5B, mark, 0x5D] @ 0x20 # rest
        = [0x2D, 0x20, 0x5B, mark, 0x5D] @ (if b = [] then [] else 0x20 # b) @ t @ 0x20 # taskIdToken ident"
      by simp
    also have "\<dots> = buildTaskLine checked text
          \<lparr>estMin = map_option (\<lambda>n. Fin (of_nat n)) est, actMin = map_option (\<lambda>n. Fin (of_nat n)) act,
           reason = rsn\<rparr> ident"
    proof -
      have sh: "buildTaskLine checked text
          \<lparr>estMin = map_option (\<lambda>n. Fin (of_nat n)) est, actMin = map_option (\<lambda>n. Fin (of_nat n)) act,
           reason = rsn\<rparr> ident
        = [0x2D, 0x20, 0x5B, if checked then 0x78 else 0x20, 0x5D]
         @ (if trim (collapseSpaces text) = [] then [] else 0x20 # trim (collapseSpaces text))
         @ (case est of None \<Rightarrow> [] | Some n \<Rightarrow> 0x20 # estMarker @ decimal n)
         @ (case act of None \<Rightarrow> [] | Some n \<Rightarrow> 0x20 # actMarker @ decimal n)
         @ (if trim rsn = [] then [] else 0x20 # reasonMarker @ trim rsn)
         @ 0x20 # taskIdToken ident"
        using assms(4-6) by (rule buildTaskLine_shape)
      show ?thesis unfolding sh b_def t_def r_def mark_def by simp
    qed
    finally show ?thesis by simp
  qed
  have "cutMatch (\<lambda>s. legacyTokenAt (dropWhile isSpace s)) y = y"
    by (rule cutMatch_None) (rule st(4))
  moreover have "trim y = y"
    using st(1) by (cases "y = []") (simp_all add: trim_Nil trim_id)
  ultimately have "stripTaskIdToken rest = y"
    by (simp add: stripTaskIdToken_def sl(5))
  then have strip: "stripTaskIdToken rest
      = (if trim (collapseSpaces text) = []
         then tl ((case est of None \<Rightarrow> [] | Some n \<Rightarrow> 0x20 # estMarker @ decimal n)
                  @ (case act of None \<Rightarrow> [] | Some n \<Rightarrow> 0x20 # actMarker @ decimal n)
                  @ (if r = [] then [] else 0x20 # reasonMarker @ r))
         else trim (collapseSpaces text)
              @ (case est of None \<Rightarrow> [] | Some n \<Rightarrow> 0x20 # estMarker @ decimal n)
              @ (case act of None \<Rightarrow> [] | Some n \<Rightarrow> 0x20 # actMarker @ decimal n)
              @ (if r = [] then [] else 0x20 # reasonMarker @ r))"
    by (simp add: y_def t_def b_def)
  note pm = parseMeta_serialised [OF assms(4-6) rr rl re ra strip]
  have "isChecked mark = checked" by (simp add: isChecked_def mark_def)
  with parseTasks_single [OF sl(1,2,3,4,6), of ent k] show ?thesis
    unfolding line by (simp add: pm r_def)
qed

text \<open>
  The text \<^verbatim>\<open>Buy\<close>, two spaces, \<^verbatim>\<open>milk\<close>, a space; estimate 30, no actual; the reason
  \<^verbatim>\<open>ran late\<close> with a space on either side.
\<close>

theorem buildTaskLine_round_trip_witness:
  "parseTasks (\<lambda>i. 0) 0
     (buildTaskLine True (js ''Buy  milk '')
        \<lparr>estMin = Some (Fin 30), actMin = None, reason = js '' ran late ''\<rparr> (js ''ab12cd34''))
   = ([\<lparr>estMin = Some (Fin 30), actMin = None, reason = js ''ran late'', taskId = js ''ab12cd34'',
        lineIndex = 0, taskText = js ''Buy milk'', taskDone = True, hasId = True\<rparr>], 0)"
proof -
  have i: "6 \<le> length (js ''ab12cd34'')" "length (js ''ab12cd34'') \<le> 32"
    "list_all isHexDigit (js ''ab12cd34'')"
    by code_simp+
  have p: "\<not> hasReservedToken (js ''Buy  milk '')" by code_simp
  have tr: "trim (js '' ran late '') = js ''ran late''" by code_simp
  have r: "\<not> list_ex isLineTerminator (trim (js '' ran late ''))"
    "\<not> occursIn estMarker (trim (js '' ran late ''))" "\<not> occursIn actMarker (trim (js '' ran late ''))"
    "searchRe legacyTokenAt (trim (js '' ran late '')) = None"
    by code_simp+
  have tx: "trim (collapseSpaces (js ''Buy  milk '')) = js ''Buy milk''" by code_simp
  have e: "\<And>n. Some (30 :: nat) = Some n \<Longrightarrow> n < 2 ^ 53" by simp
  have a: "\<And>n. (None :: nat option) = Some n \<Longrightarrow> n < 2 ^ 53" by simp
  from buildTaskLine_round_trip [of "js ''ab12cd34''" "js ''Buy  milk ''" "Some 30" None
      "js '' ran late ''" "\<lambda>i. 0" 0 True, OF i p e a r]
  show ?thesis by (simp add: tr tx)
qed


text \<open>
  A reason that holds an estimate token: the line is built with the token inside the
  reason, and \<open>parseMeta\<close>, which takes the estimate and actual tokens out of the whole
  text before it looks for the reason, reads it as the estimate and cuts it from the reason.
\<close>

theorem buildTaskLine_reason_token_counterexample:
  "parseTasks (\<lambda>i. 0) 0
     (buildTaskLine False (js ''a'') \<lparr>estMin = None, actMin = None, reason = js ''x '' @ estMarker @ js ''5''\<rparr>
        (js ''abcdef''))
   = ([\<lparr>estMin = Some (Fin 5), actMin = None, reason = js ''x'', taskId = js ''abcdef'',
        lineIndex = 0, taskText = js ''a'', taskDone = False, hasId = True\<rparr>], 0)"
proof -
  let ?rest = "js ''a '' @ reasonMarker @ js ''x '' @ estMarker @ js ''5 <!-- tid:abcdef -->''"
  let ?c0 = "js ''a '' @ reasonMarker @ js ''x '' @ estMarker @ js ''5''"
  let ?c1 = "js ''a '' @ reasonMarker @ js ''x ''"
  have b: "buildTaskLine False (js ''a'') \<lparr>estMin = None, actMin = None, reason = js ''x '' @ estMarker @ js ''5''\<rparr>
        (js ''abcdef'') = js ''- [ ] '' @ ?rest"
    by code_simp
  have l: "split_nl (js ''- [ ] '' @ ?rest) = [js ''- [ ] '' @ ?rest]" by code_simp
  have m: "taskMatch (js ''- [ ] '' @ ?rest) = Some (0x20, ?rest)" by code_simp
  have t: "trim ?rest = ?rest" by code_simp
  have x: "extractTaskId ?rest = Some (js ''abcdef'')" by code_simp
  have h: "hasCanonicalTaskId ?rest" by code_simp
  have c: "\<not> isChecked 0x20" by (simp add: isChecked_def)
  have n: "Number (js ''5'') = Fin 5"
  proof -
    have "decimal 5 = js ''5''" by code_simp
    with Number_decimal [of 5] show ?thesis by simp
  qed
  have s0: "stripTaskIdToken ?rest = ?c0" by code_simp
  have e: "searchBounded True (metaTokenAt estMarker) ?c0 = Some (12, 1, js ''5'', [])" by code_simp
  have s1: "replaceMetaTokens estMarker True ?c0 = ?c1" by code_simp
  have a: "searchBounded True (metaTokenAt actMarker) ?c1 = None" by code_simp
  have s2: "replaceMetaTokens actMarker True ?c1 = ?c1" by code_simp
  have r: "(case searchBounded True reasonAt ?c1 of
              None \<Rightarrow> ([], ?c1)
            | Some (i, w, v) \<Rightarrow> (trim v, trim (take i ?c1)))
      = (js ''x'', js ''a'')"
    by code_simp
  have u: "trim (collapseSpaces (js ''a'')) = js ''a''" by code_simp
  have p: "parseMeta ?rest = \<lparr>estMin = Some (Fin 5), actMin = None, reason = js ''x'', cleanedText = js ''a''\<rparr>"
    unfolding parseMeta_def metaValue_def Let_def s0 e s1 a s2 r
    by (simp add: n isInteger_def geZero_def u del: append.simps)
  show ?thesis
    unfolding b parseTasks_def l
    by (simp add: Let_def m t x h c p del: append.simps)
qed

subsection \<open>Week boundary\<close>

lemma startOfWeekMonday_dayNum:
  assumes "\<And>n ms. dayNum (z n ms) = n"
  shows "dayNum (startOfWeekMonday z d) = dayNum d - ((dayNum d + 3) mod 7)"
proof -
  have "(dayNum d + 4) mod 7 = 0 \<Longrightarrow> (dayNum d + 3) mod 7 = 6"
    by presburger
  moreover have "(dayNum d + 4) mod 7 \<noteq> 0 \<Longrightarrow> (dayNum d + 3) mod 7 = (dayNum d + 4) mod 7 - 1"
    by presburger
  ultimately show ?thesis
    by (simp add: startOfWeekMonday_def Let_def getDay_def setHours0_def shiftDate_def assms)
qed

lemma startOfWeekMonday_msOfDay:
  assumes "\<And>n ms. dayNum (z n ms) = n"
    and "msOfDay (z (dayNum d) 0) = 0"
    and "msOfDay (z (dayNum (startOfWeekMonday z d)) 0) = 0"
  shows "msOfDay (startOfWeekMonday z d) = 0"
proof -
  let ?x = "z (dayNum d) 0"
  let ?diff = "if getDay ?x = 0 then - 6 else 1 - getDay ?x"
  have s: "startOfWeekMonday z d = z (dayNum ?x + ?diff) 0"
    using assms(2) by (simp add: startOfWeekMonday_def Let_def setHours0_def shiftDate_def)
  then have "dayNum (startOfWeekMonday z d) = dayNum ?x + ?diff"
    by (simp only: assms(1))
  with assms(3) s show ?thesis by simp
qed

text \<open>
  C3. In a time zone that resolves every local time asked for within its calendar day
  (as zones with daylight-saving gaps of an hour do), for every anchor date the local day
  of \<open>startOfWeekMonday\<close> is a Monday (\<open>getDay = 1\<close>) that is not after the anchor's day and
  at most six days before it, and every anchor whose day lies in the seven days
  Monday..Sunday starting there resolves to the same Monday. The time of day of the week
  start is local midnight when the zone has that midnight on the anchor's day and on the
  Monday; where midnight falls in a gap the week start is the first moment after it.
\<close>

theorem startOfWeekMonday_week:
  assumes "\<And>n ms. dayNum (z n ms) = n"
  shows "getDay (startOfWeekMonday z d) = 1
   \<and> dayNum (startOfWeekMonday z d) \<le> dayNum d
   \<and> dayNum d \<le> dayNum (startOfWeekMonday z d) + 6
   \<and> (\<forall>d'. dayNum (startOfWeekMonday z d) \<le> dayNum d'
          \<and> dayNum d' \<le> dayNum (startOfWeekMonday z d) + 6
          \<longrightarrow> dayNum (startOfWeekMonday z d') = dayNum (startOfWeekMonday z d))
   \<and> (msOfDay (z (dayNum d) 0) = 0 \<and> msOfDay (z (dayNum (startOfWeekMonday z d)) 0) = 0
        \<longrightarrow> msOfDay (startOfWeekMonday z d) = 0)"
proof -
  note n = startOfWeekMonday_dayNum [of z, OF assms]
  have "getDay (startOfWeekMonday z d) = 1"
    unfolding getDay_def n by presburger
  moreover have "dayNum (startOfWeekMonday z d) \<le> dayNum d"
    unfolding n by presburger
  moreover have "dayNum d \<le> dayNum (startOfWeekMonday z d) + 6"
    unfolding n by presburger
  moreover have "dayNum (startOfWeekMonday z d') = dayNum (startOfWeekMonday z d)"
    if "dayNum (startOfWeekMonday z d) \<le> dayNum d'"
      and "dayNum d' \<le> dayNum (startOfWeekMonday z d) + 6" for d'
    using that unfolding n by presburger
  moreover have "msOfDay (startOfWeekMonday z d) = 0"
    if "msOfDay (z (dayNum d) 0) = 0" and "msOfDay (z (dayNum (startOfWeekMonday z d)) 0) = 0"
    using assms that by (rule startOfWeekMonday_msOfDay)
  ultimately show ?thesis by blast
qed

text \<open>
  A zone whose clocks go forward at 00:00 of Friday 2026-04-24 (day 20567). The anchor
  Friday 10:00 resolves to Monday 2026-04-20 (day 20563) at 01:00, the anchor Wednesday
  2026-04-22 14:00 to the same Monday at 00:00.
\<close>

theorem startOfWeekMonday_week_witness:
  "startOfWeekMonday (gapZone 20567) \<lparr>dayNum = 20567, msOfDay = 36000000\<rparr>
     = \<lparr>dayNum = 20563, msOfDay = 3600000\<rparr>
   \<and> startOfWeekMonday (gapZone 20567) \<lparr>dayNum = 20565, msOfDay = 50400000\<rparr>
     = \<lparr>dayNum = 20563, msOfDay = 0\<rparr>
   \<and> getDay \<lparr>dayNum = 20567, msOfDay = 36000000\<rparr> = 5
   \<and> getDay (startOfWeekMonday (gapZone 20567) \<lparr>dayNum = 20567, msOfDay = 36000000\<rparr>) = 1
   \<and> dayNum (startOfWeekMonday (gapZone 20567) \<lparr>dayNum = 20565, msOfDay = 50400000\<rparr>)
     = dayNum (startOfWeekMonday (gapZone 20567) \<lparr>dayNum = 20567, msOfDay = 36000000\<rparr>)"
proof -
  let ?fri = "\<lparr>dayNum = 20567, msOfDay = 36000000\<rparr>"
  let ?wed = "\<lparr>dayNum = 20565, msOfDay = 50400000\<rparr>"
  have z: "\<And>n ms. dayNum (gapZone 20567 n ms) = n"
    by (simp add: gapZone_def)
  have a: "startOfWeekMonday (gapZone 20567) ?fri = \<lparr>dayNum = 20563, msOfDay = 3600000\<rparr>"
    by (simp add: startOfWeekMonday_def Let_def getDay_def setHours0_def shiftDate_def gapZone_def)
  have b: "startOfWeekMonday (gapZone 20567) ?wed = \<lparr>dayNum = 20563, msOfDay = 0\<rparr>"
    by (simp add: startOfWeekMonday_def Let_def getDay_def setHours0_def shiftDate_def gapZone_def)
  have c: "getDay ?fri = 5"
    by (simp add: getDay_def)
  from startOfWeekMonday_week [of "gapZone 20567" ?fri, OF z]
  have d: "getDay (startOfWeekMonday (gapZone 20567) ?fri) = 1"
    and e: "\<And>d'. dayNum (startOfWeekMonday (gapZone 20567) ?fri) \<le> dayNum d'
          \<Longrightarrow> dayNum d' \<le> dayNum (startOfWeekMonday (gapZone 20567) ?fri) + 6
          \<Longrightarrow> dayNum (startOfWeekMonday (gapZone 20567) d')
              = dayNum (startOfWeekMonday (gapZone 20567) ?fri)"
    by blast+
  have "dayNum (startOfWeekMonday (gapZone 20567) ?wed)
       = dayNum (startOfWeekMonday (gapZone 20567) ?fri)"
    by (rule e) (simp_all add: a)
  with a b c d show ?thesis by simp
qed

subsection \<open>The example line\<close>

lemma Number_30: "Number (js ''30'') = Fin 30"
proof -
  have "decimal 30 = js ''30''" by code_simp
  with Number_decimal [of 30] show ?thesis by simp
qed

lemma Number_45: "Number (js ''45'') = Fin 45"
proof -
  have "decimal 45 = js ''45''" by code_simp
  with Number_decimal [of 45] show ?thesis by simp
qed

lemma example_parseMeta:
  "parseMeta (js ''Buy milk '' @ estMarker @ js ''30 '' @ actMarker @ js ''45 '' @ reasonMarker
      @ js ''ran late <!-- tid:ab12cd34 -->'')
   = \<lparr>estMin = Some (Fin 30), actMin = Some (Fin 45), reason = js ''ran late'',
      cleanedText = js ''Buy milk''\<rparr>"
proof -
  let ?c0 = "js ''Buy milk '' @ estMarker @ js ''30 '' @ actMarker @ js ''45 '' @ reasonMarker @ js ''ran late''"
  let ?c1 = "js ''Buy milk  '' @ actMarker @ js ''45 '' @ reasonMarker @ js ''ran late''"
  let ?c2 = "js ''Buy milk   '' @ reasonMarker @ js ''ran late''"
  have s0: "stripTaskIdToken (js ''Buy milk '' @ estMarker @ js ''30 '' @ actMarker @ js ''45 ''
      @ reasonMarker @ js ''ran late <!-- tid:ab12cd34 -->'') = ?c0"
    by code_simp
  have e: "searchBounded True (metaTokenAt estMarker) ?c0
      = Some (8, 1, js ''30'', js '' '' @ actMarker @ js ''45 '' @ reasonMarker @ js ''ran late'')"
    by code_simp
  have s1: "replaceMetaTokens estMarker True ?c0 = ?c1"
    by code_simp
  have a: "searchBounded True (metaTokenAt actMarker) ?c1
      = Some (9, 1, js ''45'', js '' '' @ reasonMarker @ js ''ran late'')"
    by code_simp
  have s2: "replaceMetaTokens actMarker True ?c1 = ?c2"
    by code_simp
  have r: "(case searchBounded True reasonAt ?c2 of
              None \<Rightarrow> ([], ?c2)
            | Some (i, w, v) \<Rightarrow> (trim v, trim (take i ?c2)))
      = (js ''ran late'', js ''Buy milk'')"
    by code_simp
  have t: "trim (collapseSpaces (js ''Buy milk'')) = js ''Buy milk''"
    by code_simp
  show ?thesis
    unfolding parseMeta_def metaValue_def Let_def s0 e s1 a s2 r
    by (simp add: Number_30 Number_45 isInteger_def geZero_def t del: append.simps)
qed

text \<open>
  C2. The example line of the codec, with the markers as the code has them (U+23F3 before
  \<^verbatim>\<open>est:\<close>, U+231B before \<^verbatim>\<open>act:\<close>, U+270D U+FE0F before \<^verbatim>\<open>reason:\<close>), parses to one task:
  not done, display text \<^verbatim>\<open>Buy milk\<close>, estimate 30, actual 45, reason \<^verbatim>\<open>ran late\<close>, with the
  identifier of its token and no identifier generated.
\<close>

theorem parseTasks_example:
  "parseTasks ent k
     (js ''- [ ] Buy milk '' @ estMarker @ js ''30 '' @ actMarker @ js ''45 '' @ reasonMarker
        @ js ''ran late <!-- tid:ab12cd34 -->'')
   = ([\<lparr>estMin = Some (Fin 30), actMin = Some (Fin 45), reason = js ''ran late'',
        taskId = js ''ab12cd34'', lineIndex = 0, taskText = js ''Buy milk'',
        taskDone = False, hasId = True\<rparr>], k)"
proof -
  let ?rest = "js ''Buy milk '' @ estMarker @ js ''30 '' @ actMarker @ js ''45 '' @ reasonMarker
      @ js ''ran late <!-- tid:ab12cd34 -->''"
  have l: "split_nl (js ''- [ ] Buy milk '' @ estMarker @ js ''30 '' @ actMarker @ js ''45 ''
       @ reasonMarker @ js ''ran late <!-- tid:ab12cd34 -->'')
     = [js ''- [ ] Buy milk '' @ estMarker @ js ''30 '' @ actMarker @ js ''45 ''
       @ reasonMarker @ js ''ran late <!-- tid:ab12cd34 -->'']"
    by code_simp
  have m: "taskMatch (js ''- [ ] Buy milk '' @ estMarker @ js ''30 '' @ actMarker @ js ''45 ''
       @ reasonMarker @ js ''ran late <!-- tid:ab12cd34 -->'') = Some (0x20, ?rest)"
    by code_simp
  have t: "trim ?rest = ?rest" by code_simp
  have x: "extractTaskId ?rest = Some (js ''ab12cd34'')" by code_simp
  have h: "hasCanonicalTaskId ?rest" by code_simp
  have c: "\<not> isChecked 0x20" by (simp add: isChecked_def)
  show ?thesis
    unfolding parseTasks_def l
    by (simp add: Let_def m t x h c example_parseMeta del: append.simps)
qed

text \<open>
  The line as the specification writes it has no marker characters, so \<open>parseMeta\<close> finds
  no token in it: everything before the identifier token is display text.
\<close>

theorem parseTasks_plain_tokens_counterexample:
  "parseTasks (\<lambda>i. 0) 0 (js ''- [ ] Buy milk est:30 act:45 reason:ran late <!-- tid:ab12cd34 -->'')
   = ([\<lparr>estMin = None, actMin = None, reason = [], taskId = js ''ab12cd34'', lineIndex = 0,
        taskText = js ''Buy milk est:30 act:45 reason:ran late'', taskDone = False, hasId = True\<rparr>], 0)"
  by code_simp

subsection \<open>Saving metadata\<close>

lemma toBinary64_not_NaN: "toBinary64 q \<noteq> NaN"
  by (simp add: toBinary64_def Let_def)

lemma parseDraftMinutes_cases:
  "parseDraftMinutes raw =
     (if trim raw = [] then None
      else if list_all isDigit (trim raw) then Some (toBinary64 (of_nat (digitsVal 10 (trim raw))))
      else Some NaN)"
  by (simp add: parseDraftMinutes_def Let_def Number_digits)

lemma parseDraftMinutes_NaN:
  "parseDraftMinutes raw = Some NaN \<longleftrightarrow> trim raw \<noteq> [] \<and> \<not> list_all isDigit (trim raw)"
  by (simp add: parseDraftMinutes_cases toBinary64_not_NaN)

lemma parseDraftMinutes_digits:
  "trim raw \<noteq> [] \<Longrightarrow> list_all isDigit (trim raw) \<Longrightarrow> parseDraftMinutes raw = Some (Number (trim raw))"
  by (simp add: parseDraftMinutes_def Let_def)

lemma saveTaskMeta_run:
  assumes "parseDraftMinutes (estMinText (getTaskMetaDraft a task)) \<noteq> Some NaN"
    and "parseDraftMinutes (actMinText (getTaskMetaDraft a task)) \<noteq> Some NaN"
    and "\<not> overrunWithoutReason (parseDraftMinutes (estMinText (getTaskMetaDraft a task)))
           (parseDraftMinutes (actMinText (getTaskMetaDraft a task)))
           (trim (reasonText (getTaskMetaDraft a task)))"
    and "files a (filePath day) = Some md"
    and "findIndex (\<lambda>l. lineHasTaskId l (taskId task)) (split_nl md) = Some idx"
    and "taskMatch (split_nl md ! idx) = Some (m1, m2)"
    and "\<not> readOnly a (filePath day)"
  shows "saveTaskMeta a day task
     = (loadWeek (a\<lparr>busy := True, error := None,
          calls := calls a @
            [Read (filePath day),
             Write (filePath day)
               (join_nl ((split_nl md)[idx :=
                  buildTaskLine (isChecked m1) (cleanedText (parseMeta (trim m2)))
                    \<lparr>estMin = parseDraftMinutes (estMinText (getTaskMetaDraft a task)),
                     actMin = parseDraftMinutes (actMinText (getTaskMetaDraft a task)),
                     reason = trim (reasonText (getTaskMetaDraft a task))\<rparr>
                    (taskId task)]))],
          files := (files a)(filePath day \<mapsto>
               join_nl ((split_nl md)[idx :=
                  buildTaskLine (isChecked m1) (cleanedText (parseMeta (trim m2)))
                    \<lparr>estMin = parseDraftMinutes (estMinText (getTaskMetaDraft a task)),
                     actMin = parseDraftMinutes (actMinText (getTaskMetaDraft a task)),
                     reason = trim (reasonText (getTaskMetaDraft a task))\<rparr>
                    (taskId task)]))\<rparr>))
       \<lparr>busy := False\<rparr>"
  using assms
  by (simp add: saveTaskMeta_def Let_def readTextFile_def writeTextFile_def)


text \<open>
  C4, as the code has it. With \<open>e\<close>, \<open>c\<close> and \<open>r\<close> the trimmed estimate, actual and reason
  drafts: when \<open>e\<close> (or else \<open>c\<close>) is not empty and not all digits, \<open>saveTaskMeta\<close> only sets
  the error message, and so reads and writes nothing; the same when both are digit strings,
  the actual Number is greater than the estimate and \<open>r\<close> is empty. In that overrun case
  with a non-empty \<open>r\<close> the save goes on: it reads the file and, when the task's line is
  found, matches the checkbox pattern and the write succeeds, writes the rebuilt line.
\<close>

theorem saveTaskMeta_validation:
  "(let d = getTaskMetaDraft a task;
        e = trim (estMinText d);
        c = trim (actMinText d);
        r = trim (reasonText d)
    in (e \<noteq> [] \<and> \<not> list_all isDigit e
          \<longrightarrow> saveTaskMeta a day task = a\<lparr>error := Some (Message estInvalidText)\<rparr>)
     \<and> (\<not> (e \<noteq> [] \<and> \<not> list_all isDigit e) \<and> c \<noteq> [] \<and> \<not> list_all isDigit c
          \<longrightarrow> saveTaskMeta a day task = a\<lparr>error := Some (Message actInvalidText)\<rparr>)
     \<and> (e \<noteq> [] \<and> list_all isDigit e \<and> c \<noteq> [] \<and> list_all isDigit c
          \<and> numGreater (Number c) (Number e) \<and> r = []
          \<longrightarrow> saveTaskMeta a day task = a\<lparr>error := Some (Message reasonRequiredText)\<rparr>)
     \<and> (e \<noteq> [] \<and> list_all isDigit e \<and> c \<noteq> [] \<and> list_all isDigit c
          \<and> numGreater (Number c) (Number e) \<and> r \<noteq> []
          \<and> files a (filePath day) = Some md
          \<and> findIndex (\<lambda>l. lineHasTaskId l (taskId task)) (split_nl md) = Some idx
          \<and> taskMatch (split_nl md ! idx) = Some (m1, m2)
          \<and> \<not> readOnly a (filePath day)
          \<longrightarrow> saveTaskMeta a day task
              = (loadWeek (a\<lparr>busy := True, error := None,
                   calls := calls a @
                     [Read (filePath day),
                      Write (filePath day)
                        (join_nl ((split_nl md)[idx :=
                           buildTaskLine (isChecked m1) (cleanedText (parseMeta (trim m2)))
                             \<lparr>estMin = Some (Number e), actMin = Some (Number c), reason = r\<rparr>
                             (taskId task)]))],
                   files := (files a)(filePath day \<mapsto>
                        join_nl ((split_nl md)[idx :=
                           buildTaskLine (isChecked m1) (cleanedText (parseMeta (trim m2)))
                             \<lparr>estMin = Some (Number e), actMin = Some (Number c), reason = r\<rparr>
                             (taskId task)]))\<rparr>))
                \<lparr>busy := False\<rparr>))"
proof -
  define d where "d = getTaskMetaDraft a task"
  define e where "e = trim (estMinText d)"
  define c where "c = trim (actMinText d)"
  define r where "r = trim (reasonText d)"
  have 1: "e \<noteq> [] \<and> \<not> list_all isDigit e
          \<longrightarrow> saveTaskMeta a day task = a\<lparr>error := Some (Message estInvalidText)\<rparr>"
    by (simp add: saveTaskMeta_def Let_def parseDraftMinutes_NaN d_def e_def)
  have 2: "\<not> (e \<noteq> [] \<and> \<not> list_all isDigit e) \<and> c \<noteq> [] \<and> \<not> list_all isDigit c
          \<longrightarrow> saveTaskMeta a day task = a\<lparr>error := Some (Message actInvalidText)\<rparr>"
    by (simp add: saveTaskMeta_def Let_def parseDraftMinutes_NaN d_def e_def c_def)
  have 3: "e \<noteq> [] \<and> list_all isDigit e \<and> c \<noteq> [] \<and> list_all isDigit c
          \<and> numGreater (Number c) (Number e) \<and> r = []
          \<longrightarrow> saveTaskMeta a day task = a\<lparr>error := Some (Message reasonRequiredText)\<rparr>"
  proof
    assume h: "e \<noteq> [] \<and> list_all isDigit e \<and> c \<noteq> [] \<and> list_all isDigit c
          \<and> numGreater (Number c) (Number e) \<and> r = []"
    then have pe: "parseDraftMinutes (estMinText d) = Some (Number e)"
      and pc: "parseDraftMinutes (actMinText d) = Some (Number c)"
      by (simp_all add: parseDraftMinutes_digits e_def c_def)
    have ne: "Number e \<noteq> NaN" "Number c \<noteq> NaN"
      using h by (simp_all add: Number_digits toBinary64_not_NaN)
    show "saveTaskMeta a day task = a\<lparr>error := Some (Message reasonRequiredText)\<rparr>"
      using h ne
      by (simp add: saveTaskMeta_def Let_def d_def [symmetric] pe pc r_def [symmetric]
          overrunWithoutReason_def)
  qed
  have 4: "e \<noteq> [] \<and> list_all isDigit e \<and> c \<noteq> [] \<and> list_all isDigit c
          \<and> numGreater (Number c) (Number e) \<and> r \<noteq> []
          \<and> files a (filePath day) = Some md
          \<and> findIndex (\<lambda>l. lineHasTaskId l (taskId task)) (split_nl md) = Some idx
          \<and> taskMatch (split_nl md ! idx) = Some (m1, m2)
          \<and> \<not> readOnly a (filePath day)
          \<longrightarrow> saveTaskMeta a day task
              = (loadWeek (a\<lparr>busy := True, error := None,
                   calls := calls a @
                     [Read (filePath day),
                      Write (filePath day)
                        (join_nl ((split_nl md)[idx :=
                           buildTaskLine (isChecked m1) (cleanedText (parseMeta (trim m2)))
                             \<lparr>estMin = Some (Number e), actMin = Some (Number c), reason = r\<rparr>
                             (taskId task)]))],
                   files := (files a)(filePath day \<mapsto>
                        join_nl ((split_nl md)[idx :=
                           buildTaskLine (isChecked m1) (cleanedText (parseMeta (trim m2)))
                             \<lparr>estMin = Some (Number e), actMin = Some (Number c), reason = r\<rparr>
                             (taskId task)]))\<rparr>))
                \<lparr>busy := False\<rparr>"
  proof
    assume h: "e \<noteq> [] \<and> list_all isDigit e \<and> c \<noteq> [] \<and> list_all isDigit c
          \<and> numGreater (Number c) (Number e) \<and> r \<noteq> []
          \<and> files a (filePath day) = Some md
          \<and> findIndex (\<lambda>l. lineHasTaskId l (taskId task)) (split_nl md) = Some idx
          \<and> taskMatch (split_nl md ! idx) = Some (m1, m2)
          \<and> \<not> readOnly a (filePath day)"
    then have pe: "parseDraftMinutes (estMinText (getTaskMetaDraft a task)) = Some (Number e)"
      and pc: "parseDraftMinutes (actMinText (getTaskMetaDraft a task)) = Some (Number c)"
      by (simp_all add: parseDraftMinutes_digits e_def c_def d_def)
    have ne: "Number e \<noteq> NaN" "Number c \<noteq> NaN"
      using h by (simp_all add: Number_digits toBinary64_not_NaN)
    have "saveTaskMeta a day task
     = (loadWeek (a\<lparr>busy := True, error := None,
          calls := calls a @
            [Read (filePath day),
             Write (filePath day)
               (join_nl ((split_nl md)[idx :=
                  buildTaskLine (isChecked m1) (cleanedText (parseMeta (trim m2)))
                    \<lparr>estMin = parseDraftMinutes (estMinText (getTaskMetaDraft a task)),
                     actMin = parseDraftMinutes (actMinText (getTaskMetaDraft a task)),
                     reason = trim (reasonText (getTaskMetaDraft a task))\<rparr>
                    (taskId task)]))],
          files := (files a)(filePath day \<mapsto>
               join_nl ((split_nl md)[idx :=
                  buildTaskLine (isChecked m1) (cleanedText (parseMeta (trim m2)))
                    \<lparr>estMin = parseDraftMinutes (estMinText (getTaskMetaDraft a task)),
                     actMin = parseDraftMinutes (actMinText (getTaskMetaDraft a task)),
                     reason = trim (reasonText (getTaskMetaDraft a task))\<rparr>
                    (taskId task)]))\<rparr>))
       \<lparr>busy := False\<rparr>"
      using h ne
      by (intro saveTaskMeta_run)
         (simp_all add: pe pc overrunWithoutReason_def r_def d_def)
    then show "saveTaskMeta a day task
              = (loadWeek (a\<lparr>busy := True, error := None,
                   calls := calls a @
                     [Read (filePath day),
                      Write (filePath day)
                        (join_nl ((split_nl md)[idx :=
                           buildTaskLine (isChecked m1) (cleanedText (parseMeta (trim m2)))
                             \<lparr>estMin = Some (Number e), actMin = Some (Number c), reason = r\<rparr>
                             (taskId task)]))],
                   files := (files a)(filePath day \<mapsto>
                        join_nl ((split_nl md)[idx :=
                           buildTaskLine (isChecked m1) (cleanedText (parseMeta (trim m2)))
                             \<lparr>estMin = Some (Number e), actMin = Some (Number c), reason = r\<rparr>
                             (taskId task)]))\<rparr>))
                \<lparr>busy := False\<rparr>"
      by (simp add: pe pc r_def d_def)
  qed
  show ?thesis
    unfolding Let_def d_def [symmetric] e_def [symmetric] c_def [symmetric] r_def [symmetric]
    using 1 2 3 4 by blast
qed

text \<open>
  Estimate 30 and actual 45: without a reason the save only reports the error; with the
  reason \<^verbatim>\<open>late\<close> the line is rebuilt and written.
\<close>

theorem saveTaskMeta_validation_witness:
  "(let a = \<lparr>files = [js ''/t/2026-01-05.md'' \<mapsto> js ''- [x] a <!-- tid:abcdef -->''],
             readOnly = (\<lambda>p. False), entropy = (\<lambda>i. 0), cursor = 0, calls = [],
             anchor = \<lparr>dayNum = 20458, msOfDay = 0\<rparr>, days = [],
             busy = False, error = None, newTaskByDay = Map.empty,
             metaDraftByTask = [js ''abcdef'' \<mapsto> \<lparr>estMinText = js ''30'', actMinText = js '' 45'', reasonText = js ''  ''\<rparr>],
             todoDir = js ''/t'', isEditing = False, lastHashes = Map.empty, zone = plainZone\<rparr>;
        b = \<lparr>files = [js ''/t/2026-01-05.md'' \<mapsto> js ''- [x] a <!-- tid:abcdef -->''],
             readOnly = (\<lambda>p. False), entropy = (\<lambda>i. 0), cursor = 0, calls = [],
             anchor = \<lparr>dayNum = 20458, msOfDay = 0\<rparr>, days = [],
             busy = False, error = None, newTaskByDay = Map.empty,
             metaDraftByTask = [js ''abcdef'' \<mapsto> \<lparr>estMinText = js ''30'', actMinText = js '' 45'', reasonText = js '' late''\<rparr>],
             todoDir = js ''/t'', isEditing = False, lastHashes = Map.empty, zone = plainZone\<rparr>;
        day = \<lparr>date = \<lparr>dayNum = 20458, msOfDay = 0\<rparr>, ymd = js ''2026-01-05'',
               filePath = js ''/t/2026-01-05.md'', tasks = [], missing = False\<rparr>;
        task = \<lparr>estMin = None, actMin = None, reason = [], taskId = js ''abcdef'', lineIndex = 0,
                taskText = js ''a'', taskDone = True, hasId = True\<rparr>;
        new = js ''- [x] a '' @ estMarker @ js ''30 '' @ actMarker @ js ''45 '' @ reasonMarker
                @ js ''late <!-- tid:abcdef -->''
    in saveTaskMeta a day task = a\<lparr>error := Some (Message reasonRequiredText)\<rparr>
     \<and> saveTaskMeta b day task
         = (loadWeek (b\<lparr>busy := True, error := None,
              calls := [Read (js ''/t/2026-01-05.md''), Write (js ''/t/2026-01-05.md'') new],
              files := (files b)(js ''/t/2026-01-05.md'' \<mapsto> new)\<rparr>))
           \<lparr>busy := False\<rparr>)"
proof -
  define a :: app where "a = \<lparr>files = [js ''/t/2026-01-05.md'' \<mapsto> js ''- [x] a <!-- tid:abcdef -->''],
             readOnly = (\<lambda>p. False), entropy = (\<lambda>i. 0), cursor = 0, calls = [],
             anchor = \<lparr>dayNum = 20458, msOfDay = 0\<rparr>, days = [],
             busy = False, error = None, newTaskByDay = Map.empty,
             metaDraftByTask = [js ''abcdef'' \<mapsto> \<lparr>estMinText = js ''30'', actMinText = js '' 45'', reasonText = js ''  ''\<rparr>],
             todoDir = js ''/t'', isEditing = False, lastHashes = Map.empty, zone = plainZone\<rparr>"
  define b :: app where "b = \<lparr>files = [js ''/t/2026-01-05.md'' \<mapsto> js ''- [x] a <!-- tid:abcdef -->''],
             readOnly = (\<lambda>p. False), entropy = (\<lambda>i. 0), cursor = 0, calls = [],
             anchor = \<lparr>dayNum = 20458, msOfDay = 0\<rparr>, days = [],
             busy = False, error = None, newTaskByDay = Map.empty,
             metaDraftByTask = [js ''abcdef'' \<mapsto> \<lparr>estMinText = js ''30'', actMinText = js '' 45'', reasonText = js '' late''\<rparr>],
             todoDir = js ''/t'', isEditing = False, lastHashes = Map.empty, zone = plainZone\<rparr>"
  define day :: DayData where "day = \<lparr>date = \<lparr>dayNum = 20458, msOfDay = 0\<rparr>, ymd = js ''2026-01-05'',
               filePath = js ''/t/2026-01-05.md'', tasks = [], missing = False\<rparr>"
  define task :: Task where "task = \<lparr>estMin = None, actMin = None, reason = [], taskId = js ''abcdef'', lineIndex = 0,
                taskText = js ''a'', taskDone = True, hasId = True\<rparr>"
  define md where "md = js ''- [x] a <!-- tid:abcdef -->''"
  have da: "getTaskMetaDraft a task = \<lparr>estMinText = js ''30'', actMinText = js '' 45'', reasonText = js ''  ''\<rparr>"
    and db: "getTaskMetaDraft b task = \<lparr>estMinText = js ''30'', actMinText = js '' 45'', reasonText = js '' late''\<rparr>"
    by (simp_all add: getTaskMetaDraft_def a_def b_def task_def)
  have tr: "trim (js ''30'') = js ''30''" "trim (js '' 45'') = js ''45''" "trim (js ''  '') = []"
    "trim (js '' late'') = js ''late''"
    by code_simp+
  have dg: "list_all isDigit (js ''30'')" "list_all isDigit (js ''45'')" by code_simp+
  have nu: "Number (js ''30'') = Fin 30" "Number (js ''45'') = Fin 45" by code_simp+
  have gt: "numGreater (Fin 45) (Fin 30)" by (simp add: numGreater_def)
  have sp: "split_nl md = [md]" unfolding md_def by code_simp
  have fi: "findIndex (\<lambda>l. lineHasTaskId l (taskId task)) (split_nl md) = Some 0"
    unfolding sp md_def task_def by code_simp
  have tm: "taskMatch (split_nl md ! 0) = Some (0x78, js ''a <!-- tid:abcdef -->'')"
    unfolding sp md_def by code_simp
  have bl: "buildTaskLine (isChecked 0x78) (cleanedText (parseMeta (trim (js ''a <!-- tid:abcdef -->''))))
              \<lparr>estMin = Some (Fin 30), actMin = Some (Fin 45), reason = js ''late''\<rparr> (js ''abcdef'')
          = js ''- [x] a '' @ estMarker @ js ''30 '' @ actMarker @ js ''45 '' @ reasonMarker
                @ js ''late <!-- tid:abcdef -->''"
    by code_simp
  have 1: "saveTaskMeta a day task = a\<lparr>error := Some (Message reasonRequiredText)\<rparr>"
    using saveTaskMeta_validation [where a = a and task = task and day = day]
    by (simp add: Let_def da tr dg nu gt js_Nil_iff)
  have fb: "files b (filePath day) = Some md" "\<not> readOnly b (filePath day)"
    by (simp_all add: b_def day_def md_def)
  have 2: "saveTaskMeta b day task
         = (loadWeek (b\<lparr>busy := True, error := None,
              calls := [Read (js ''/t/2026-01-05.md''),
                        Write (js ''/t/2026-01-05.md'')
                          (js ''- [x] a '' @ estMarker @ js ''30 '' @ actMarker @ js ''45 '' @ reasonMarker
                             @ js ''late <!-- tid:abcdef -->'')],
              files := (files b)(js ''/t/2026-01-05.md'' \<mapsto>
                          js ''- [x] a '' @ estMarker @ js ''30 '' @ actMarker @ js ''45 '' @ reasonMarker
                             @ js ''late <!-- tid:abcdef -->'')\<rparr>))
           \<lparr>busy := False\<rparr>"
    using saveTaskMeta_validation [where a = b and task = task and day = day and md = md
        and idx = 0 and ?m1.0 = "0x78" and ?m2.0 = "js ''a <!-- tid:abcdef -->''"] fb fi tm
    by (simp add: Let_def db tr dg nu gt js_Nil_iff sp)
       (simp add: bl task_def join_nl_def b_def day_def)
  show ?thesis
    unfolding Let_def a_def [symmetric] b_def [symmetric] day_def [symmetric] task_def [symmetric]
    using 1 2 by simp
qed

text \<open>
  The claim as stated fails: an estimate draft of one space is a non-empty text that is no
  non-negative integer, yet the save reads the file and writes it (the draft counts as
  absent).
\<close>

theorem saveTaskMeta_blank_draft_counterexample:
  "(let a = \<lparr>files = [js ''/t/2026-01-05.md'' \<mapsto> js ''- [x] a <!-- tid:abcdef -->''],
             readOnly = (\<lambda>p. False), entropy = (\<lambda>i. 0), cursor = 0, calls = [],
             anchor = \<lparr>dayNum = 20458, msOfDay = 0\<rparr>, days = [],
             busy = False, error = None, newTaskByDay = Map.empty,
             metaDraftByTask = [js ''abcdef'' \<mapsto> \<lparr>estMinText = js '' '', actMinText = js '' 45'', reasonText = []\<rparr>],
             todoDir = js ''/t'', isEditing = False, lastHashes = Map.empty, zone = plainZone\<rparr>;
        day = \<lparr>date = \<lparr>dayNum = 20458, msOfDay = 0\<rparr>, ymd = js ''2026-01-05'',
               filePath = js ''/t/2026-01-05.md'', tasks = [], missing = False\<rparr>;
        task = \<lparr>estMin = None, actMin = None, reason = [], taskId = js ''abcdef'', lineIndex = 0,
                taskText = js ''a'', taskDone = True, hasId = True\<rparr>;
        new = js ''- [x] a '' @ actMarker @ js ''45 <!-- tid:abcdef -->''
    in estMinText (getTaskMetaDraft a task) \<noteq> []
     \<and> \<not> list_all isDigit (estMinText (getTaskMetaDraft a task))
     \<and> saveTaskMeta a day task
         = (loadWeek (a\<lparr>busy := True, error := None,
              calls := [Read (js ''/t/2026-01-05.md''), Write (js ''/t/2026-01-05.md'') new],
              files := (files a)(js ''/t/2026-01-05.md'' \<mapsto> new)\<rparr>))
           \<lparr>busy := False\<rparr>)"
proof -
  define a :: app where "a = \<lparr>files = [js ''/t/2026-01-05.md'' \<mapsto> js ''- [x] a <!-- tid:abcdef -->''],
             readOnly = (\<lambda>p. False), entropy = (\<lambda>i. 0), cursor = 0, calls = [],
             anchor = \<lparr>dayNum = 20458, msOfDay = 0\<rparr>, days = [],
             busy = False, error = None, newTaskByDay = Map.empty,
             metaDraftByTask = [js ''abcdef'' \<mapsto> \<lparr>estMinText = js '' '', actMinText = js '' 45'', reasonText = []\<rparr>],
             todoDir = js ''/t'', isEditing = False, lastHashes = Map.empty, zone = plainZone\<rparr>"
  define day :: DayData where "day = \<lparr>date = \<lparr>dayNum = 20458, msOfDay = 0\<rparr>, ymd = js ''2026-01-05'',
               filePath = js ''/t/2026-01-05.md'', tasks = [], missing = False\<rparr>"
  define task :: Task where "task = \<lparr>estMin = None, actMin = None, reason = [], taskId = js ''abcdef'', lineIndex = 0,
                taskText = js ''a'', taskDone = True, hasId = True\<rparr>"
  define md where "md = js ''- [x] a <!-- tid:abcdef -->''"
  have da: "getTaskMetaDraft a task = \<lparr>estMinText = js '' '', actMinText = js '' 45'', reasonText = []\<rparr>"
    by (simp add: getTaskMetaDraft_def a_def task_def)
  have pe: "parseDraftMinutes (js '' '') = None" "parseDraftMinutes (js '' 45'') = Some (Fin 45)"
    "trim [] = []"
    by code_simp+
  have nd: "\<not> list_all isDigit (js '' '')" by code_simp
  have sp: "split_nl md = [md]" unfolding md_def by code_simp
  have fi: "findIndex (\<lambda>l. lineHasTaskId l (taskId task)) (split_nl md) = Some 0"
    unfolding sp md_def task_def by code_simp
  have tm: "taskMatch (split_nl md ! 0) = Some (0x78, js ''a <!-- tid:abcdef -->'')"
    unfolding sp md_def by code_simp
  have bl: "buildTaskLine (isChecked 0x78) (cleanedText (parseMeta (trim (js ''a <!-- tid:abcdef -->''))))
              \<lparr>estMin = None, actMin = Some (Fin 45), reason = []\<rparr> (js ''abcdef'')
          = js ''- [x] a '' @ actMarker @ js ''45 <!-- tid:abcdef -->''"
    by code_simp
  have fa: "files a (filePath day) = Some md" "\<not> readOnly a (filePath day)"
    by (simp_all add: a_def day_def md_def)
  have "saveTaskMeta a day task
         = (loadWeek (a\<lparr>busy := True, error := None,
              calls := [Read (js ''/t/2026-01-05.md''),
                        Write (js ''/t/2026-01-05.md'') (js ''- [x] a '' @ actMarker @ js ''45 <!-- tid:abcdef -->'')],
              files := (files a)(js ''/t/2026-01-05.md'' \<mapsto>
                          js ''- [x] a '' @ actMarker @ js ''45 <!-- tid:abcdef -->'')\<rparr>))
           \<lparr>busy := False\<rparr>"
    using saveTaskMeta_run [where a = a and task = task and day = day and md = md
        and idx = 0 and ?m1.0 = "0x78" and ?m2.0 = "js ''a <!-- tid:abcdef -->''"] fa fi tm
    by (simp add: da pe overrunWithoutReason_def sp)
       (simp add: bl task_def join_nl_def a_def day_def)
  then show ?thesis
    unfolding Let_def a_def [symmetric] day_def [symmetric] task_def [symmetric]
    using nd by (simp add: da js_Nil_iff)
qed

subsection \<open>Toggle\<close>

text \<open>
  C5. When \<open>toggleTask\<close> reads the file, finds the task's line and the line matches the
  checkbox pattern (and the write succeeds), it writes the file in which exactly that line
  is replaced by a line of the same length that differs from it in exactly one code unit,
  the mark between the brackets: a space becomes \<open>x\<close>, \<open>x\<close> and \<open>X\<close> become a space. Every
  other code unit of the line and every other line of the file is as before. The week
  reload follows the write.
\<close>

theorem toggleTask_frame:
  assumes "files a (filePath day) = Some md"
    and "findIndex (\<lambda>l. lineHasTaskId l (taskId task)) (split_nl md) = Some idx"
    and "toggleMatch (split_nl md ! idx) = Some (m1, m2, m3)"
    and "\<not> readOnly a (filePath day)"
  shows "\<exists>line'.
           toggleTask a day task
             = (loadWeek (a\<lparr>busy := True, error := None,
                           calls := calls a @ [Read (filePath day),
                                               Write (filePath day) (join_nl ((split_nl md)[idx := line']))],
                           files := (files a)(filePath day \<mapsto> join_nl ((split_nl md)[idx := line']))\<rparr>))
               \<lparr>busy := False\<rparr>
         \<and> split_nl (join_nl ((split_nl md)[idx := line'])) = (split_nl md)[idx := line']
         \<and> length line' = length (split_nl md ! idx)
         \<and> (\<forall>j < length line'. j \<noteq> length m1 \<longrightarrow> line' ! j = split_nl md ! idx ! j)
         \<and> length m1 < length line'
         \<and> split_nl md ! idx ! length m1 = m2
         \<and> (m2 = 0x20 \<or> m2 = 0x78 \<or> m2 = 0x58)
         \<and> line' ! length m1 = (if m2 = 0x20 then 0x78 else 0x20)"
proof -
  let ?lines = "split_nl md"
  let ?line = "?lines ! idx"
  define nextMark :: jschar where "nextMark = (if isChecked m2 then 0x20 else 0x78)"
  define line' where "line' = m1 @ [nextMark] @ m3"
  from toggleMatch_decomp [OF assms(3)]
  have dec: "?line = m1 @ [m2] @ m3" and mark: "m2 = 0x20 \<or> m2 = 0x78 \<or> m2 = 0x58" .
  from findIndex_Some [OF assms(2)] have idx: "idx < length ?lines" by simp
  then have "?line \<in> set ?lines" by simp
  then have nl: "0x0A \<notin> set ?line" by (rule split_nl_no_newline)
  have nm: "nextMark \<noteq> 0x0A" by (simp add: nextMark_def)
  have nl': "0x0A \<notin> set line'"
    using nl nm unfolding dec line'_def by auto
  have "\<forall>l \<in> set (?lines[idx := line']). 0x0A \<notin> set l"
  proof
    fix l assume "l \<in> set (?lines[idx := line'])"
    then have "l = line' \<or> l \<in> set ?lines"
      using set_update_subset_insert [of ?lines idx line'] by auto
    then show "0x0A \<notin> set l" using nl' split_nl_no_newline by blast
  qed
  moreover have "?lines[idx := line'] \<noteq> []" using split_nl_nonempty [of md] by simp
  ultimately have sj: "split_nl (join_nl (?lines[idx := line'])) = ?lines[idx := line']"
    by (simp add: split_join_nl)
  have run: "toggleTask a day task
             = (loadWeek (a\<lparr>busy := True, error := None,
                           calls := calls a @ [Read (filePath day),
                                               Write (filePath day) (join_nl (?lines[idx := line']))],
                           files := (files a)(filePath day \<mapsto> join_nl (?lines[idx := line']))\<rparr>))
               \<lparr>busy := False\<rparr>"
    using assms
    by (simp add: toggleTask_def Let_def readTextFile_def writeTextFile_def line'_def nextMark_def)
  have len: "length line' = length ?line" by (simp add: dec line'_def)
  have other: "\<forall>j < length line'. j \<noteq> length m1 \<longrightarrow> line' ! j = ?line ! j"
    by (auto simp: dec line'_def nth_append nth_Cons')
  have at: "?line ! length m1 = m2" "line' ! length m1 = nextMark" "length m1 < length line'"
    by (simp_all add: dec line'_def)
  have nmv: "nextMark = (if m2 = 0x20 then 0x78 else 0x20)"
    using mark by (auto simp: nextMark_def isChecked_def)
  show ?thesis
    using run sj len other at mark nmv by blast
qed


text \<open>
  The file \<^verbatim>\<open>## Todo\<close>, \<^verbatim>\<open>- [ ] a <!-- tid:abcdef -->\<close>: toggling the task writes a file
  whose line 1 has the same 27 code units but for an \<open>x\<close> at index 3.
\<close>

theorem toggleTask_frame_witness:
  "(let a = \<lparr>files = [js ''/t/2026-01-05.md'' \<mapsto> js ''## Todo\<newline>- [ ] a <!-- tid:abcdef -->''],
             readOnly = (\<lambda>p. False), entropy = (\<lambda>i. 0), cursor = 0, calls = [],
             anchor = \<lparr>dayNum = 20458, msOfDay = 0\<rparr>, days = [],
             busy = False, error = None, newTaskByDay = Map.empty, metaDraftByTask = Map.empty,
             todoDir = js ''/t'', isEditing = False, lastHashes = Map.empty, zone = plainZone\<rparr>;
        day = \<lparr>date = \<lparr>dayNum = 20458, msOfDay = 0\<rparr>, ymd = js ''2026-01-05'',
               filePath = js ''/t/2026-01-05.md'', tasks = [], missing = False\<rparr>;
        task = \<lparr>estMin = None, actMin = None, reason = [], taskId = js ''abcdef'', lineIndex = 7,
                taskText = js ''a'', taskDone = False, hasId = True\<rparr>;
        line = js ''- [ ] a <!-- tid:abcdef -->''
    in \<exists>line'.
         toggleTask a day task
           = (loadWeek (a\<lparr>busy := True, error := None,
                         calls := [Read (js ''/t/2026-01-05.md''),
                                   Write (js ''/t/2026-01-05.md'') (join_nl [js ''## Todo'', line'])],
                         files := (files a)(js ''/t/2026-01-05.md'' \<mapsto> join_nl [js ''## Todo'', line'])\<rparr>))
             \<lparr>busy := False\<rparr>
         \<and> length line' = 27
         \<and> (\<forall>j < 27. j \<noteq> 3 \<longrightarrow> line' ! j = line ! j)
         \<and> line ! 3 = 0x20 \<and> line' ! 3 = 0x78)"
proof -
  define a :: app where "a = \<lparr>files = [js ''/t/2026-01-05.md'' \<mapsto> js ''## Todo\<newline>- [ ] a <!-- tid:abcdef -->''],
             readOnly = (\<lambda>p. False), entropy = (\<lambda>i. 0), cursor = 0, calls = [],
             anchor = \<lparr>dayNum = 20458, msOfDay = 0\<rparr>, days = [],
             busy = False, error = None, newTaskByDay = Map.empty, metaDraftByTask = Map.empty,
             todoDir = js ''/t'', isEditing = False, lastHashes = Map.empty, zone = plainZone\<rparr>"
  define day :: DayData where "day = \<lparr>date = \<lparr>dayNum = 20458, msOfDay = 0\<rparr>, ymd = js ''2026-01-05'',
               filePath = js ''/t/2026-01-05.md'', tasks = [], missing = False\<rparr>"
  define task :: Task where "task = \<lparr>estMin = None, actMin = None, reason = [], taskId = js ''abcdef'', lineIndex = 7,
                taskText = js ''a'', taskDone = False, hasId = True\<rparr>"
  define md where "md = js ''## Todo\<newline>- [ ] a <!-- tid:abcdef -->''"
  have sp: "split_nl md = [js ''## Todo'', js ''- [ ] a <!-- tid:abcdef -->'']"
    unfolding md_def by code_simp
  have h1: "files a (filePath day) = Some md" by (simp add: a_def day_def md_def)
  have h2: "findIndex (\<lambda>l. lineHasTaskId l (taskId task)) (split_nl md) = Some 1"
    unfolding sp task_def by code_simp
  have h3: "toggleMatch (split_nl md ! 1) = Some (js ''- ['', 0x20, js ''] a <!-- tid:abcdef -->'')"
    unfolding sp by code_simp
  have h4: "\<not> readOnly a (filePath day)" by (simp add: a_def)
  have l: "length (js ''- [ ] a <!-- tid:abcdef -->'') = 27" "length (js ''- ['') = 3"
    "js ''- [ ] a <!-- tid:abcdef -->'' ! 3 = 0x20"
    by (simp_all add: js_def)
  from toggleTask_frame [OF h1 h2 h3 h4]
  obtain line' where
    r: "toggleTask a day task
         = (loadWeek (a\<lparr>busy := True, error := None,
               calls := calls a @ [Read (filePath day),
                                   Write (filePath day) (join_nl ((split_nl md)[1 := line']))],
               files := (files a)(filePath day \<mapsto> join_nl ((split_nl md)[1 := line']))\<rparr>))
           \<lparr>busy := False\<rparr>"
    and len: "length line' = length (split_nl md ! 1)"
    and oth: "\<forall>j < length line'. j \<noteq> length (js ''- ['') \<longrightarrow> line' ! j = split_nl md ! 1 ! j"
    and at: "line' ! length (js ''- ['') = (if (0x20 :: jschar) = 0x20 then 0x78 else 0x20)"
    by blast
  have "\<forall>j < 27. j \<noteq> 3 \<longrightarrow> line' ! j = js ''- [ ] a <!-- tid:abcdef -->'' ! j"
    using oth len by (simp add: sp l)
  moreover have "length line' = 27" "line' ! 3 = 0x78"
    using len at by (simp_all add: sp l)
  moreover have "toggleTask a day task
         = (loadWeek (a\<lparr>busy := True, error := None,
               calls := [Read (js ''/t/2026-01-05.md''),
                         Write (js ''/t/2026-01-05.md'') (join_nl [js ''## Todo'', line'])],
               files := (files a)(js ''/t/2026-01-05.md'' \<mapsto> join_nl [js ''## Todo'', line'])\<rparr>))
           \<lparr>busy := False\<rparr>"
    using r by (simp add: sp a_def day_def)
  ultimately show ?thesis
    unfolding Let_def a_def [symmetric] day_def [symmetric] task_def [symmetric]
    using l(3) by blast
qed

subsection \<open>Locating the task\<close>

lemma loadDay_error: "error (fst (loadDay a d)) = error a"
  unfolding loadDay_def Let_def fileExists_def readTextFile_def writeTextFile_def
  by (simp split: prod.splits option.splits)

lemma loadDays_error: "error (fst (loadDays a ws ns)) = error a"
proof (induction ns arbitrary: a)
  case Nil
  then show ?case by simp
next
  case (Cons i rest)
  obtain a' r where l: "loadDay a (addDays (zone a) ws (int i)) = (a', r)"
    by (cases "loadDay a (addDays (zone a) ws (int i))")
  from loadDay_error [of a "addDays (zone a) ws (int i)"] l have e: "error a' = error a" by simp
  show ?case
  proof (cases r)
    case None
    with l e show ?thesis by simp
  next
    case (Some dd)
    obtain a'' r' where l': "loadDays a' ws rest = (a'', r')"
      by (cases "loadDays a' ws rest")
    from Cons.IH [of a'] l' e have "error a'' = error a" by simp
    with l l' Some show ?thesis by (cases r') simp_all
  qed
qed

lemma loadWeek_error: "error (loadWeek a) = None \<or> error (loadWeek a) = Some Thrown"
proof (cases "todoDir a = []")
  case True
  then show ?thesis by (simp add: loadWeek_def Let_def)
next
  case False
  define b where "b = a\<lparr>calls := calls a @ [Reload], busy := True, error := None\<rparr>"
  obtain a' r where l: "loadDays b (startOfWeekMonday (zone b) (anchor b)) [0, 1, 2, 3, 4, 5, 6] = (a', r)"
    by (cases "loadDays b (startOfWeekMonday (zone b) (anchor b)) [0, 1, 2, 3, 4, 5, 6]")
  from loadDays_error [of b "startOfWeekMonday (zone b) (anchor b)" "[0, 1, 2, 3, 4, 5, 6]"] l
  have "error a' = None" by (simp add: b_def)
  then show ?thesis
    using False l unfolding loadWeek_def Let_def b_def [symmetric]
    by (cases r) (simp_all add: b_def)
qed

lemma loadDay_ok:
  assumes "\<forall>p. \<not> readOnly a p"
  shows "snd (loadDay a d) \<noteq> None \<and> (\<forall>p. \<not> readOnly (fst (loadDay a d)) p)"
  using assms
  unfolding loadDay_def Let_def fileExists_def readTextFile_def writeTextFile_def
  by (simp split: prod.splits option.splits)

lemma loadDays_ok:
  assumes "\<forall>p. \<not> readOnly a p"
  shows "snd (loadDays a ws ns) \<noteq> None"
  using assms
proof (induction ns arbitrary: a)
  case Nil
  then show ?case by simp
next
  case (Cons i rest)
  obtain a' r where l: "loadDay a (addDays (zone a) ws (int i)) = (a', r)"
    by (cases "loadDay a (addDays (zone a) ws (int i))")
  from loadDay_ok [OF Cons.prems, of "addDays (zone a) ws (int i)"] l
  obtain dd where r: "r = Some dd" and ro: "\<forall>p. \<not> readOnly a' p" by auto
  obtain a'' r' where l': "loadDays a' ws rest = (a'', r')"
    by (cases "loadDays a' ws rest")
  from Cons.IH [OF ro] l' have "r' \<noteq> None" by simp
  with l l' r show ?case by (cases r') simp_all
qed

lemma loadWeek_error_None:
  assumes "\<forall>p. \<not> readOnly a p"
  shows "error (loadWeek a) = None"
proof (cases "todoDir a = []")
  case True
  then show ?thesis by (simp add: loadWeek_def Let_def)
next
  case False
  define b where "b = a\<lparr>calls := calls a @ [Reload], busy := True, error := None\<rparr>"
  obtain a' r where l: "loadDays b (startOfWeekMonday (zone b) (anchor b)) [0, 1, 2, 3, 4, 5, 6] = (a', r)"
    by (cases "loadDays b (startOfWeekMonday (zone b) (anchor b)) [0, 1, 2, 3, 4, 5, 6]")
  from loadDays_error [of b "startOfWeekMonday (zone b) (anchor b)" "[0, 1, 2, 3, 4, 5, 6]"] l
  have e: "error a' = None" by (simp add: b_def)
  have "\<forall>p. \<not> readOnly b p" using assms by (simp add: b_def)
  from loadDays_ok [OF this, of "startOfWeekMonday (zone b) (anchor b)" "[0, 1, 2, 3, 4, 5, 6]"] l
  obtain list where "r = Some list" by auto
  then show ?thesis
    using False l e unfolding loadWeek_def Let_def b_def [symmetric]
    by (simp add: b_def)
qed

text \<open>The line search takes the first line that carries the id, wherever it stands.\<close>

lemma findIndex_first:
  assumes "\<forall>x \<in> set pre. \<not> P x" and "P l"
  shows "findIndex P (pre @ l # post) = Some (length pre)"
  using assms by (induction pre) auto

lemma toggleTask_lineIndex: "toggleTask a day (task\<lparr>lineIndex := k\<rparr>) = toggleTask a day task"
  by (simp add: toggleTask_def)

lemma deleteTask_lineIndex: "deleteTask a day (task\<lparr>lineIndex := k\<rparr>) = deleteTask a day task"
  by (simp add: deleteTask_def cong: option.case_cong prod.case_cong bool.case_cong)

lemma saveTaskMeta_lineIndex:
  "saveTaskMeta a day (task\<lparr>lineIndex := k\<rparr>) = saveTaskMeta a day task"
proof -
  have "getTaskMetaDraft a (task\<lparr>lineIndex := k\<rparr>) = getTaskMetaDraft a task"
    by (simp add: getTaskMetaDraft_def draftOfTask_def split: option.splits)
  then show ?thesis
    by (simp add: saveTaskMeta_def Let_def cong: option.case_cong prod.case_cong bool.case_cong)
qed

lemma deleteTask_located:
  assumes "files a (filePath day) = Some md"
    and "split_nl md = pre @ l # post"
    and "\<forall>x \<in> set pre. \<not> lineHasTaskId x (taskId task)"
    and "lineHasTaskId l (taskId task)"
    and "\<not> readOnly a (filePath day)"
  shows "deleteTask a day task
     = (loadWeek (a\<lparr>busy := True, error := None,
          calls := calls a @ [Read (filePath day), Write (filePath day) (join_nl (pre @ post))],
          files := (files a)(filePath day \<mapsto> join_nl (pre @ post)),
          metaDraftByTask := (metaDraftByTask a)(taskId task := None)\<rparr>))
       \<lparr>busy := False\<rparr>"
proof -
  have "findIndex (\<lambda>x. lineHasTaskId x (taskId task)) (split_nl md) = Some (length pre)"
    unfolding assms(2) using assms(3,4) by (rule findIndex_first)
  then show ?thesis
    using assms(1,2,5)
    by (simp add: deleteTask_def Let_def readTextFile_def writeTextFile_def)
qed

lemma toggleTask_located:
  assumes "files a (filePath day) = Some md"
    and "split_nl md = pre @ l # post"
    and "\<forall>x \<in> set pre. \<not> lineHasTaskId x (taskId task)"
    and "lineHasTaskId l (taskId task)"
    and "toggleMatch l = Some (m1, m2, m3)"
    and "\<not> readOnly a (filePath day)"
  shows "toggleTask a day task
     = (loadWeek (a\<lparr>busy := True, error := None,
          calls := calls a @ [Read (filePath day),
             Write (filePath day)
               (join_nl (pre @ (m1 @ [if isChecked m2 then 0x20 else 0x78] @ m3) # post))],
          files := (files a)(filePath day \<mapsto>
               join_nl (pre @ (m1 @ [if isChecked m2 then 0x20 else 0x78] @ m3) # post))\<rparr>))
       \<lparr>busy := False\<rparr>"
proof -
  have "findIndex (\<lambda>x. lineHasTaskId x (taskId task)) (split_nl md) = Some (length pre)"
    unfolding assms(2) using assms(3,4) by (rule findIndex_first)
  then show ?thesis
    using assms(1,2,5,6)
    by (simp add: toggleTask_def Let_def readTextFile_def writeTextFile_def)
qed

lemma saveTaskMeta_not_found:
  assumes "parseDraftMinutes (estMinText (getTaskMetaDraft a task)) \<noteq> Some NaN"
    and "parseDraftMinutes (actMinText (getTaskMetaDraft a task)) \<noteq> Some NaN"
    and "\<not> overrunWithoutReason (parseDraftMinutes (estMinText (getTaskMetaDraft a task)))
           (parseDraftMinutes (actMinText (getTaskMetaDraft a task)))
           (trim (reasonText (getTaskMetaDraft a task)))"
    and "files a (filePath day) = Some md"
    and "\<forall>l \<in> set (split_nl md). \<not> lineHasTaskId l (taskId task)"
  shows "saveTaskMeta a day task
     = (loadWeek (a\<lparr>busy := True, calls := calls a @ [Read (filePath day)],
                   error := Some (Message notFoundText)\<rparr>))
       \<lparr>busy := False\<rparr>"
proof -
  have "findIndex (\<lambda>l. lineHasTaskId l (taskId task)) (split_nl md) = None"
    using assms(5) by (simp add: findIndex_None)
  then show ?thesis
    using assms(1-4) by (simp add: saveTaskMeta_def Let_def readTextFile_def)
qed

lemma deleteTask_not_found:
  assumes "files a (filePath day) = Some md"
    and "\<forall>l \<in> set (split_nl md). \<not> lineHasTaskId l (taskId task)"
  shows "deleteTask a day task
     = (loadWeek (a\<lparr>busy := True, calls := calls a @ [Read (filePath day)],
                   error := Some (Message notFoundText)\<rparr>))
       \<lparr>busy := False\<rparr>"
proof -
  have "findIndex (\<lambda>l. lineHasTaskId l (taskId task)) (split_nl md) = None"
    using assms(2) by (simp add: findIndex_None)
  then show ?thesis
    using assms(1) by (simp add: deleteTask_def Let_def readTextFile_def)
qed

text \<open>
  C6. The mutations search the file they have just read for the first line with the id
  and ignore \<open>lineIndex\<close> (the lemmas above). When no line carries the id, \<open>toggleTask\<close>
  writes nothing, sets the not-found message and runs the week reload; but the reload
  starts by clearing the error, so when nothing throws the state after the mutation holds
  no message: the not-found message is never what the mutation leaves behind.
\<close>

theorem toggleTask_not_found:
  assumes "files a (filePath day) = Some md"
    and "\<forall>l \<in> set (split_nl md). \<not> lineHasTaskId l (taskId task)"
    and "\<forall>p. \<not> readOnly a p"
  shows "toggleTask a day task
           = (loadWeek (a\<lparr>busy := True, calls := calls a @ [Read (filePath day)],
                         error := Some (Message notFoundText)\<rparr>))
             \<lparr>busy := False\<rparr>
         \<and> error (toggleTask a day task) = None"
proof -
  have "findIndex (\<lambda>l. lineHasTaskId l (taskId task)) (split_nl md) = None"
    using assms(2) by (simp add: findIndex_None)
  then have r: "toggleTask a day task
           = (loadWeek (a\<lparr>busy := True, calls := calls a @ [Read (filePath day)],
                         error := Some (Message notFoundText)\<rparr>))
             \<lparr>busy := False\<rparr>"
    using assms(1) by (simp add: toggleTask_def Let_def readTextFile_def)
  have "error (loadWeek (a\<lparr>busy := True, calls := calls a @ [Read (filePath day)],
                         error := Some (Message notFoundText)\<rparr>)) = None"
    using assms(3) by (intro loadWeek_error_None) simp
  with r show ?thesis by simp
qed

text \<open>
  The task \<^verbatim>\<open>123456\<close> is gone from the file (edited elsewhere): after the toggle the
  error state is empty.
\<close>

theorem toggleTask_not_found_witness:
  "(let a = \<lparr>files = [js ''/t/2026-01-05.md'' \<mapsto> js ''## Todo\<newline>- [ ] a <!-- tid:abcdef -->''],
             readOnly = (\<lambda>p. False), entropy = (\<lambda>i. 0), cursor = 0, calls = [],
             anchor = \<lparr>dayNum = 20458, msOfDay = 0\<rparr>, days = [],
             busy = False, error = None, newTaskByDay = Map.empty, metaDraftByTask = Map.empty,
             todoDir = js ''/t'', isEditing = False, lastHashes = Map.empty, zone = plainZone\<rparr>;
        day = \<lparr>date = \<lparr>dayNum = 20458, msOfDay = 0\<rparr>, ymd = js ''2026-01-05'',
               filePath = js ''/t/2026-01-05.md'', tasks = [], missing = False\<rparr>;
        task = \<lparr>estMin = None, actMin = None, reason = [], taskId = js ''123456'', lineIndex = 1,
                taskText = js ''b'', taskDone = False, hasId = True\<rparr>
    in toggleTask a day task
         = (loadWeek (a\<lparr>busy := True, calls := [Read (js ''/t/2026-01-05.md'')],
                       error := Some (Message notFoundText)\<rparr>))
           \<lparr>busy := False\<rparr>
       \<and> error (toggleTask a day task) = None)"
proof -
  define a :: app where "a = \<lparr>files = [js ''/t/2026-01-05.md'' \<mapsto> js ''## Todo\<newline>- [ ] a <!-- tid:abcdef -->''],
             readOnly = (\<lambda>p. False), entropy = (\<lambda>i. 0), cursor = 0, calls = [],
             anchor = \<lparr>dayNum = 20458, msOfDay = 0\<rparr>, days = [],
             busy = False, error = None, newTaskByDay = Map.empty, metaDraftByTask = Map.empty,
             todoDir = js ''/t'', isEditing = False, lastHashes = Map.empty, zone = plainZone\<rparr>"
  define day :: DayData where "day = \<lparr>date = \<lparr>dayNum = 20458, msOfDay = 0\<rparr>, ymd = js ''2026-01-05'',
               filePath = js ''/t/2026-01-05.md'', tasks = [], missing = False\<rparr>"
  define task :: Task where "task = \<lparr>estMin = None, actMin = None, reason = [], taskId = js ''123456'', lineIndex = 1,
                taskText = js ''b'', taskDone = False, hasId = True\<rparr>"
  define md where "md = js ''## Todo\<newline>- [ ] a <!-- tid:abcdef -->''"
  have sp: "split_nl md = [js ''## Todo'', js ''- [ ] a <!-- tid:abcdef -->'']"
    unfolding md_def by code_simp
  have n1: "\<not> lineHasTaskId (js ''## Todo'') (js ''123456'')"
    and n2: "\<not> lineHasTaskId (js ''- [ ] a <!-- tid:abcdef -->'') (js ''123456'')"
    by code_simp+
  have h1: "files a (filePath day) = Some md" by (simp add: a_def day_def md_def)
  have h2: "\<forall>l \<in> set (split_nl md). \<not> lineHasTaskId l (taskId task)"
    using n1 n2 by (simp add: sp task_def)
  have h3: "\<forall>p. \<not> readOnly a p" by (simp add: a_def)
  from toggleTask_not_found [OF h1 h2 h3]
  have r: "toggleTask a day task
           = (loadWeek (a\<lparr>busy := True, calls := calls a @ [Read (filePath day)],
                         error := Some (Message notFoundText)\<rparr>))
             \<lparr>busy := False\<rparr>"
    and e: "error (toggleTask a day task) = None"
    by blast+
  have c: "calls a @ [Read (filePath day)] = [Read (js ''/t/2026-01-05.md'')]"
    by (simp add: a_def day_def)
  show ?thesis
    unfolding Let_def a_def [symmetric] day_def [symmetric] task_def [symmetric]
    using r e unfolding c by (rule conjI)
qed

subsection \<open>Add\<close>

lemma genTaskId_cursor: "snd (genTaskId ent k) = k + 4"
  by (simp add: genTaskId_def)

lemma addTask_run:
  assumes "trim (getDraft a (ymd day)) \<noteq> []"
    and "files a (filePath day) = Some md"
    and "\<not> readOnly a (filePath day)"
  shows "addTask a day
     = (loadWeek (a\<lparr>busy := True, error := None, cursor := cursor a + 4,
          calls := calls a @
            [Exists (filePath day), Read (filePath day),
             Write (filePath day)
               (join_nl (take (insertPosition (split_nl md)) (split_nl md)
                  @ [js ''- [ ] '' @ trim (getDraft a (ymd day)) @ js '' ''
                       @ taskIdToken (fst (genTaskId (entropy a) (cursor a)))]
                  @ drop (insertPosition (split_nl md)) (split_nl md)))],
          files := (files a)(filePath day \<mapsto>
               join_nl (take (insertPosition (split_nl md)) (split_nl md)
                  @ [js ''- [ ] '' @ trim (getDraft a (ymd day)) @ js '' ''
                       @ taskIdToken (fst (genTaskId (entropy a) (cursor a)))]
                  @ drop (insertPosition (split_nl md)) (split_nl md))),
          newTaskByDay := (newTaskByDay a)(ymd day \<mapsto> [])\<rparr>))
       \<lparr>busy := False\<rparr>"
proof -
  obtain ident k where g: "genTaskId (entropy a) (cursor a) = (ident, k)"
    by (cases "genTaskId (entropy a) (cursor a)")
  then have k: "k = cursor a + 4" using genTaskId_cursor [of "entropy a" "cursor a"] by simp
  show ?thesis
    using assms g k
    by (simp add: addTask_def Let_def fileExists_def readTextFile_def writeTextFile_def getDraft_def)
qed

lemma insertPosition_no_heading:
  assumes "\<forall>l \<in> set lines. toLowerCase (trim l) \<noteq> js ''## todo''"
  shows "insertPosition lines = length lines"
proof -
  from assms have "findIndex (\<lambda>l. toLowerCase (trim l) = js ''## todo'') lines = None"
    by (simp add: findIndex_None)
  then show ?thesis by (simp add: insertPosition_def)
qed

lemma insertPosition_heading:
  assumes "i < length lines" and "toLowerCase (trim (lines ! i)) = js ''## todo''"
    and "\<forall>j < i. toLowerCase (trim (lines ! j)) \<noteq> js ''## todo''"
  shows "i < insertPosition lines" and "insertPosition lines \<le> length lines"
    and "\<forall>j. i < j \<and> j < insertPosition lines \<longrightarrow> trim (lines ! j) = []"
    and "insertPosition lines < length lines \<longrightarrow> trim (lines ! insertPosition lines) \<noteq> []"
proof -
  let ?h = "\<lambda>l. toLowerCase (trim l) = js ''## todo''"
  let ?b = "\<lambda>l. trim l = []"
  let ?rest = "drop (Suc i) lines"
  let ?n = "length (takeWhile ?b ?rest)"
  have "findIndex ?h lines = Some i"
  proof (cases "findIndex ?h lines")
    case None
    then show ?thesis using assms(1,2) by (auto simp: findIndex_None)
  next
    case (Some k)
    from findIndex_Some [OF Some] have "k < length lines" "?h (lines ! k)" "\<forall>j < k. \<not> ?h (lines ! j)"
      by auto
    with assms(2,3) have "k = i" by (meson linorder_neqE_nat)
    with Some show ?thesis by simp
  qed
  then have ip: "insertPosition lines = Suc i + ?n" by (simp add: insertPosition_def)
  have le: "?n \<le> length ?rest" by (rule length_takeWhile_le)
  show "i < insertPosition lines" by (simp add: ip)
  show "insertPosition lines \<le> length lines" using le assms(1) by (simp add: ip)
  show "\<forall>j. i < j \<and> j < insertPosition lines \<longrightarrow> trim (lines ! j) = []"
  proof (intro allI impI)
    fix j assume j: "i < j \<and> j < insertPosition lines"
    then have jn: "j - Suc i < ?n" unfolding ip by arith
    then have "takeWhile ?b ?rest ! (j - Suc i) = ?rest ! (j - Suc i)"
      by (rule takeWhile_nth)
    moreover have "?b (takeWhile ?b ?rest ! (j - Suc i))"
      using jn by (meson nth_mem set_takeWhileD)
    moreover have "?rest ! (j - Suc i) = lines ! j"
      using j jn le by (simp add: ip)
    ultimately show "trim (lines ! j) = []" by simp
  qed
  show "insertPosition lines < length lines \<longrightarrow> trim (lines ! insertPosition lines) \<noteq> []"
  proof
    assume "insertPosition lines < length lines"
    then have "?n < length ?rest" by (simp add: ip)
    then have "\<not> ?b (?rest ! ?n)" by (rule nth_length_takeWhile)
    moreover have "?rest ! ?n = lines ! insertPosition lines"
      using \<open>?n < length ?rest\<close> by (simp add: ip)
    ultimately show "trim (lines ! insertPosition lines) \<noteq> []" by simp
  qed
qed


text \<open>
  C7, as the code has it. With a non-blank draft, a readable file and a write that
  succeeds, \<open>addTask\<close> draws a fresh id (eight hex digits from the entropy source, the
  cursor moves on by four bytes) and writes the old lines with one new checkbox line
  inserted at index \<open>k\<close>; the reload follows. The heading is the first line that, trimmed
  and lower-cased, is \<^verbatim>\<open>## todo\<close>: \<open>k\<close> lies after it, only blank lines lie between,
  and line \<open>k\<close>, if there is one, is not blank. Without such a line \<open>k\<close> is the end of
  the file. All old lines stay, in order.
\<close>

theorem addTask_insertion:
  assumes "trim (getDraft a (ymd day)) \<noteq> []"
    and "files a (filePath day) = Some md"
    and "\<not> readOnly a (filePath day)"
  shows "\<exists>k taskLine.
     taskLine = js ''- [ ] '' @ trim (getDraft a (ymd day)) @ js '' ''
                  @ taskIdToken (fst (genTaskId (entropy a) (cursor a)))
   \<and> length (fst (genTaskId (entropy a) (cursor a))) = 8
   \<and> list_all isHexDigit (fst (genTaskId (entropy a) (cursor a)))
   \<and> addTask a day
       = (loadWeek (a\<lparr>busy := True, error := None, cursor := cursor a + 4,
            calls := calls a @
              [Exists (filePath day), Read (filePath day),
               Write (filePath day)
                 (join_nl (take k (split_nl md) @ [taskLine] @ drop k (split_nl md)))],
            files := (files a)(filePath day \<mapsto>
                 join_nl (take k (split_nl md) @ [taskLine] @ drop k (split_nl md))),
            newTaskByDay := (newTaskByDay a)(ymd day \<mapsto> [])\<rparr>))
         \<lparr>busy := False\<rparr>
   \<and> k \<le> length (split_nl md)
   \<and> ((\<forall>l \<in> set (split_nl md). toLowerCase (trim l) \<noteq> js ''## todo'') \<longrightarrow> k = length (split_nl md))
   \<and> (\<forall>i < length (split_nl md).
         toLowerCase (trim (split_nl md ! i)) = js ''## todo''
         \<and> (\<forall>j < i. toLowerCase (trim (split_nl md ! j)) \<noteq> js ''## todo'')
         \<longrightarrow> i < k
             \<and> (\<forall>j. i < j \<and> j < k \<longrightarrow> trim (split_nl md ! j) = [])
             \<and> (k < length (split_nl md) \<longrightarrow> trim (split_nl md ! k) \<noteq> []))
   \<and> (0x0A \<notin> set (trim (getDraft a (ymd day)))
        \<longrightarrow> split_nl (join_nl (take k (split_nl md) @ [taskLine] @ drop k (split_nl md)))
            = take k (split_nl md) @ [taskLine] @ drop k (split_nl md))"
proof -
  let ?lines = "split_nl md"
  let ?h = "\<lambda>l. toLowerCase (trim l) = js ''## todo''"
  define k where "k = insertPosition ?lines"
  define ident where "ident = fst (genTaskId (entropy a) (cursor a))"
  define taskLine where "taskLine = js ''- [ ] '' @ trim (getDraft a (ymd day)) @ js '' '' @ taskIdToken ident"
  have run: "addTask a day
       = (loadWeek (a\<lparr>busy := True, error := None, cursor := cursor a + 4,
            calls := calls a @
              [Exists (filePath day), Read (filePath day),
               Write (filePath day) (join_nl (take k ?lines @ [taskLine] @ drop k ?lines))],
            files := (files a)(filePath day \<mapsto> join_nl (take k ?lines @ [taskLine] @ drop k ?lines)),
            newTaskByDay := (newTaskByDay a)(ymd day \<mapsto> [])\<rparr>))
         \<lparr>busy := False\<rparr>"
    unfolding k_def taskLine_def ident_def by (rule addTask_run [OF assms])
  have kle: "k \<le> length ?lines"
  proof (cases "findIndex ?h ?lines")
    case None
    then show ?thesis by (simp add: k_def insertPosition_def)
  next
    case (Some i)
    from findIndex_Some [OF Some] show ?thesis
      unfolding k_def by (intro insertPosition_heading(2) [of i]) auto
  qed
  have none: "(\<forall>l \<in> set ?lines. \<not> ?h l) \<longrightarrow> k = length ?lines"
    unfolding k_def using insertPosition_no_heading by blast
  have some: "\<forall>i < length ?lines. ?h (?lines ! i) \<and> (\<forall>j < i. \<not> ?h (?lines ! j))
         \<longrightarrow> i < k \<and> (\<forall>j. i < j \<and> j < k \<longrightarrow> trim (?lines ! j) = [])
             \<and> (k < length ?lines \<longrightarrow> trim (?lines ! k) \<noteq> [])"
    unfolding k_def using insertPosition_heading by blast
  have sj: "0x0A \<notin> set (trim (getDraft a (ymd day)))
        \<longrightarrow> split_nl (join_nl (take k ?lines @ [taskLine] @ drop k ?lines))
            = take k ?lines @ [taskLine] @ drop k ?lines"
  proof
    assume nn: "0x0A \<notin> set (trim (getDraft a (ymd day)))"
    have hx: "list_all isHexDigit ident" unfolding ident_def using genTaskId_hex by blast
    have "0x0A \<notin> set ident"
    proof
      assume "0x0A \<in> set ident"
      with hx have "isHexDigit 0x0A" by (simp add: list_all_iff)
      then show False by (simp add: isHexDigit_def)
    qed
    with nn have tl: "0x0A \<notin> set taskLine"
      by (auto simp: taskLine_def taskIdToken_def js_def)
    have "\<forall>l \<in> set (take k ?lines @ [taskLine] @ drop k ?lines). 0x0A \<notin> set l"
    proof
      fix l assume "l \<in> set (take k ?lines @ [taskLine] @ drop k ?lines)"
      then have "l = taskLine \<or> l \<in> set ?lines"
        by (auto dest: in_set_takeD in_set_dropD)
      then show "0x0A \<notin> set l" using tl split_nl_no_newline by blast
    qed
    then show "split_nl (join_nl (take k ?lines @ [taskLine] @ drop k ?lines))
            = take k ?lines @ [taskLine] @ drop k ?lines"
      by (intro split_join_nl) simp_all
  qed
  have "taskLine = js ''- [ ] '' @ trim (getDraft a (ymd day)) @ js '' ''
                  @ taskIdToken (fst (genTaskId (entropy a) (cursor a)))"
    by (simp add: taskLine_def ident_def)
  moreover have "length (fst (genTaskId (entropy a) (cursor a))) = 8"
    "list_all isHexDigit (fst (genTaskId (entropy a) (cursor a)))"
    using genTaskId_hex by blast+
  ultimately show ?thesis
    using run kle none some sj by blast
qed


text \<open>
  A file with a title, the heading, a blank line and a task: the new line goes to index 3,
  between the blank line and the old task.
\<close>

theorem addTask_insertion_witness:
  "(let a = \<lparr>files = [js ''/t/2026-01-05.md'' \<mapsto> js ''# Day\<newline>## Todo\<newline>\<newline>- [ ] old <!-- tid:abcdef -->''],
             readOnly = (\<lambda>p. False), entropy = (\<lambda>i. 0), cursor = 0, calls = [],
             anchor = \<lparr>dayNum = 20458, msOfDay = 0\<rparr>, days = [],
             busy = False, error = None, newTaskByDay = [js ''2026-01-05'' \<mapsto> js ''  new ''],
             metaDraftByTask = Map.empty,
             todoDir = js ''/t'', isEditing = False, lastHashes = Map.empty, zone = plainZone\<rparr>;
        day = \<lparr>date = \<lparr>dayNum = 20458, msOfDay = 0\<rparr>, ymd = js ''2026-01-05'',
               filePath = js ''/t/2026-01-05.md'', tasks = [], missing = False\<rparr>;
        new = js ''# Day\<newline>## Todo\<newline>\<newline>- [ ] new <!-- tid:00000000 -->\<newline>- [ ] old <!-- tid:abcdef -->''
    in addTask a day
         = (loadWeek (a\<lparr>busy := True, error := None, cursor := 4,
              calls := [Exists (js ''/t/2026-01-05.md''), Read (js ''/t/2026-01-05.md''),
                        Write (js ''/t/2026-01-05.md'') new],
              files := (files a)(js ''/t/2026-01-05.md'' \<mapsto> new),
              newTaskByDay := (newTaskByDay a)(js ''2026-01-05'' \<mapsto> [])\<rparr>))
           \<lparr>busy := False\<rparr>)"
proof -
  define a :: app where "a = \<lparr>files = [js ''/t/2026-01-05.md'' \<mapsto> js ''# Day\<newline>## Todo\<newline>\<newline>- [ ] old <!-- tid:abcdef -->''],
             readOnly = (\<lambda>p. False), entropy = (\<lambda>i. 0), cursor = 0, calls = [],
             anchor = \<lparr>dayNum = 20458, msOfDay = 0\<rparr>, days = [],
             busy = False, error = None, newTaskByDay = [js ''2026-01-05'' \<mapsto> js ''  new ''],
             metaDraftByTask = Map.empty,
             todoDir = js ''/t'', isEditing = False, lastHashes = Map.empty, zone = plainZone\<rparr>"
  define day :: DayData where "day = \<lparr>date = \<lparr>dayNum = 20458, msOfDay = 0\<rparr>, ymd = js ''2026-01-05'',
               filePath = js ''/t/2026-01-05.md'', tasks = [], missing = False\<rparr>"
  define md where "md = js ''# Day\<newline>## Todo\<newline>\<newline>- [ ] old <!-- tid:abcdef -->''"
  define l0 where "l0 = js ''# Day''"
  define l1 where "l1 = js ''## Todo''"
  define l3 where "l3 = js ''- [ ] old <!-- tid:abcdef -->''"
  have dr: "getDraft a (ymd day) = js ''  new ''" by (simp add: a_def day_def getDraft_def)
  have tr: "trim (js ''  new '') = js ''new''" by code_simp
  have sp: "split_nl md = [l0, l1, [], l3]" unfolding md_def l0_def l1_def l3_def by code_simp
  have hd: "toLowerCase (trim l0) \<noteq> js ''## todo''" "toLowerCase (trim l1) = js ''## todo''"
    "trim [] = []" "trim l3 \<noteq> []"
    unfolding l0_def l1_def l3_def by code_simp+
  have gi: "fst (genTaskId (\<lambda>i. 0) 0) = js ''00000000''" by code_simp
  have h1: "trim (getDraft a (ymd day)) \<noteq> []" by (simp add: dr tr js_Nil_iff)
  have h2: "files a (filePath day) = Some md" by (simp add: a_def day_def md_def)
  have h3: "\<not> readOnly a (filePath day)" by (simp add: a_def)
  have nn: "0x0A \<notin> set (js ''new'')" by (simp add: js_def)
  from addTask_insertion [OF h1 h2 h3]
  obtain k taskLine where
    t: "taskLine = js ''- [ ] '' @ trim (getDraft a (ymd day)) @ js '' ''
                  @ taskIdToken (fst (genTaskId (entropy a) (cursor a)))"
    and r: "addTask a day
       = (loadWeek (a\<lparr>busy := True, error := None, cursor := cursor a + 4,
            calls := calls a @
              [Exists (filePath day), Read (filePath day),
               Write (filePath day)
                 (join_nl (take k (split_nl md) @ [taskLine] @ drop k (split_nl md)))],
            files := (files a)(filePath day \<mapsto>
                 join_nl (take k (split_nl md) @ [taskLine] @ drop k (split_nl md))),
            newTaskByDay := (newTaskByDay a)(ymd day \<mapsto> [])\<rparr>))
         \<lparr>busy := False\<rparr>"
    and kle: "k \<le> length (split_nl md)"
    and some: "\<forall>i < length (split_nl md).
         toLowerCase (trim (split_nl md ! i)) = js ''## todo''
         \<and> (\<forall>j < i. toLowerCase (trim (split_nl md ! j)) \<noteq> js ''## todo'')
         \<longrightarrow> i < k
             \<and> (\<forall>j. i < j \<and> j < k \<longrightarrow> trim (split_nl md ! j) = [])
             \<and> (k < length (split_nl md) \<longrightarrow> trim (split_nl md ! k) \<noteq> [])"
    by blast
  have n: "length (split_nl md) = 4" "split_nl md ! 1 = l1" "split_nl md ! 2 = []"
    "split_nl md ! 3 = l3" "\<forall>j < 1. split_nl md ! j = l0"
    by (simp_all add: sp)
  have p: "1 < length (split_nl md)" "toLowerCase (trim (split_nl md ! 1)) = js ''## todo''"
    "\<forall>j < 1. toLowerCase (trim (split_nl md ! j)) \<noteq> js ''## todo''"
    using hd n by simp_all
  with some have k1: "1 < k"
    and bl: "\<forall>j. 1 < j \<and> j < k \<longrightarrow> trim (split_nl md ! j) = []"
    and nb: "k < length (split_nl md) \<longrightarrow> trim (split_nl md ! k) \<noteq> []"
    by blast+
  from k1 kle n(1) have "k = 2 \<or> k = 3 \<or> k = 4" by arith
  moreover have "k \<noteq> 2" using nb n hd by auto
  moreover have "k \<noteq> 4" using bl [rule_format, of 3] n hd by auto
  ultimately have k: "k = 3" by simp
  have tl: "taskLine = js ''- [ ] new <!-- tid:00000000 -->''"
    unfolding t dr tr by (simp add: a_def gi taskIdToken_def js_def)
  have jn: "join_nl [l0, l1, [], js ''- [ ] new <!-- tid:00000000 -->'', l3]
      = js ''# Day\<newline>## Todo\<newline>\<newline>- [ ] new <!-- tid:00000000 -->\<newline>- [ ] old <!-- tid:abcdef -->''"
    unfolding l0_def l1_def l3_def by (simp add: join_nl_def js_def)
  show ?thesis
    unfolding Let_def a_def [symmetric] day_def [symmetric]
    using r by (simp add: k sp tl jn) (simp add: a_def day_def)
qed

text \<open>
  The claim as stated fails: this file has no line that is literally \<^verbatim>\<open>## Todo\<close>, yet the
  new line is not appended at the end but inserted after the line \<^verbatim>\<open>## TODO\<close>.
\<close>

theorem addTask_literal_heading_counterexample:
  "(let a = \<lparr>files = [js ''/t/2026-01-05.md'' \<mapsto> js ''## TODO\<newline>foo''],
             readOnly = (\<lambda>p. False), entropy = (\<lambda>i. 0), cursor = 0, calls = [],
             anchor = \<lparr>dayNum = 20458, msOfDay = 0\<rparr>, days = [],
             busy = False, error = None, newTaskByDay = [js ''2026-01-05'' \<mapsto> js ''new''],
             metaDraftByTask = Map.empty,
             todoDir = js ''/t'', isEditing = False, lastHashes = Map.empty, zone = plainZone\<rparr>;
        day = \<lparr>date = \<lparr>dayNum = 20458, msOfDay = 0\<rparr>, ymd = js ''2026-01-05'',
               filePath = js ''/t/2026-01-05.md'', tasks = [], missing = False\<rparr>;
        new = js ''## TODO\<newline>- [ ] new <!-- tid:00000000 -->\<newline>foo''
    in js ''## Todo'' \<notin> set (split_nl (js ''## TODO\<newline>foo''))
     \<and> new \<noteq> js ''## TODO\<newline>foo\<newline>- [ ] new <!-- tid:00000000 -->''
     \<and> addTask a day
         = (loadWeek (a\<lparr>busy := True, error := None, cursor := 4,
              calls := [Exists (js ''/t/2026-01-05.md''), Read (js ''/t/2026-01-05.md''),
                        Write (js ''/t/2026-01-05.md'') new],
              files := (files a)(js ''/t/2026-01-05.md'' \<mapsto> new),
              newTaskByDay := (newTaskByDay a)(js ''2026-01-05'' \<mapsto> [])\<rparr>))
           \<lparr>busy := False\<rparr>)"
proof -
  define a :: app where "a = \<lparr>files = [js ''/t/2026-01-05.md'' \<mapsto> js ''## TODO\<newline>foo''],
             readOnly = (\<lambda>p. False), entropy = (\<lambda>i. 0), cursor = 0, calls = [],
             anchor = \<lparr>dayNum = 20458, msOfDay = 0\<rparr>, days = [],
             busy = False, error = None, newTaskByDay = [js ''2026-01-05'' \<mapsto> js ''new''],
             metaDraftByTask = Map.empty,
             todoDir = js ''/t'', isEditing = False, lastHashes = Map.empty, zone = plainZone\<rparr>"
  define day :: DayData where "day = \<lparr>date = \<lparr>dayNum = 20458, msOfDay = 0\<rparr>, ymd = js ''2026-01-05'',
               filePath = js ''/t/2026-01-05.md'', tasks = [], missing = False\<rparr>"
  define md where "md = js ''## TODO\<newline>foo''"
  have dr: "getDraft a (ymd day) = js ''new''" by (simp add: a_def day_def getDraft_def)
  have tr: "trim (js ''new'') = js ''new''" by code_simp
  have sp: "split_nl md = [js ''## TODO'', js ''foo'']" unfolding md_def by code_simp
  have ip: "insertPosition [js ''## TODO'', js ''foo''] = 1" by code_simp
  have gi: "fst (genTaskId (\<lambda>i. 0) 0) = js ''00000000''" by code_simp
  have h1: "trim (getDraft a (ymd day)) \<noteq> []" by (simp add: dr tr js_Nil_iff)
  have h2: "files a (filePath day) = Some md" by (simp add: a_def day_def md_def)
  have h3: "\<not> readOnly a (filePath day)" by (simp add: a_def)
  have jn: "join_nl [js ''## TODO'', js ''- [ ] new <!-- tid:00000000 -->'', js ''foo'']
      = js ''## TODO\<newline>- [ ] new <!-- tid:00000000 -->\<newline>foo''"
    by (simp add: join_nl_def js_def)
  have tl: "js ''- [ ] '' @ js ''new'' @ js '' '' @ taskIdToken (js ''00000000'')
      = js ''- [ ] new <!-- tid:00000000 -->''"
    by (simp add: taskIdToken_def js_def)
  have r: "addTask a day
         = (loadWeek (a\<lparr>busy := True, error := None, cursor := 4,
              calls := [Exists (js ''/t/2026-01-05.md''), Read (js ''/t/2026-01-05.md''),
                        Write (js ''/t/2026-01-05.md'') (js ''## TODO\<newline>- [ ] new <!-- tid:00000000 -->\<newline>foo'')],
              files := (files a)(js ''/t/2026-01-05.md'' \<mapsto> js ''## TODO\<newline>- [ ] new <!-- tid:00000000 -->\<newline>foo''),
              newTaskByDay := (newTaskByDay a)(js ''2026-01-05'' \<mapsto> [])\<rparr>))
           \<lparr>busy := False\<rparr>"
    unfolding addTask_run [OF h1 h2 h3] sp ip dr tr
    by (simp add: a_def day_def gi tl jn)
  have "js ''## Todo'' \<notin> set (split_nl (js ''## TODO\<newline>foo''))"
    using sp by (simp add: md_def js_eq_iff)
  then show ?thesis
    unfolding Let_def a_def [symmetric] day_def [symmetric]
    using r by (simp add: js_eq_iff)
qed

subsection \<open>Identifier migration\<close>

lemma migrateStep_keep: "hasId t \<Longrightarrow> migrateStep (lines, c) t = (lines, c)"
  by (simp add: migrateStep_def)

lemma migrateStep_rewrite:
  assumes "\<not> hasId t" and "lineIndex t = length pre" and "taskPrefixTest l"
  shows "migrateStep (pre @ l # ls, c) t = (pre @ ensureTaskIdOnLine l (taskId t) # ls, True)"
  using assms by (simp add: migrateStep_def Let_def)

lemma needsId_None: "taskMatch l = None \<Longrightarrow> \<not> needsId l"
  by (simp add: needsId_def)

lemma needsId_Some: "taskMatch l = Some (m, m2) \<Longrightarrow> needsId l = (\<not> hasCanonicalTaskId (trim m2))"
  by (simp add: needsId_def)

lemma migrate_parseLines:
  "foldl migrateStep (pre @ ls, c) (fst (parseLines ent k (length pre) ls))
   = (pre @ migrateLines ent k ls, c \<or> list_ex needsId ls)"
proof (induction ls arbitrary: pre k c)
  case Nil
  then show ?case by simp
next
  case (Cons l ls)
  have ih: "foldl migrateStep (pre @ l' # ls, c') (fst (parseLines ent k' (Suc (length pre)) ls))
      = (pre @ l' # migrateLines ent k' ls, c' \<or> list_ex needsId ls)" for l' c' k'
    using Cons.IH [of "pre @ [l']" c' k'] by simp
  show ?case
  proof (cases "taskMatch l")
    case None
    then show ?thesis by (simp add: ih needsId_None)
  next
    case (Some a)
    obtain m m2 where a: "a = (m, m2)" by (cases a)
    note tm = Some [unfolded a]
    have tp: "taskPrefixTest l" using tm by (rule taskMatch_prefix)
    show ?thesis
    proof (cases "extractTaskId (trim m2)")
      case None
      then have nc: "\<not> hasCanonicalTaskId (trim m2)" by (rule extractTaskId_None)
      obtain t where t: "fst (parseLines ent k (length pre) (l # ls))
          = t # fst (parseLines ent (snd (genTaskId ent k)) (Suc (length pre)) ls)"
        "\<not> hasId t" "lineIndex t = length pre" "taskId t = fst (genTaskId ent k)"
        using tm None nc by (simp add: Let_def split_def)
      show ?thesis
        unfolding t(1) foldl_Cons migrateStep_rewrite [OF t(2,3) tp] ih t(4)
        using tm None nc by (simp add: needsId_Some [OF tm])
    next
      case (Some x)
      obtain t where t: "fst (parseLines ent k (length pre) (l # ls))
          = t # fst (parseLines ent k (Suc (length pre)) ls)"
        "hasId t = hasCanonicalTaskId (trim m2)" "lineIndex t = length pre" "taskId t = x"
        using tm Some by (simp add: Let_def split_def)
      show ?thesis
      proof (cases "hasCanonicalTaskId (trim m2)")
        case True
        then have "hasId t" using t(2) by simp
        then show ?thesis
          unfolding t(1) foldl_Cons
          using tm Some True by (simp add: migrateStep_keep ih needsId_Some [OF tm])
      next
        case False
        then have h: "\<not> hasId t" using t(2) by simp
        show ?thesis
          unfolding t(1) foldl_Cons migrateStep_rewrite [OF h t(3) tp] ih t(4)
          using tm Some False by (simp add: needsId_Some [OF tm])
      qed
    qed
  qed
qed

lemma migrateLines_stable: "\<not> list_ex needsId ls \<Longrightarrow> migrateLines ent k ls = ls"
proof (induction ls arbitrary: k)
  case Nil
  then show ?case by simp
next
  case (Cons l ls)
  then have n: "\<not> needsId l" and ih: "migrateLines ent k' ls = ls" for k' by simp_all
  show ?case
  proof (cases "taskMatch l")
    case None
    then show ?thesis by (simp add: ih)
  next
    case (Some a)
    obtain m m2 where a: "a = (m, m2)" by (cases a)
    with Some n have c: "hasCanonicalTaskId (trim m2)" by (simp add: needsId_Some)
    then obtain x where "extractTaskId (trim m2) = Some x"
      using hasCanonicalTaskId_extract by blast
    with Some a c show ?thesis by (simp add: ih)
  qed
qed

lemma migrateLines_settled: "\<not> list_ex needsId (migrateLines ent k ls)"
proof (induction ls arbitrary: k)
  case Nil
  then show ?case by simp
next
  case (Cons l ls)
  show ?case
  proof (cases "taskMatch l")
    case None
    then show ?thesis using Cons.IH by (simp add: needsId_None)
  next
    case (Some a)
    obtain m m2 where a: "a = (m, m2)" by (cases a)
    note tm = Some [unfolded a]
    show ?thesis
    proof (cases "extractTaskId (trim m2)")
      case None
      have "\<not> needsId (ensureTaskIdOnLine l (fst (genTaskId ent k)))"
        using genTaskId_hex [of ent k]
        by (intro needsId_ensureTaskIdOnLine [OF tm]) simp_all
      then show ?thesis using tm None Cons.IH by simp
    next
      case (Some x)
      have "\<not> needsId (ensureTaskIdOnLine l x)"
        using extractTaskId_id [OF Some]
        by (intro needsId_ensureTaskIdOnLine [OF tm]) simp_all
      moreover have "hasCanonicalTaskId (trim m2) \<Longrightarrow> \<not> needsId l"
        using tm by (simp add: needsId_Some)
      ultimately show ?thesis using tm Some Cons.IH by simp
    qed
  qed
qed

lemma migrateLines_no_newline:
  "\<forall>l\<in>set ls. 0x0A \<notin> set l \<Longrightarrow> \<forall>l\<in>set (migrateLines ent k ls). 0x0A \<notin> set l"
proof (induction ls arbitrary: k)
  case Nil
  then show ?case by simp
next
  case (Cons l ls)
  then have l: "0x0A \<notin> set l" and ih: "\<forall>l\<in>set (migrateLines ent k' ls). 0x0A \<notin> set l" for k'
    by simp_all
  have g: "0x0A \<notin> set (ensureTaskIdOnLine l (fst (genTaskId ent k)))"
    using genTaskId_hex [of ent k] by (intro ensureTaskIdOnLine_no_newline [OF l]) simp
  have x: "0x0A \<notin> set (ensureTaskIdOnLine l x)" if "extractTaskId r = Some x" for r x
    using extractTaskId_id [OF that] by (intro ensureTaskIdOnLine_no_newline [OF l]) simp
  show ?case
    using l ih g x by (auto split: option.splits)
qed

lemma migrateLines_Nil: "migrateLines ent k ls = [] \<longleftrightarrow> ls = []"
  by (cases ls) (auto split: option.splits)

text \<open>
  C8. The migration pass of \<open>loadWeek\<close>, run on what \<open>parseTasks\<close> found in a file, gives
  the lines in which exactly the task lines without the canonical token at their end are
  replaced by \<open>ensureTaskIdOnLine\<close> of the line and its task's id (the rewrite-time test
  holds for each of them), and it asks for the write exactly when there is such a line.
  Run again on the file so written, with whatever entropy, it returns the same lines and
  asks for no write.
\<close>

theorem migrate_idempotent:
  "migrate (split_nl md) (fst (parseTasks ent k md))
     = (migrateLines ent k (split_nl md), list_ex needsId (split_nl md))
   \<and> migrate (split_nl (join_nl (migrateLines ent k (split_nl md))))
       (fst (parseTasks ent' k' (join_nl (migrateLines ent k (split_nl md)))))
     = (migrateLines ent k (split_nl md), False)"
proof -
  let ?ls = "migrateLines ent k (split_nl md)"
  have m: "migrate ls (fst (parseLines e j 0 ls)) = (migrateLines e j ls, list_ex needsId ls)"
    for e j ls
    using migrate_parseLines [of "[]" ls False e j] by (simp add: migrate_def)
  have "?ls \<noteq> []" by (simp add: migrateLines_Nil split_nl_nonempty)
  moreover have "\<forall>l\<in>set ?ls. 0x0A \<notin> set l"
    by (rule migrateLines_no_newline) (simp add: split_nl_no_newline)
  ultimately have s: "split_nl (join_nl ?ls) = ?ls" by (rule split_join_nl)
  have "migrate ?ls (fst (parseLines ent' k' 0 ?ls)) = (?ls, False)"
    by (simp add: m migrateLines_stable migrateLines_settled)
  then show ?thesis by (simp add: parseTasks_def m s)
qed

text \<open>
  A file with a task without identifier, one with a legacy token and one with the
  canonical token: the first two lines are rewritten, the second pass changes nothing.
\<close>

theorem migrate_idempotent_witness:
  "migrate (split_nl (js ''## Todo'' @ 0x0A # js ''- [ ] a'' @ 0x0A # js ''- [x] b {#t:abcdef}''
        @ 0x0A # js ''- [ ] c <!-- tid:123456 -->''))
     (fst (parseTasks (\<lambda>i. 0) 0 (js ''## Todo'' @ 0x0A # js ''- [ ] a'' @ 0x0A # js ''- [x] b {#t:abcdef}''
        @ 0x0A # js ''- [ ] c <!-- tid:123456 -->'')))
   = ([js ''## Todo'', js ''- [ ] a <!-- tid:00000000 -->'', js ''- [x] b <!-- tid:abcdef -->'',
       js ''- [ ] c <!-- tid:123456 -->''], True)
   \<and> migrate (split_nl (join_nl [js ''## Todo'', js ''- [ ] a <!-- tid:00000000 -->'',
        js ''- [x] b <!-- tid:abcdef -->'', js ''- [ ] c <!-- tid:123456 -->'']))
      (fst (parseTasks (\<lambda>i. 0xFF) 7 (join_nl [js ''## Todo'', js ''- [ ] a <!-- tid:00000000 -->'',
        js ''- [x] b <!-- tid:abcdef -->'', js ''- [ ] c <!-- tid:123456 -->''])))
     = ([js ''## Todo'', js ''- [ ] a <!-- tid:00000000 -->'', js ''- [x] b <!-- tid:abcdef -->'',
         js ''- [ ] c <!-- tid:123456 -->''], False)"
proof -
  have e: "migrateLines (\<lambda>i. 0) 0 (split_nl (js ''## Todo'' @ 0x0A # js ''- [ ] a'' @ 0x0A
        # js ''- [x] b {#t:abcdef}'' @ 0x0A # js ''- [ ] c <!-- tid:123456 -->''))
      = [js ''## Todo'', js ''- [ ] a <!-- tid:00000000 -->'', js ''- [x] b <!-- tid:abcdef -->'',
         js ''- [ ] c <!-- tid:123456 -->'']"
    by code_simp
  have n: "list_ex needsId (split_nl (js ''## Todo'' @ 0x0A # js ''- [ ] a'' @ 0x0A
        # js ''- [x] b {#t:abcdef}'' @ 0x0A # js ''- [ ] c <!-- tid:123456 -->'')) = True"
    by code_simp
  show ?thesis
    using migrate_idempotent [of "js ''## Todo'' @ 0x0A # js ''- [ ] a'' @ 0x0A
        # js ''- [x] b {#t:abcdef}'' @ 0x0A # js ''- [ ] c <!-- tid:123456 -->''" "\<lambda>i. 0" 0 "\<lambda>i. 0xFF" 7]
    by (simp only: e n)
qed

subsection \<open>Change watcher\<close>

lemma differs_calls [simp]: "differs (a\<lparr>calls := c\<rparr>) d = differs a d"
  by (simp add: differs_def)

lemma quiet_calls [simp]: "quiet (a\<lparr>calls := c\<rparr>) d = quiet a d"
  by (simp add: quiet_def)








lemma quietCalls_snoc: "x \<noteq> Reload \<Longrightarrow> quietCalls a b \<Longrightarrow> quietCalls a (b @ [x])"
  by (auto simp: quietCalls_def)







subsection \<open>Serialised lines and the parser\<close>

text \<open>
  C10. \<open>buildTaskLine\<close> trims the reason but keeps a LineTerminator inside it, and the
  pattern of \<open>parseTasks\<close> has a dot that matches none: with the reason \<^verbatim>\<open>b\<close> U+2028 \<^verbatim>\<open>c\<close>
  the serialised line is no task line, and \<open>parseTasks\<close> finds no task in it. (The display
  text goes through \<open>parseMeta\<close>, which turns every white space, LineTerminators
  included, into a space.)
\<close>

theorem buildTaskLine_line_separator:
  "buildTaskLine False (js ''a'') \<lparr>estMin = None, actMin = None, reason = [0x62, 0x2028, 0x63]\<rparr>
     (js ''abcdef'')
   = js ''- [ ] a '' @ reasonMarker @ [0x62, 0x2028, 0x63] @ js '' <!-- tid:abcdef -->''
   \<and> parseTasks (\<lambda>i. 0) 0
       (buildTaskLine False (js ''a'') \<lparr>estMin = None, actMin = None, reason = [0x62, 0x2028, 0x63]\<rparr>
          (js ''abcdef''))
     = ([], 0)"
proof -
  have b: "buildTaskLine False (js ''a'') \<lparr>estMin = None, actMin = None, reason = [0x62, 0x2028, 0x63]\<rparr>
     (js ''abcdef'')
   = js ''- [ ] a '' @ reasonMarker @ [0x62, 0x2028, 0x63] @ js '' <!-- tid:abcdef -->''"
    by code_simp
  have p: "parseTasks (\<lambda>i. 0) 0
       (js ''- [ ] a '' @ reasonMarker @ [0x62, 0x2028, 0x63] @ js '' <!-- tid:abcdef -->'') = ([], 0)"
    by code_simp
  show ?thesis unfolding b using p by simp
qed

end
